(* ===== verification/Prelude.thy ===== *)
theory Prelude
  imports Main "HOL-Library.Word"
begin

text \<open>
  What every component of the development shares: the machine integers of the C sources, the
  ways in which a C function can fail to return normally (a fault), the sequencing of code that
  may fault, and byte memory. A pointer into a memory object is the list of the bytes from the
  pointer to the end of the object, so that an access past the end of the object is an
  observable fault and not an unspecified value.
\<close>

unbundle bit_operations_syntax

section \<open>Machine integers, memory objects\<close>

type_synonym u8 = "8 word"
type_synonym u16 = "16 word"
type_synonym u32 = "32 word"
type_synonym u64 = "64 word"

type_synonym bytes = "u8 list"

abbreviation INT_MAX :: int where "INT_MAX \<equiv> 2147483647"

section \<open>Faults\<close>

text \<open>
  The ways in which a call does not return to its caller: an access outside a memory object, a
  read of an object never written, a shift by at least the width of the type, the overflow of a
  signed integer, a failed \<open>assert\<close>, \<open>ASSERT\<close> or \<open>RT_ASSERT\<close>, an explicit \<open>exit\<close>, and a C++
  exception no caller catches.
\<close>

datatype fault =
    Out_of_bounds
  | Uninitialised
  | Bad_shift
  | Int_overflow
  | Assert_failed
  | Exited
  | Uncaught_exception

type_synonym 'a res = "fault + 'a"

definition rbind :: "'a res \<Rightarrow> ('a \<Rightarrow> 'b res) \<Rightarrow> 'b res" where
  "rbind m f = (case m of Inl e \<Rightarrow> Inl e | Inr x \<Rightarrow> f x)"

definition returns :: "'a res \<Rightarrow> bool" where
  "returns m = (case m of Inl _ \<Rightarrow> False | Inr _ \<Rightarrow> True)"

named_theorems mem_simps \<open>characteristic equations of reads, writes and copies\<close>

lemma rbind_Inl [simp]: "rbind (Inl e) f = Inl e"
  by (simp add: rbind_def)

lemma rbind_Inr [simp]: "rbind (Inr x) f = f x"
  by (simp add: rbind_def)

lemma rbind_assoc: "rbind (rbind m f) g = rbind m (\<lambda>x. rbind (f x) g)"
  by (cases m) simp_all

lemma rbind_cong [fundef_cong]:
  "m = m' \<Longrightarrow> (\<And>x. m' = Inr x \<Longrightarrow> f x = g x) \<Longrightarrow> rbind m f = rbind m' g"
  by (cases m') simp_all

lemma rbind_eq_Inr: "rbind m f = Inr y \<longleftrightarrow> (\<exists>x. m = Inr x \<and> f x = Inr y)"
  by (cases m) simp_all

lemma rbind_eq_Inl: "rbind m f = Inl e \<longleftrightarrow> m = Inl e \<or> (\<exists>x. m = Inr x \<and> f x = Inl e)"
  by (cases m) simp_all

lemma rbind_if [simp]:
  "rbind (if b then m else n) f = (if b then rbind m f else rbind n f)"
  by simp

lemma returns_simps [simp]: "returns (Inr x)" "\<not> returns (Inl e)"
  by (simp_all add: returns_def)

lemma returns_iff: "returns m \<longleftrightarrow> (\<exists>x. m = Inr x)"
  by (cases m) simp_all

lemma returns_rbind: "returns (rbind m f) \<longleftrightarrow> (\<exists>x. m = Inr x \<and> returns (f x))"
  by (cases m) simp_all

lemma returnsI [intro]: "m = Inr x \<Longrightarrow> returns m"
  by simp

section \<open>Byte memory\<close>

text \<open>\<open>rd p i\<close> is \<open>p[i]\<close>; \<open>rdn p off n\<close> is the source side of \<open>memcpy(_, p + off, n)\<close>;
  \<open>wrn d off s\<close> is \<open>memcpy(d + off, s, |s|)\<close>.\<close>

definition rd :: "bytes \<Rightarrow> nat \<Rightarrow> u8 res" where
  "rd p i = (if i < length p then Inr (p ! i) else Inl Out_of_bounds)"

definition rdn :: "bytes \<Rightarrow> nat \<Rightarrow> nat \<Rightarrow> bytes res" where
  "rdn p off n = (if off + n \<le> length p then Inr (take n (drop off p)) else Inl Out_of_bounds)"

definition wrn :: "bytes \<Rightarrow> nat \<Rightarrow> bytes \<Rightarrow> bytes res" where
  "wrn d off s =
     (if off + length s \<le> length d
      then Inr (take off d @ s @ drop (off + length s) d) else Inl Out_of_bounds)"

lemma rd_ok [mem_simps]: "i < length p \<Longrightarrow> rd p i = Inr (p ! i)"
  by (simp add: rd_def)

lemma rdn_ok [mem_simps]: "off + n \<le> length p \<Longrightarrow> rdn p off n = Inr (take n (drop off p))"
  by (simp add: rdn_def)

lemma wrn_ok [mem_simps]:
  "off + length s \<le> length d \<Longrightarrow> wrn d off s = Inr (take off d @ s @ drop (off + length s) d)"
  by (simp add: wrn_def)

lemma rdn_length: "rdn p off n = Inr s \<Longrightarrow> length s = n"
  by (auto simp: rdn_def split: if_splits)

lemma wrn_length: "wrn d off s = Inr d' \<Longrightarrow> length d' = length d"
  by (auto simp: wrn_def split: if_splits)

lemma returns_rd [simp]: "returns (rd p i) \<longleftrightarrow> i < length p"
  by (simp add: rd_def)

lemma returns_rdn [simp]: "returns (rdn p off n) \<longleftrightarrow> off + n \<le> length p"
  by (simp add: rdn_def)

lemma returns_wrn [simp]: "returns (wrn d off s) \<longleftrightarrow> off + length s \<le> length d"
  by (simp add: wrn_def)

text \<open>Reading back what a copy wrote, and what it left alone.\<close>

lemma wrn_read_back:
  assumes "wrn d off s = Inr d'"
  shows "take (length s) (drop off d') = s"
  using assms by (auto simp: wrn_def split: if_splits)

lemma wrn_take:
  assumes "wrn d off s = Inr d'" and "n \<le> off"
  shows "take n d' = take n d"
  using assms by (auto simp: wrn_def min_def split: if_splits)

lemma wrn_nth:
  assumes "wrn d off s = Inr d'" and "i < length d"
  shows "d' ! i = (if off \<le> i \<and> i < off + length s then s ! (i - off) else d ! i)"
  using assms by (auto simp: wrn_def nth_append split: if_splits)

section \<open>Lists indexed as C arrays\<close>

lemma list_update_same_length [simp]: "length (xs[i := f]) = length xs"
  by simp

lemma take_drop_nth:
  "off + 2 \<le> length p \<Longrightarrow> take 2 (drop off p) = [p ! off, p ! (off + 1)]"
  by (simp add: numeral_2_eq_2 take_Suc_conv_app_nth)

text \<open>The index of the first element with a property, which a C \<open>for\<close> loop with a \<open>break\<close>
  finds.\<close>

fun find_index :: "('a \<Rightarrow> bool) \<Rightarrow> 'a list \<Rightarrow> nat option" where
  "find_index P [] = None"
| "find_index P (x # xs) = (if P x then Some 0 else map_option Suc (find_index P xs))"

lemma find_index_SomeD:
  "find_index P xs = Some i \<Longrightarrow>
     i < length xs \<and> P (xs ! i) \<and> (\<forall>j < i. \<not> P (xs ! j))"
  by (induction xs arbitrary: i) (auto split: if_splits simp: less_Suc_eq_0_disj)

lemma find_index_None: "find_index P xs = None \<longleftrightarrow> (\<forall>x \<in> set xs. \<not> P x)"
  by (induction xs) auto

lemma find_index_SomeI:
  "i < length xs \<Longrightarrow> P (xs ! i) \<Longrightarrow> (\<And>j. j < i \<Longrightarrow> \<not> P (xs ! j)) \<Longrightarrow> find_index P xs = Some i"
proof (induction xs arbitrary: i)
  case Nil
  then show ?case by simp
next
  case (Cons x xs)
  show ?case
  proof (cases i)
    case 0
    with Cons.prems show ?thesis by simp
  next
    case (Suc k)
    have "\<not> P x" using Cons.prems(3) [of 0] Suc by simp
    moreover have "find_index P xs = Some k"
      using Cons.prems Suc by (intro Cons.IH) fastforce+
    ultimately show ?thesis using Suc by simp
  qed
qed

lemma find_index_cong:
  "length xs = length ys \<Longrightarrow> (\<And>j. j < length xs \<Longrightarrow> P (xs ! j) = P (ys ! j)) \<Longrightarrow>
     find_index P xs = find_index P ys"
proof (induction xs ys rule: list_induct2)
  case (Cons x xs y ys)
  have "P x = P y" using Cons.prems [of 0] by simp
  moreover have "find_index P xs = find_index P ys"
    using Cons.prems [of "Suc j" for j] by (intro Cons.IH) simp
  ultimately show ?case by simp
qed simp

lemma takeWhile_ne: "c \<notin> set xs \<Longrightarrow> takeWhile (\<lambda>x. x \<noteq> c) (xs @ c # ys) = xs"
  by (induction xs) auto

section \<open>Strings\<close>

text \<open>Search for a text in a text, and small letters for the capital ones of ASCII.\<close>

fun contains_str :: "string \<Rightarrow> string \<Rightarrow> bool" where
  "contains_str t [] \<longleftrightarrow> t = []"
| "contains_str t (x # xs) \<longleftrightarrow> take (length t) (x # xs) = t \<or> contains_str t xs"

definition lowercase :: "string \<Rightarrow> string" where
  "lowercase s = map (\<lambda>c. let n = (of_char c :: nat) in if 65 \<le> n \<and> n \<le> 90 then char_of (n + 32) else c) s"

section \<open>Words\<close>

lemma unat_u8_less [simp]: "unat (x :: u8) < 256"
  using unsigned_less [of x] by simp

lemma unat_u16_less [simp]: "unat (x :: u16) < 65536"
  using unsigned_less [of x] by simp

lemma unat_of_nat_u16: "n < 65536 \<Longrightarrow> unat (of_nat n :: u16) = n"
  by (simp add: unat_of_nat)

lemma unat_of_nat_u8: "n < 256 \<Longrightarrow> unat (of_nat n :: u8) = n"
  by (simp add: unat_of_nat)

lemma ucast_of_nat_u64: "n < 65536 \<Longrightarrow> (ucast (of_nat n :: u16) :: u64) = of_nat n"
  by (simp add: unsigned_of_nat take_bit_nat_eq_self)

section \<open>What the environment answers\<close>

text \<open>
  The answers of code the program only calls, fixed for the length of one event: the clock
  (\<open>time(NULL)\<close>), whether \<open>assert\<close> is compiled out, the result of the n-th \<open>uv_udp_send\<close>,
  whether lwIP has memory for a packet buffer of a given length, and what lwIP's input function
  returns for a packet.
\<close>

record env =
  clock :: int
  ndebug :: bool
  udp_send_rc :: "nat \<Rightarrow> int"
  pbuf_ok :: "u16 \<Rightarrow> bool"
  netif_input_rc :: "bytes \<Rightarrow> int"

end
