(* ===== verification/Helper.thy ===== *)
theory Helper
  imports Prelude
begin

text \<open>
  The macros of \<open>helper.h\<close>: reads and writes of network-order integers in packets, copies and
  comparisons of addresses, subnet tests. The targets of the client are little-endian, so a load
  of a \<open>uint16_t\<close> or \<open>uint32_t\<close> from memory takes the byte at the lower address as the less
  significant one, and \<open>htons\<close>, \<open>ntohs\<close>, \<open>htonl\<close>, \<open>ntohl\<close> swap the bytes. The file
  \<open>byteorder.h\<close> spells these swaps out byte by byte. The two fixed-size address arrays
  \<open>uint8_t[4]\<close> and \<open>uint8_t[6]\<close> are datatypes with one field per byte.
\<close>

section \<open>Addresses\<close>

datatype ip4 = IP4 u8 u8 u8 u8
datatype mac6 = MAC6 u8 u8 u8 u8 u8 u8

fun ip_bytes :: "ip4 \<Rightarrow> bytes" where
  "ip_bytes (IP4 a b c d) = [a, b, c, d]"

fun mac_bytes :: "mac6 \<Rightarrow> bytes" where
  "mac_bytes (MAC6 a b c d e f) = [a, b, c, d, e, f]"

definition NONE_IP :: ip4 where "NONE_IP = IP4 0 0 0 0"
definition NONE_MAC :: mac6 where "NONE_MAC = MAC6 0 0 0 0 0 0"
definition BROADCAST_MAC :: mac6 where
  "BROADCAST_MAC = MAC6 0xff 0xff 0xff 0xff 0xff 0xff"

text \<open>A \<open>sockaddr_in\<close>, whose port is kept as the structure has it, in network byte order, and
  \<open>slp_addr_in\<close> of \<open>slp_addr.h\<close>, the union of the two address families tagged by
  \<open>sin_family\<close>. An IPv6 address is its sixteen bytes.\<close>

record sockaddr_in =
  sin_addr :: ip4
  sin_port :: u16

datatype slp_addr_in =
    Addr_v4 sockaddr_in
  | Addr_v6 bytes u16

section \<open>Byte order\<close>

definition byte_of :: "nat \<Rightarrow> 'a::len word \<Rightarrow> u8" where
  "byte_of k x = ucast (drop_bit (8 * k) x)"

definition put_byte :: "nat \<Rightarrow> u8 \<Rightarrow> 'a::len word" where
  "put_byte k b = push_bit (8 * k) (ucast b)"

definition badvpn_reverse16 :: "u16 \<Rightarrow> u16" where
  "badvpn_reverse16 x = put_byte 0 (byte_of 1 x) OR put_byte 1 (byte_of 0 x)"

definition badvpn_reverse32 :: "u32 \<Rightarrow> u32" where
  "badvpn_reverse32 x =
     put_byte 0 (byte_of 3 x) OR put_byte 1 (byte_of 2 x) OR
     put_byte 2 (byte_of 1 x) OR put_byte 3 (byte_of 0 x)"

definition badvpn_reverse64 :: "u64 \<Rightarrow> u64" where
  "badvpn_reverse64 x =
     put_byte 0 (byte_of 7 x) OR put_byte 1 (byte_of 6 x) OR
     put_byte 2 (byte_of 5 x) OR put_byte 3 (byte_of 4 x) OR
     put_byte 4 (byte_of 3 x) OR put_byte 5 (byte_of 2 x) OR
     put_byte 6 (byte_of 1 x) OR put_byte 7 (byte_of 0 x)"

text \<open>The little-endian branch of \<open>byteorder.h\<close>: host to network order swaps, host to
  little-endian order does not; the inverse conversions are the same functions.\<close>

definition hton8 :: "u8 \<Rightarrow> u8" where "hton8 x = x"
definition htol8 :: "u8 \<Rightarrow> u8" where "htol8 x = x"
definition hton16 :: "u16 \<Rightarrow> u16" where "hton16 x = badvpn_reverse16 x"
definition hton32 :: "u32 \<Rightarrow> u32" where "hton32 x = badvpn_reverse32 x"
definition hton64 :: "u64 \<Rightarrow> u64" where "hton64 x = badvpn_reverse64 x"
definition htol16 :: "u16 \<Rightarrow> u16" where "htol16 x = x"
definition htol32 :: "u32 \<Rightarrow> u32" where "htol32 x = x"
definition htol64 :: "u64 \<Rightarrow> u64" where "htol64 x = x"
definition ntoh8 :: "u8 \<Rightarrow> u8" where "ntoh8 x = hton8 x"
definition ntoh16 :: "u16 \<Rightarrow> u16" where "ntoh16 x = hton16 x"
definition ntoh32 :: "u32 \<Rightarrow> u32" where "ntoh32 x = hton32 x"
definition ntoh64 :: "u64 \<Rightarrow> u64" where "ntoh64 x = hton64 x"
definition ltoh8 :: "u8 \<Rightarrow> u8" where "ltoh8 x = htol8 x"
definition ltoh16 :: "u16 \<Rightarrow> u16" where "ltoh16 x = htol16 x"
definition ltoh32 :: "u32 \<Rightarrow> u32" where "ltoh32 x = htol32 x"
definition ltoh64 :: "u64 \<Rightarrow> u64" where "ltoh64 x = htol64 x"

text \<open>The C library's conversions, which the macros use.\<close>

definition htons :: "u16 \<Rightarrow> u16" where
  "htons x = push_bit 8 x OR drop_bit 8 x"

abbreviation ntohs :: "u16 \<Rightarrow> u16" where "ntohs \<equiv> htons"

lemma put_byte_byte_of_bit:
  "bit (put_byte k (byte_of j x) :: 'a::len word) n \<longleftrightarrow>
     n < LENGTH('a) \<and> 8 * k \<le> n \<and> n < 8 * k + 8 \<and> bit (x :: 'a word) (8 * j + (n - 8 * k))"
  by (auto simp: put_byte_def byte_of_def bit_simps)

lemma htons_eq_reverse16: "htons x = badvpn_reverse16 x"
  by (rule bit_word_eqI)
    (auto simp: htons_def badvpn_reverse16_def put_byte_byte_of_bit bit_simps
      dest: bit_imp_le_length)

text \<open>A word is made of its bytes: assembling them gives the word back, taking one out of an
  assembled word gives the byte put there.\<close>

lemma byte_of_or: "byte_of k (x OR y) = byte_of k x OR byte_of k y"
  by (rule bit_word_eqI) (simp add: byte_of_def bit_simps)

lemma byte_of_put_other [simp]:
  assumes "j \<noteq> k"
  shows "byte_of j (put_byte k b :: 'a::len word) = 0"
proof (rule bit_word_eqI)
  fix n assume "n < LENGTH(8)"
  with assms have "8 * j + n < 8 * k \<or> 8 * k + 8 \<le> 8 * j + n" by simp linarith
  then show "bit (byte_of j (put_byte k b :: 'a word)) n = bit (0 :: u8) n"
    by (auto simp: byte_of_def put_byte_def bit_simps dest: bit_imp_le_length)
qed

lemma bytes16: "put_byte 0 (byte_of 0 x) OR put_byte 1 (byte_of 1 x) = (x :: u16)"
proof (rule bit_word_eqI)
  fix n assume "n < LENGTH(16)"
  then consider "n < 8" | "8 \<le> n" "n < 16" by fastforce
  then show "bit (put_byte 0 (byte_of 0 x) OR put_byte 1 (byte_of 1 x) :: u16) n = bit x n"
    by cases (simp_all add: put_byte_byte_of_bit bit_or_iff)
qed

lemma bytes32:
  "put_byte 0 (byte_of 0 x) OR put_byte 1 (byte_of 1 x) OR
   put_byte 2 (byte_of 2 x) OR put_byte 3 (byte_of 3 x) = (x :: u32)"
proof (rule bit_word_eqI)
  fix n assume "n < LENGTH(32)"
  then consider "n < 8" | "8 \<le> n" "n < 16" | "16 \<le> n" "n < 24" | "24 \<le> n" "n < 32"
    by fastforce
  then show "bit (put_byte 0 (byte_of 0 x) OR put_byte 1 (byte_of 1 x) OR
     put_byte 2 (byte_of 2 x) OR put_byte 3 (byte_of 3 x) :: u32) n = bit x n"
    by cases (simp_all add: put_byte_byte_of_bit bit_or_iff)
qed

lemma bytes64:
  "put_byte 0 (byte_of 0 x) OR put_byte 1 (byte_of 1 x) OR
   put_byte 2 (byte_of 2 x) OR put_byte 3 (byte_of 3 x) OR
   put_byte 4 (byte_of 4 x) OR put_byte 5 (byte_of 5 x) OR
   put_byte 6 (byte_of 6 x) OR put_byte 7 (byte_of 7 x) = (x :: u64)"
proof (rule bit_word_eqI)
  fix n assume "n < LENGTH(64)"
  then consider "n < 8" | "8 \<le> n" "n < 16" | "16 \<le> n" "n < 24" | "24 \<le> n" "n < 32"
    | "32 \<le> n" "n < 40" | "40 \<le> n" "n < 48" | "48 \<le> n" "n < 56" | "56 \<le> n" "n < 64"
    by fastforce
  then show "bit (put_byte 0 (byte_of 0 x) OR put_byte 1 (byte_of 1 x) OR
     put_byte 2 (byte_of 2 x) OR put_byte 3 (byte_of 3 x) OR
     put_byte 4 (byte_of 4 x) OR put_byte 5 (byte_of 5 x) OR
     put_byte 6 (byte_of 6 x) OR put_byte 7 (byte_of 7 x) :: u64) n = bit x n"
    by cases (simp_all add: put_byte_byte_of_bit bit_or_iff)
qed

lemma byte_of_put_same [simp]:
  "k < 2 \<Longrightarrow> byte_of k (put_byte k b :: u16) = b"
  "k < 4 \<Longrightarrow> byte_of k (put_byte k b :: u32) = b"
  "k < 8 \<Longrightarrow> byte_of k (put_byte k b :: u64) = b"
  by (auto intro!: bit_word_eqI simp: byte_of_def put_byte_def bit_simps)

lemma reverse16_involution: "badvpn_reverse16 (badvpn_reverse16 x) = x"
  unfolding badvpn_reverse16_def byte_of_or by (simp add: bytes16 [simplified])

lemma reverse32_involution: "badvpn_reverse32 (badvpn_reverse32 x) = x"
  unfolding badvpn_reverse32_def byte_of_or by (simp add: bytes32 [simplified])

lemma reverse64_involution: "badvpn_reverse64 (badvpn_reverse64 x) = x"
  unfolding badvpn_reverse64_def byte_of_or by (simp add: bytes64 [simplified])

lemma htons_htons [simp]: "htons (htons x) = x"
  by (simp add: htons_eq_reverse16 reverse16_involution)

section \<open>Reads and writes of packet fields\<close>

text \<open>Loads and stores of the machine: the byte at the lower address is the less significant
  one.\<close>

definition ld16 :: "bytes \<Rightarrow> nat \<Rightarrow> u16 res" where
  "ld16 p off =
     rbind (rd p off) (\<lambda>b0. rbind (rd p (off + 1)) (\<lambda>b1. Inr (put_byte 0 b0 OR put_byte 1 b1)))"

definition le32 :: "ip4 \<Rightarrow> u32" where
  "le32 ip = (case ip of IP4 a b c d \<Rightarrow>
     put_byte 0 a OR put_byte 1 b OR put_byte 2 c OR put_byte 3 d)"

definition READ_NET8 :: "bytes \<Rightarrow> nat \<Rightarrow> u8 res" where
  "READ_NET8 packet offset = rd packet offset"

definition READ_NET16 :: "bytes \<Rightarrow> nat \<Rightarrow> u16 res" where
  "READ_NET16 packet offset = rbind (ld16 packet offset) (\<lambda>v. Inr (htons v))"

text \<open>Reads of whole addresses: the source side of \<open>CPY_IPV4\<close> and \<open>CPY_MAC\<close>.\<close>

definition CPY_IPV4 :: "bytes \<Rightarrow> nat \<Rightarrow> ip4 res" where
  "CPY_IPV4 p off = rbind (rdn p off 4) (\<lambda>s. Inr (IP4 (s ! 0) (s ! 1) (s ! 2) (s ! 3)))"

definition CPY_MAC :: "bytes \<Rightarrow> nat \<Rightarrow> mac6 res" where
  "CPY_MAC p off =
     rbind (rdn p off 6) (\<lambda>s. Inr (MAC6 (s ! 0) (s ! 1) (s ! 2) (s ! 3) (s ! 4) (s ! 5)))"

text \<open>Writes into the fixed-size header arrays the senders keep on their stack. Every offset is
  a constant inside the array, so these writes cannot fault.\<close>

definition WRITE_NET8 :: "bytes \<Rightarrow> nat \<Rightarrow> u8 \<Rightarrow> bytes" where
  "WRITE_NET8 packet offset v = packet[offset := v]"

definition WRITE_NET16 :: "bytes \<Rightarrow> nat \<Rightarrow> u16 \<Rightarrow> bytes" where
  "WRITE_NET16 packet offset v =
     (let w = htons v in packet[offset := byte_of 0 w, offset + 1 := byte_of 1 w])"

fun PUT_IPV4 :: "bytes \<Rightarrow> nat \<Rightarrow> ip4 \<Rightarrow> bytes" where
  "PUT_IPV4 p off (IP4 a b c d) = p[off := a, off + 1 := b, off + 2 := c, off + 3 := d]"

fun PUT_MAC :: "bytes \<Rightarrow> nat \<Rightarrow> mac6 \<Rightarrow> bytes" where
  "PUT_MAC p off (MAC6 a b c d e f) =
     p[off := a, off + 1 := b, off + 2 := c, off + 3 := d, off + 4 := e, off + 5 := f]"

section \<open>Comparisons\<close>

definition CMP_IPV4 :: "ip4 \<Rightarrow> ip4 \<Rightarrow> bool" where
  "CMP_IPV4 ip1 ip2 = (take 4 (ip_bytes ip1) = take 4 (ip_bytes ip2))"

text \<open>The macro compares four of the six bytes.\<close>

definition CMP_MAC :: "mac6 \<Rightarrow> mac6 \<Rightarrow> bool" where
  "CMP_MAC mac1 mac2 = (take 4 (mac_bytes mac1) = take 4 (mac_bytes mac2))"

definition IS_SUBNET :: "ip4 \<Rightarrow> ip4 \<Rightarrow> ip4 \<Rightarrow> bool" where
  "IS_SUBNET ip net netmask = (le32 ip AND le32 netmask = le32 net)"

definition IS_BROADCAST :: "ip4 \<Rightarrow> ip4 \<Rightarrow> ip4 \<Rightarrow> bool" where
  "IS_BROADCAST ip net netmask = (le32 net OR NOT (le32 netmask) = le32 ip)"

section \<open>Facts about the macros\<close>

definition be16 :: "u8 \<Rightarrow> u8 \<Rightarrow> u16" where
  "be16 hi lo = put_byte 1 hi OR put_byte 0 lo"

definition hi8 :: "u16 \<Rightarrow> u8" where "hi8 v = byte_of 1 v"
definition lo8 :: "u16 \<Rightarrow> u8" where "lo8 v = byte_of 0 v"

lemma be16_hi8_lo8 [simp]: "be16 (hi8 v) (lo8 v) = v"
  by (rule bit_word_eqI)
    (auto simp: be16_def hi8_def lo8_def put_byte_byte_of_bit bit_or_iff)

lemma hi8_be16 [simp]: "hi8 (be16 a b) = a"
  by (rule bit_word_eqI)
    (auto simp: be16_def hi8_def put_byte_def byte_of_def bit_simps dest: bit_imp_le_length)

lemma lo8_be16 [simp]: "lo8 (be16 a b) = b"
  by (rule bit_word_eqI)
    (auto simp: be16_def lo8_def put_byte_def byte_of_def bit_simps dest: bit_imp_le_length)

lemma htons_le_be: "htons (put_byte 0 a OR put_byte (Suc 0) b) = be16 a b"
  by (rule bit_word_eqI)
    (auto simp: htons_def be16_def put_byte_def bit_simps dest: bit_imp_le_length)

lemma byte_of_htons [simp]: "byte_of 0 (htons v) = hi8 v" "byte_of (Suc 0) (htons v) = lo8 v"
  by (rule bit_word_eqI;
      auto simp: htons_def hi8_def lo8_def byte_of_def bit_simps dest: bit_imp_le_length)+

lemma READ_NET8_eq [mem_simps]: "i < length p \<Longrightarrow> READ_NET8 p i = Inr (p ! i)"
  by (simp add: READ_NET8_def rd_def)

lemma READ_NET16_eq [mem_simps]:
  "off + 1 < length p \<Longrightarrow> READ_NET16 p off = Inr (be16 (p ! off) (p ! (off + 1)))"
  by (simp add: READ_NET16_def ld16_def rd_def htons_le_be)

lemma READ_NET16_fault: "length p \<le> off + 1 \<Longrightarrow> READ_NET16 p off = Inl Out_of_bounds"
  by (simp add: READ_NET16_def ld16_def rd_def)

lemma CPY_IPV4_eq [mem_simps]:
  "off + 4 \<le> length p \<Longrightarrow>
     CPY_IPV4 p off = Inr (IP4 (p ! off) (p ! (off + 1)) (p ! (off + 2)) (p ! (off + 3)))"
  by (simp add: CPY_IPV4_def rdn_def)

lemma CPY_MAC_eq [mem_simps]:
  "off + 6 \<le> length p \<Longrightarrow>
     CPY_MAC p off = Inr (MAC6 (p ! off) (p ! (off + 1)) (p ! (off + 2)) (p ! (off + 3))
       (p ! (off + 4)) (p ! (off + 5)))"
  by (simp add: CPY_MAC_def rdn_def)

lemma WRITE_NET16_eq:
  "WRITE_NET16 p off v = p[off := hi8 v, off + 1 := lo8 v]"
  by (simp add: WRITE_NET16_def Let_def)

lemma write_lengths [simp]:
  "length (WRITE_NET8 p off v) = length p"
  "length (WRITE_NET16 p off w) = length p"
  "length (PUT_IPV4 p off ip) = length p"
  "length (PUT_MAC p off mac) = length p"
  by (simp_all add: WRITE_NET8_def WRITE_NET16_eq) (cases ip; cases mac; simp)+

lemma address_lengths [simp]: "length (ip_bytes ip) = 4" "length (mac_bytes mac) = 6"
  by (cases ip; cases mac; simp)+

lemma ip_bytes_inject [simp]: "ip_bytes a = ip_bytes b \<longleftrightarrow> a = b"
  by (cases a; cases b) auto

lemma mac_bytes_inject [simp]: "mac_bytes a = mac_bytes b \<longleftrightarrow> a = b"
  by (cases a; cases b) auto

lemma CMP_IPV4_iff [simp]: "CMP_IPV4 a b \<longleftrightarrow> a = b"
  by (cases a; cases b) (auto simp: CMP_IPV4_def)

lemma CMP_MAC_refl [simp]: "CMP_MAC m m"
  by (simp add: CMP_MAC_def)

lemma byte_of_le32:
  "byte_of 0 (le32 (IP4 a b c d)) = a"
  "byte_of 1 (le32 (IP4 a b c d)) = b"
  "byte_of 2 (le32 (IP4 a b c d)) = c"
  "byte_of 3 (le32 (IP4 a b c d)) = d"
  by (rule bit_word_eqI;
      auto simp: le32_def byte_of_def put_byte_def bit_simps dest: bit_imp_le_length)+

lemma le32_inject [simp]: "le32 x = le32 y \<longleftrightarrow> x = y"
proof
  assume "le32 x = le32 y"
  then have "byte_of k (le32 x) = byte_of k (le32 y)" for k by simp
  from this [of 0] this [of 1] this [of 2] this [of 3] show "x = y"
    by (cases x; cases y) (simp only: byte_of_le32)
qed simp

text \<open>The 32-bit mask tests are tests of the four bytes, whatever the byte order of the host.\<close>

lemma u32_eqI:
  assumes "byte_of 0 x = byte_of 0 y" "byte_of 1 x = byte_of 1 y"
    and "byte_of 2 x = byte_of 2 y" "byte_of 3 x = byte_of 3 y"
  shows "x = (y :: u32)"
  using assms bytes32 [of x] bytes32 [of y] by simp

lemma byte_of_and: "byte_of k (x AND y) = byte_of k x AND byte_of k y"
  by (rule bit_word_eqI) (simp add: byte_of_def bit_simps)

lemma byte_of_not: "k < 4 \<Longrightarrow> byte_of k (NOT x :: u32) = NOT (byte_of k x)"
  by (rule bit_word_eqI) (simp add: byte_of_def bit_simps)

lemma le32_and: "le32 (IP4 a b c d) AND le32 (IP4 a' b' c' d') =
  le32 (IP4 (a AND a') (b AND b') (c AND c') (d AND d'))"
  by (rule u32_eqI) (simp_all only: byte_of_and byte_of_le32)

lemma le32_or_not: "le32 (IP4 a b c d) OR NOT (le32 (IP4 a' b' c' d')) =
  le32 (IP4 (a OR NOT a') (b OR NOT b') (c OR NOT c') (d OR NOT d'))"
  by (rule u32_eqI) (simp_all add: byte_of_or byte_of_not byte_of_le32 byte_of_le32 [simplified])

lemma IS_SUBNET_bytes:
  "IS_SUBNET (IP4 a b c d) (IP4 n0 n1 n2 n3) (IP4 m0 m1 m2 m3) \<longleftrightarrow>
     a AND m0 = n0 \<and> b AND m1 = n1 \<and> c AND m2 = n2 \<and> d AND m3 = n3"
  by (simp add: IS_SUBNET_def le32_and)

lemma IS_BROADCAST_bytes:
  "IS_BROADCAST (IP4 a b c d) (IP4 n0 n1 n2 n3) (IP4 m0 m1 m2 m3) \<longleftrightarrow>
     n0 OR NOT m0 = a \<and> n1 OR NOT m1 = b \<and> n2 OR NOT m2 = c \<and> n3 OR NOT m3 = d"
  by (simp add: IS_BROADCAST_def le32_or_not)

end
