(* ===== verification/Addr.thy ===== *)
theory Addr
  imports Helper
begin

text \<open>
  The address helpers of \<open>helper.c\<close>: reading a dotted address, splitting \<open>host:port\<close> or
  \<open>[host]:port\<close>, and resolving it. C strings are character lists without a NUL. The number
  readers of the C library (\<open>strtol\<close> and the \<open>%d\<close> of \<open>sscanf\<close>) are written out; the resolver
  \<open>getaddrinfo\<close> is a parameter.
\<close>

section \<open>Numbers in strings\<close>

definition is_digit :: "char \<Rightarrow> bool" where
  "is_digit c \<longleftrightarrow> 48 \<le> (of_char c :: nat) \<and> (of_char c :: nat) \<le> 57"

definition is_space :: "char \<Rightarrow> bool" where
  "is_space c \<longleftrightarrow> (of_char c :: nat) \<in> {9, 10, 11, 12, 13, 32}"

definition digits_val :: "string \<Rightarrow> int" where
  "digits_val ds = foldl (\<lambda>v c. 10 * v + (of_char c - 48)) 0 ds"

text \<open>The value of the number at the start of a string and what follows it; \<open>None\<close> when there is
  no number.\<close>

definition scan_int :: "string \<Rightarrow> (int \<times> string) option" where
  "scan_int s =
     (let s1 = dropWhile is_space s;
          (neg, s2) = (case s1 of
              c # r \<Rightarrow> if c = CHR ''-'' then (True, r) else if c = CHR ''+'' then (False, r) else (False, s1)
            | [] \<Rightarrow> (False, []));
          ds = takeWhile is_digit s2
      in if ds = [] then None
         else Some (if neg then - digits_val ds else digits_val ds, dropWhile is_digit s2))"

text \<open>\<open>strtol(s, &end, 10)\<close>, with its saturation at the ends of \<open>long\<close>.\<close>

definition strtol10 :: "string \<Rightarrow> int \<times> string" where
  "strtol10 s =
     (case scan_int s of
        None \<Rightarrow> (0, s)
      | Some (v, r) \<Rightarrow> (max (- (2 ^ 63)) (min (2 ^ 63 - 1) v), r))"

section \<open>Dotted addresses\<close>

text \<open>\<open>sscanf(ip, "%d.%d.%d.%d", ...)\<close>: a component that is not there leaves its variable without a
  value. The conversion \<open>%d\<close> reads a \<open>long\<close> as \<open>strtol\<close> does and stores its low bits.\<close>

fun sscanf_ip :: "nat \<Rightarrow> string \<Rightarrow> int list" where
  "sscanf_ip 0 s = []"
| "sscanf_ip (Suc n) s =
     (case scan_int s of
        None \<Rightarrow> []
      | Some (v, r) \<Rightarrow>
          max (- (2 ^ 63)) (min (2 ^ 63 - 1) v) #
            (case r of c # r' \<Rightarrow> if c = CHR ''.'' then sscanf_ip n r' else [] | [] \<Rightarrow> []))"

definition str2ip :: "string \<Rightarrow> ip4 res" where
  "str2ip ip =
     (case sscanf_ip 4 ip of
        [a, b, c, d] \<Rightarrow> Inr (IP4 (of_int a) (of_int b) (of_int c) (of_int d))
      | _ \<Rightarrow> Inl Uninitialised)"

section \<open>Host and port\<close>

text \<open>The first position of a character at or after a position, as the \<open>while\<close> loops search it.\<close>

fun find_char :: "char \<Rightarrow> string \<Rightarrow> nat \<Rightarrow> nat" where
  "find_char c [] i = i"
| "find_char c (x # xs) i = (if x \<noteq> c then find_char c xs (i + 1) else i)"

text \<open>The address, the port and the flag \<open>is_ipv6\<close>, or none for the result -1.\<close>

definition parse_ip_port :: "string \<Rightarrow> nat \<Rightarrow> (string \<times> u16 \<times> bool) option" where
  "parse_ip_port str out_addr_len =
     (let len = length str in
      if len < 1 \<or> len > 1000 then None
      else
        case (if str ! 0 = CHR ''['' then
                let i = find_char (CHR '']'') (drop 1 str) 1 in
                if i \<ge> len then None
                else if i + 1 \<ge> len \<or> str ! (i + 1) \<noteq> CHR '':'' then None
                else Some (True, 1, i - 1, i + 2)
              else
                let i = find_char (CHR '':'') str 0 in
                if i \<ge> len then None else Some (False, 0, i, i + 1)) of
          None \<Rightarrow> None
        | Some (is_ipv6, addr_start, addr_len, port_start) \<Rightarrow>
            let port_len = len - port_start in
            if addr_len \<ge> out_addr_len then None
            else if port_len \<ge> 6 then None
            else
              let port_str = take port_len (drop port_start str);
                  (conv_res, err) = strtol10 port_str in
              if port_str = [] \<or> err \<noteq> [] then None
              else if conv_res < 0 \<or> conv_res > 65535 then None
              else Some (take addr_len (drop addr_start str), of_int conv_res, is_ipv6))"

text \<open>The first address that \<open>getaddrinfo\<close> finds for a name in the asked family.\<close>

datatype resolved = Res_v4 ip4 | Res_v6 bytes | Res_other

definition parse_addr :: "(bool \<Rightarrow> string \<Rightarrow> resolved option) \<Rightarrow> string \<Rightarrow> slp_addr_in option" where
  "parse_addr getaddrinfo str =
     (case parse_ip_port str 128 of
        None \<Rightarrow> None
      | Some (addr_str, port, is_ipv6) \<Rightarrow>
          (case getaddrinfo is_ipv6 addr_str of
             None \<Rightarrow> None
           | Some (Res_v4 ip) \<Rightarrow> Some (Addr_v4 \<lparr>sin_addr = ip, sin_port = htons port\<rparr>)
           | Some (Res_v6 ip) \<Rightarrow> Some (Addr_v6 ip (htons port))
           | Some Res_other \<Rightarrow> None))"

section \<open>Printed numbers are read back\<close>

text \<open>The decimal digits of a number, as \<open>printf\<close> writes them.\<close>

fun dec :: "nat \<Rightarrow> string" where
  "dec n = (if n < 10 then [char_of (48 + n)] else dec (n div 10) @ [char_of (48 + n mod 10)])"

declare dec.simps [simp del]

lemma of_char_digit: "d < 10 \<Longrightarrow> (of_char (char_of (48 + d) :: char) :: nat) = 48 + d"
  by (simp add: of_char_of)

lemma digits_val_snoc: "digits_val (ds @ [c]) = 10 * digits_val ds + (of_char c - 48)"
  by (simp add: digits_val_def)

lemma dec_digits: "(\<forall>c \<in> set (dec n). is_digit c) \<and> dec n \<noteq> [] \<and> digits_val (dec n) = int n"
proof (induction n rule: dec.induct)
  case (1 n)
  have int_digit: "(of_char (char_of (48 + d) :: char) :: int) = 48 + int d" if "d < 10" for d :: nat
    using of_char_digit [OF that] by (metis of_nat_add of_nat_numeral of_nat_of_char)
  show ?case
  proof (cases "n < 10")
    case True
    then show ?thesis
      by (simp add: dec.simps [of n] is_digit_def of_char_digit digits_val_def int_digit)
  next
    case False
    have m: "n mod 10 < 10" "n mod 10 \<le> 9" by simp_all
    have "10 * (n div 10) + n mod 10 = n" by simp
    then have "10 * int (n div 10) + int (n mod 10) = int n"
      by (metis of_nat_add of_nat_mult of_nat_numeral)
    with 1 [OF False] False m show ?thesis
      by (simp add: dec.simps [of n] is_digit_def of_char_digit digits_val_snoc int_digit)
  qed
qed

lemma is_digit_chars: "is_digit c \<Longrightarrow> \<not> is_space c \<and> c \<noteq> CHR ''-'' \<and> c \<noteq> CHR ''+'' \<and> c \<noteq> CHR ''.'' \<and> c \<noteq> CHR '':''"
  by (auto simp: is_digit_def is_space_def)

lemma scan_int_dec:
  assumes "\<And>c r'. rest = c # r' \<Longrightarrow> \<not> is_digit c"
  shows "scan_int (dec n @ rest) = Some (int n, rest)"
proof -
  note d = dec_digits [of n]
  obtain c ds where cd: "dec n = c # ds" using d by (cases "dec n") auto
  then have c: "\<not> is_space c" "c \<noteq> CHR ''-''" "c \<noteq> CHR ''+''" using d is_digit_chars [of c] by auto
  have stop: "takeWhile is_digit rest = []" "dropWhile is_digit rest = rest"
    using assms by (cases rest; simp)+
  have "takeWhile is_digit (dec n @ rest) = dec n" "dropWhile is_digit (dec n @ rest) = rest"
    using d stop by (simp_all add: takeWhile_append2 dropWhile_append2)
  then show ?thesis using c d cd by (simp add: scan_int_def Let_def)
qed

lemma strtol10_dec: "int n < 2 ^ 63 \<Longrightarrow> strtol10 (dec n) = (int n, [])"
  using scan_int_dec [of "[]" n] by (simp add: strtol10_def)


definition dotted :: "nat \<Rightarrow> nat \<Rightarrow> nat \<Rightarrow> nat \<Rightarrow> string" where
  "dotted a b c d = dec a @ ''.'' @ dec b @ ''.'' @ dec c @ ''.'' @ dec d"

text \<open>An IPv4 address in dotted decimal notation is read as its four bytes, with no fault.\<close>

theorem str2ip_dotted:
  assumes "a < 256" and "b < 256" and "c < 256" and "d < 256"
  shows "str2ip (dotted a b c d) = Inr (IP4 (of_nat a) (of_nat b) (of_nat c) (of_nat d))"
proof -
  have dot: "scan_int (dec n @ CHR ''.'' # r) = Some (int n, CHR ''.'' # r)" for n r
    by (rule scan_int_dec) (auto simp: is_digit_def)
  have last: "scan_int (dec d) = Some (int d, [])" using scan_int_dec [of "[]" d] by simp
  have "max (- (2 ^ 63)) (min (2 ^ 63 - 1) (int n)) = int n" if "n < 256" for n
    using that by simp
  moreover have "(4 :: nat) = Suc (Suc (Suc (Suc 0)))" by simp
  ultimately show ?thesis using assms by (simp only: str2ip_def dotted_def) (simp add: dot last del: power_numeral)
qed

theorem str2ip_dotted_witness: "str2ip (dotted 10 13 37 1) = Inr (IP4 10 13 37 1)"
  using str2ip_dotted [of 10 13 37 1] by simp

section \<open>What the splitting of host and port accepts\<close>

lemma find_char_eq: "find_char c xs i = i + length (takeWhile (\<lambda>x. x \<noteq> c) xs)"
  by (induction xs arbitrary: i) auto

lemma takeWhile_less:
  "length (takeWhile (\<lambda>x. x \<noteq> c) xs) < length xs \<Longrightarrow>
     xs = takeWhile (\<lambda>x. x \<noteq> c) xs @ c # drop (Suc (length (takeWhile (\<lambda>x. x \<noteq> c) xs))) xs"
  by (induction xs) auto

text \<open>The port: at most five characters that \<open>strtol\<close> reads to the end.\<close>

definition port_text :: "string \<Rightarrow> u16 \<Rightarrow> bool" where
  "port_text t port \<longleftrightarrow> t \<noteq> [] \<and> length t < 6 \<and>
     (\<exists>v. strtol10 t = (v, []) \<and> 0 \<le> v \<and> v \<le> 65535 \<and> port = of_int v)"

definition addr_text :: "string \<Rightarrow> string \<Rightarrow> bool \<Rightarrow> string \<Rightarrow> bool" where
  "addr_text str addr is_ipv6 t \<longleftrightarrow>
     (if is_ipv6 then str = CHR ''['' # addr @ CHR '']'' # CHR '':'' # t \<and> CHR '']'' \<notin> set addr
      else str = addr @ CHR '':'' # t \<and> CHR '':'' \<notin> set addr \<and> str ! 0 \<noteq> CHR ''['')"

lemma takeWhile_lt: "c \<in> set xs \<Longrightarrow> length (takeWhile (\<lambda>x. x \<noteq> c) xs) < length xs"
  by (induction xs) auto

lemma find_char_none: "c \<notin> set xs \<Longrightarrow> find_char c xs i = i + length xs"
  by (induction xs arbitrary: i) auto

lemma parse_v4:
  assumes "str \<noteq> []" and "str ! 0 \<noteq> CHR ''[''"
  shows "parse_ip_port str n = Some (addr, port, v6) \<longleftrightarrow>
    length str \<le> 1000 \<and> length addr < n \<and> \<not> v6 \<and> (\<exists>t. addr_text str addr False t \<and> port_text t port)"
proof (cases "length str \<le> 1000 \<and> CHR '':'' \<in> set str")
  case False
  then have "find_char (CHR '':'') str 0 \<ge> length str" if "length str \<le> 1000"
    using that False by (simp add: find_char_none)
  moreover have "\<not> addr_text str addr False t" if "length str \<le> 1000" for t
    using that False by (auto simp: addr_text_def)
  ultimately show ?thesis using assms by (auto simp: parse_ip_port_def Let_def not_le)
next
  case True
  define h where "h = takeWhile (\<lambda>x. x \<noteq> CHR '':'') str"
  define t where "t = drop (Suc (length h)) str"
  have "length h < length str"
    using True takeWhile_lt by (auto simp: h_def)
  then have str: "str = h @ CHR '':'' # t" using takeWhile_less [of "CHR '':''" str] by (simp add: h_def t_def)
  have h: "CHR '':'' \<notin> set h" by (auto simp: h_def dest: set_takeWhileD)
  have split: "addr_text str addr False t' \<longleftrightarrow> addr = h \<and> t' = t" for t'
  proof
    assume "addr_text str addr False t'"
    then have a: "str = addr @ CHR '':'' # t'" "CHR '':'' \<notin> set addr" by (auto simp: addr_text_def)
    then have "addr = h" using takeWhile_ne [OF a(2), of t'] by (simp add: h_def)
    then show "addr = h \<and> t' = t" using a(1) str by simp
  qed (use str h assms(2) in \<open>auto simp: addr_text_def\<close>)
  have i: "find_char (CHR '':'') str 0 = length h" by (simp add: find_char_eq h_def)
  have parts: "take (length h) str = h" "drop (length h + 1) str = t" "length str - (length h + 1) = length t"
    "length h < length str"
    by (simp_all add: str)
  have "parse_ip_port str n = Some (addr, port, v6) \<longleftrightarrow>
      length h < n \<and> addr = h \<and> \<not> v6 \<and> port_text t port"
    using True assms parts
    by (auto simp: parse_ip_port_def Let_def i port_text_def split: prod.splits)
  then show ?thesis using split True by auto
qed


lemma parse_v6:
  assumes "str = CHR ''['' # r"
  shows "parse_ip_port str n = Some (addr, port, v6) \<longleftrightarrow>
    length str \<le> 1000 \<and> length addr < n \<and> v6 \<and> (\<exists>t. addr_text str addr True t \<and> port_text t port)"
proof (cases "length str \<le> 1000 \<and> CHR '']'' \<in> set r")
  case False
  then have "find_char (CHR '']'') r 1 \<ge> length str" if "length str \<le> 1000"
    using that False assms by (simp add: find_char_none)
  moreover have "\<not> addr_text str addr True t" if "length str \<le> 1000" for t
    using that False assms by (auto simp: addr_text_def)
  ultimately show ?thesis using assms by (auto simp: parse_ip_port_def Let_def not_le)
next
  case True
  define h where "h = takeWhile (\<lambda>x. x \<noteq> CHR '']'') r"
  define q where "q = drop (Suc (length h)) r"
  have "length h < length r"
    using True takeWhile_lt by (auto simp: h_def)
  then have r: "r = h @ CHR '']'' # q" using takeWhile_less [of "CHR '']''" r] by (simp add: h_def q_def)
  have h: "CHR '']'' \<notin> set h" by (auto simp: h_def dest: set_takeWhileD)
  have split: "addr_text str addr True t' \<longleftrightarrow> addr = h \<and> q = CHR '':'' # t'" for t'
  proof
    assume "addr_text str addr True t'"
    then have a: "r = addr @ CHR '']'' # CHR '':'' # t'" "CHR '']'' \<notin> set addr"
      using assms by (auto simp: addr_text_def)
    then have "addr = h" using takeWhile_ne [OF a(2), of "CHR '':'' # t'"] by (simp add: h_def)
    then show "addr = h \<and> q = CHR '':'' # t'" using a(1) r by simp
  qed (use assms r h in \<open>auto simp: addr_text_def\<close>)
  have i: "find_char (CHR '']'') r 1 = Suc (length h)" by (simp add: find_char_eq h_def)
  show ?thesis
  proof (cases q)
    case Nil
    have i': "find_char (CHR '']'') (h @ [CHR '']'']) (Suc 0) = Suc (length h)" using i r Nil by simp
    show ?thesis using True assms split Nil by (simp add: parse_ip_port_def Let_def r i')
  next
    case (Cons c t)
    have "parse_ip_port str n = Some (addr, port, v6) \<longleftrightarrow>
        length h < n \<and> addr = h \<and> v6 \<and> c = CHR '':'' \<and> port_text t port"
    proof -
      have str: "str = CHR ''['' # h @ CHR '']'' # c # t" using assms r Cons by simp
      have i': "find_char (CHR '']'') (h @ CHR '']'' # c' # t) (Suc 0) = Suc (length h)" for c'
        using takeWhile_ne [OF h, of "c' # t"] by (simp add: find_char_eq)
      have "length str \<le> 1000" using True by simp
      then show ?thesis
        unfolding parse_ip_port_def Let_def str
        by (cases "c = CHR '':''") (auto simp: i' nth_append port_text_def split: prod.splits)
    qed
    then show ?thesis using split True Cons by auto
  qed
qed

lemma parse_split_iff:
  "parse_ip_port str n = Some (addr, port, v6) \<longleftrightarrow>
     length str \<le> 1000 \<and> length addr < n \<and> (\<exists>t. addr_text str addr v6 t \<and> port_text t port)"
proof (cases str)
  case Nil
  then show ?thesis by (auto simp: parse_ip_port_def addr_text_def)
next
  case (Cons c r)
  show ?thesis
  proof (cases "c = CHR ''[''")
    case True
    then show ?thesis using parse_v6 [of str r n addr port v6] Cons by (auto simp: addr_text_def)
  next
    case False
    then show ?thesis using parse_v4 [of str n addr port v6] Cons by (auto simp: addr_text_def)
  qed
qed

text \<open>C24: Which server addresses are accepted. \<open>parse_ip_port\<close> returns an address and a port exactly
  when the text, of at most 1000 characters, is the address, without colon and shorter than the
  output buffer, then a colon and the port, or the address in brackets, then a colon and the port;
  the port is one to five characters that \<open>strtol\<close> reads in full as a number from 0 to 65535.\<close>

theorem parse_ip_port_accepts:
  "(\<exists>addr port v6. parse_ip_port str n = Some (addr, port, v6)) \<longleftrightarrow>
     length str \<le> 1000 \<and> (\<exists>addr port v6 t. length addr < n \<and> addr_text str addr v6 t \<and> port_text t port)"
  unfolding parse_split_iff by blast

lemma port_text_dec: "p < 65536 \<Longrightarrow> port_text (dec p) (of_nat p)"
proof -
  assume p: "p < 65536"
  have "length (dec n) < 6" if "n < 65536" for n
  proof -
    have *: "length (dec m) \<le> Suc k" if "m < 10 ^ Suc k" for m k
      using that
    proof (induction k arbitrary: m)
      case 0
      then show ?case by (simp add: dec.simps [of m])
    next
      case (Suc k)
      then have "m div 10 < 10 ^ Suc k" by (simp add: div_less_iff_less_mult)
      from Suc.IH [OF this] show ?case by (simp add: dec.simps [of m])
    qed
    from * [of n 4] that show ?thesis by simp
  qed
  then show ?thesis using p dec_digits [of p] strtol10_dec [of p] by (auto simp: port_text_def)
qed

text \<open>A server address written as host, colon and decimal port, or with the host in brackets, is
  resolved by the host's name in the family the brackets choose, and the result has the port in
  network byte order.\<close>

theorem parse_addr_host_port:
  assumes "port < 65536" and "length host < 128" and "CHR '':'' \<notin> set host" and "CHR '']'' \<notin> set host"
    and "CHR ''['' \<notin> set host"
    and "getaddrinfo False host = Some (Res_v4 ip)" and "getaddrinfo True host = Some (Res_v6 ip6)"
  shows "parse_addr getaddrinfo (host @ '':'' @ dec port) = Some (Addr_v4 \<lparr>sin_addr = ip, sin_port = htons (of_nat port)\<rparr>) \<and>
    parse_addr getaddrinfo (''['' @ host @ '']:'' @ dec port) = Some (Addr_v6 ip6 (htons (of_nat port)))"
proof -
  note t = port_text_dec [OF assms(1)]
  then have len: "length (dec port) < 6" by (simp add: port_text_def)
  have "addr_text (host @ '':'' @ dec port) host False (dec port)"
    using assms(3,5) by (cases host) (auto simp: addr_text_def)
  then have v4: "parse_ip_port (host @ '':'' @ dec port) 128 = Some (host, of_nat port, False)"
    using t len assms(2) unfolding parse_split_iff by auto
  have "addr_text (''['' @ host @ '']:'' @ dec port) host True (dec port)"
    using assms(4) by (simp add: addr_text_def)
  then have v6: "parse_ip_port (''['' @ host @ '']:'' @ dec port) 128 = Some (host, of_nat port, True)"
    using t len assms(2) unfolding parse_split_iff by auto
  show ?thesis using v4 v6 assms(6,7) by (simp add: parse_addr_def)
qed

theorem parse_addr_host_port_witness:
  "parse_addr (\<lambda>v6 _. Some (if v6 then Res_v6 [] else Res_v4 (IP4 127 0 0 1))) (''localhost'' @ '':'' @ dec 11451) =
     Some (Addr_v4 \<lparr>sin_addr = IP4 127 0 0 1, sin_port = htons (of_nat 11451)\<rparr>)"
  using parse_addr_host_port [of 11451 "''localhost''" "\<lambda>v6 _. Some (if v6 then Res_v6 [] else Res_v4 (IP4 127 0 0 1))"
      "IP4 127 0 0 1" "[]"] by simp

section \<open>Names of devices on Windows\<close>

text \<open>\<open>compare_guid\<close>: a text ends with a character 0, and the last loop does not look for it.\<close>

definition guid_part :: "string \<Rightarrow> string option" where
  "guid_part name = (case dropWhile (\<lambda>c. c \<noteq> CHR ''{'') name of [] \<Rightarrow> None | _ # r \<Rightarrow> Some (r @ [CHR 0x00]))"

fun guid_loop :: "string \<Rightarrow> string \<Rightarrow> int res" where
  "guid_loop (p # ps) (i # rest) =
     (if p = CHR ''}'' \<and> i = CHR ''}'' then Inr 0
      else if p \<noteq> i then Inr (of_char i - of_char p)
      else guid_loop ps rest)"
| "guid_loop _ _ = Inl Out_of_bounds"

definition compare_guid :: "string \<Rightarrow> string \<Rightarrow> int res" where
  "compare_guid wszPcapName wszIfName =
     (case guid_part wszPcapName of
        None \<Rightarrow> Inr (-1)
      | Some pc \<Rightarrow>
          (case guid_part wszIfName of
             None \<Rightarrow> Inr 1
           | Some ic \<Rightarrow> guid_loop pc ic))"

lemma guid_part_first: "CHR ''{'' \<notin> set a \<Longrightarrow> guid_part (a @ CHR ''{'' # r) = Some (r @ [CHR 0x00])"
  by (induction a) (auto simp: guid_part_def)

lemma of_char_brace: "(of_char x :: int) = 125 \<longleftrightarrow> x = CHR ''}''" "125 = (of_char x :: int) \<longleftrightarrow> x = CHR ''}''"
proof -
  have "(of_char (CHR ''}'') :: int) = 125" by simp
  then show "(of_char x :: int) = 125 \<longleftrightarrow> x = CHR ''}''" "125 = (of_char x :: int) \<longleftrightarrow> x = CHR ''}''"
    by (metis of_char_eq_iff)+
qed

lemma guid_loop_zero:
  "CHR ''}'' \<notin> set g \<Longrightarrow> CHR ''}'' \<notin> set h \<Longrightarrow> \<exists>n. guid_loop (g @ CHR ''}'' # r) (h @ CHR ''}'' # q) = Inr n \<and> (n = 0 \<longleftrightarrow> g = h)"
proof (induction g arbitrary: h)
  case Nil
  then show ?case by (cases h) (auto simp: of_char_brace)
next
  case (Cons x g)
  then show ?case by (cases h) (auto simp: of_char_brace)
qed

text \<open>Two names with a GUID in braces compare equal exactly if the GUIDs are the same. Two names with the same open brace and text
  but no closing brace are read behind their ends.\<close>

theorem compare_guid_equal:
  assumes "CHR ''{'' \<notin> set a" and "CHR ''{'' \<notin> set b" and "CHR ''}'' \<notin> set g" and "CHR ''}'' \<notin> set h"
  shows "\<exists>n. compare_guid (a @ ''{'' @ g @ ''}'' @ r) (b @ ''{'' @ h @ ''}'' @ q) = Inr n \<and> (n = 0 \<longleftrightarrow> g = h)"
  using guid_loop_zero [OF assms(3,4), of "r @ [CHR 0x00]" "q @ [CHR 0x00]"]
    guid_part_first [OF assms(1), of "g @ CHR ''}'' # r"] guid_part_first [OF assms(2), of "h @ CHR ''}'' # q"]
  by (simp add: compare_guid_def)

lemma compare_guid_unterminated:
  assumes "CHR ''{'' \<notin> set a" and "CHR ''}'' \<notin> set g"
  shows "compare_guid (a @ ''{'' @ g) (a @ ''{'' @ g) = Inl Out_of_bounds"
proof -
  have "CHR ''}'' \<notin> set t \<Longrightarrow> guid_loop t t = Inl Out_of_bounds" for t by (induction t) auto
  then show ?thesis using assms guid_part_first [OF assms(1), of g] by (simp add: compare_guid_def)
qed

end
