(* ===== verification/Cli.thy ===== *)
theory Cli
  imports Addr
begin

text \<open>
  The command line of \<open>main.c\<close>: the options, the loop over the arguments and the checks after it,
  and the setters that the remote control uses on the same structure. A pointer to a string is a
  string or none.
\<close>

section \<open>Options\<close>

record cli_options =
  opt_help :: int
  opt_version :: int
  opt_broadcast :: bool
  opt_pmtu :: int
  opt_fake_internet :: bool
  opt_list_if :: bool
  opt_netif_ipaddr :: "string option"
  opt_netif :: "string option"
  opt_netif_netmask :: "string option"
  opt_relay_server_addr :: "string option"
  opt_relay_username :: "string option"
  opt_relay_password :: "string option"
  opt_relay_password_file :: "string option"
  opt_socks5_server_addr :: "string option"
  opt_socks5_username :: "string option"
  opt_socks5_password :: "string option"
  opt_socks5_password_file :: "string option"
  opt_rpc :: "string option"
  opt_rpc_token :: "string option"
  opt_rpc_protocol :: "string option"

definition default_options :: cli_options where
  "default_options =
     \<lparr>opt_help = 0, opt_version = 0, opt_broadcast = False, opt_pmtu = 0, opt_fake_internet = False,
      opt_list_if = False, opt_netif_ipaddr = None, opt_netif = None, opt_netif_netmask = None,
      opt_relay_server_addr = None, opt_relay_username = None, opt_relay_password = None,
      opt_relay_password_file = None, opt_socks5_server_addr = None, opt_socks5_username = None,
      opt_socks5_password = None, opt_socks5_password_file = None, opt_rpc = None,
      opt_rpc_token = None, opt_rpc_protocol = None\<rparr>"

text \<open>\<open>atoi\<close> is \<open>strtol\<close> cut to an \<open>int\<close>.\<close>

definition atoi :: "string \<Rightarrow> int" where
  "atoi s = sint (of_int (fst (strtol10 s)) :: u32)"

section \<open>The loop over the arguments\<close>

text \<open>What an argument does: set a flag, take the next argument as its value, or nothing.\<close>

datatype opt_kind = Flag "cli_options \<Rightarrow> cli_options" | Value "string \<Rightarrow> cli_options \<Rightarrow> cli_options" | Unknown

definition opt_kind_of :: "string \<Rightarrow> opt_kind" where
  "opt_kind_of arg =
     (if arg = ''--help'' then Flag (opt_help_update (\<lambda>_. 1))
      else if arg = ''--version'' then Flag (opt_version_update (\<lambda>_. 1))
      else if arg = ''--netif'' then Value (\<lambda>v. opt_netif_update (\<lambda>_. Some v))
      else if arg = ''--relay-server-addr'' then Value (\<lambda>v. opt_relay_server_addr_update (\<lambda>_. Some v))
      else if arg = ''--username'' then Value (\<lambda>v. opt_relay_username_update (\<lambda>_. Some v))
      else if arg = ''--password'' then Value (\<lambda>v. opt_relay_password_update (\<lambda>_. Some v))
      else if arg = ''--password-file'' then Value (\<lambda>v. opt_relay_password_file_update (\<lambda>_. Some v))
      else if arg = ''--socks5-server-addr'' then Value (\<lambda>v. opt_socks5_server_addr_update (\<lambda>_. Some v))
      else if arg = ''--list-if'' then Flag (opt_list_if_update (\<lambda>_. True))
      else if arg = ''--broadcast'' then
        Flag (\<lambda>op. op\<lparr>opt_broadcast := True, opt_relay_server_addr := Some ''255.255.255.255:11451''\<rparr>)
      else if arg = ''--pmtu'' then Value (\<lambda>v. opt_pmtu_update (\<lambda>_. atoi v))
      else if arg = ''--fake-internet'' then Flag (opt_fake_internet_update (\<lambda>_. True))
      else if arg = ''--set-ionbf'' then Flag (\<lambda>op. op)
      else if arg = ''--rpc'' then Value (\<lambda>v. opt_rpc_update (\<lambda>_. Some v))
      else if arg = ''--rpc-token'' then Value (\<lambda>v. opt_rpc_token_update (\<lambda>_. Some v))
      else if arg = ''--rpc-protocol'' then Value (\<lambda>v. opt_rpc_protocol_update (\<lambda>_. Some v))
      else Unknown)"

text \<open>The result and the options as the loop leaves them; -1 when a value is missing.\<close>

fun parse_loop :: "string list \<Rightarrow> cli_options \<Rightarrow> int \<times> cli_options" where
  "parse_loop [] op = (0, op)"
| "parse_loop (arg # rest) op =
     (case opt_kind_of arg of
        Flag f \<Rightarrow> parse_loop rest (f op)
      | Value f \<Rightarrow> (case rest of [] \<Rightarrow> (-1, op) | v # rest' \<Rightarrow> parse_loop rest' (f v op))
      | Unknown \<Rightarrow> parse_loop rest op)"

text \<open>The user name of a server needs a password or a password file, and not both.\<close>

definition credentials_ok :: "string option \<Rightarrow> string option \<Rightarrow> string option \<Rightarrow> bool" where
  "credentials_ok username password password_file \<longleftrightarrow>
     (username \<noteq> None \<longrightarrow>
        \<not> (password = None \<and> password_file = None) \<and> \<not> (password \<noteq> None \<and> password_file \<noteq> None))"

definition parse_arguments :: "string list \<Rightarrow> cli_options \<Rightarrow> int \<times> cli_options" where
  "parse_arguments argv op0 =
     (if argv = [] then (-1, op0)
      else
        let (ret, op) = parse_loop (tl argv) default_options in
        if ret \<noteq> 0 then (ret, op)
        else if opt_help op \<noteq> 0 \<or> opt_version op \<noteq> 0 \<or> opt_list_if op \<or> opt_rpc op \<noteq> None then (0, op)
        else
          let op1 = (if opt_relay_server_addr op = None \<and> opt_socks5_server_addr op \<noteq> None
                     then op\<lparr>opt_relay_server_addr := Some ''127.0.0.1:11451''\<rparr> else op) in
          if \<not> credentials_ok (opt_socks5_username op1) (opt_socks5_password op1) (opt_socks5_password_file op1)
          then (-1, op1)
          else if \<not> credentials_ok (opt_relay_username op1) (opt_relay_password op1) (opt_relay_password_file op1)
          then (-1, op1)
          else (0, op1))"

text \<open>The setters that \<open>OPTIONS_DEF\<close> generates, for the remote control. The old value is freed,
  which is defined for a string of \<open>strdup\<close> or none, and not for an element of \<open>argv\<close> or a
  literal; the flag says whether the old value is one of the former.\<close>

definition options_set :: "bool \<Rightarrow> string option \<Rightarrow> string \<Rightarrow> string option res" where
  "options_set heap old str =
     (if old \<noteq> None \<and> \<not> heap then Inl Out_of_bounds
      else Inr (if str \<noteq> [] then Some str else None))"

section \<open>Every argument list is read\<close>

text \<open>The options a list of arguments names, in order, with unknown arguments left out; none when
  the last one lacks its value.\<close>

fun settings :: "string list \<Rightarrow> (string \<times> string option) list option" where
  "settings [] = Some []"
| "settings (arg # rest) =
     (case opt_kind_of arg of
        Flag _ \<Rightarrow> map_option (Cons (arg, None)) (settings rest)
      | Value _ \<Rightarrow> (case rest of [] \<Rightarrow> None | v # rest' \<Rightarrow> map_option (Cons (arg, Some v)) (settings rest'))
      | Unknown \<Rightarrow> settings rest)"

text \<open>The last setting of one of some options, and its value.\<close>

definition last_setting :: "string list \<Rightarrow> (string \<times> string option) list \<Rightarrow> (string \<times> string option) option" where
  "last_setting names ss =
     (let xs = filter (\<lambda>s. fst s \<in> set names) ss in if xs = [] then None else Some (last xs))"

definition last_value :: "string \<Rightarrow> (string \<times> string option) list \<Rightarrow> string option" where
  "last_value name ss = Option.bind (last_setting [name] ss) snd"

definition apply_setting :: "string \<times> string option \<Rightarrow> cli_options \<Rightarrow> cli_options" where
  "apply_setting s op =
     (case opt_kind_of (fst s) of
        Flag f \<Rightarrow> f op
      | Value f \<Rightarrow> (case snd s of Some v \<Rightarrow> f v op | None \<Rightarrow> op)
      | Unknown \<Rightarrow> op)"

lemma apply_setting_kind:
  "opt_kind_of a = Flag f \<Longrightarrow> apply_setting (a, v) op = f op"
  "opt_kind_of a = Value f' \<Longrightarrow> apply_setting (a, Some w) op = f' w op"
  by (simp_all add: apply_setting_def)

lemma parse_loop_settings:
  "case settings args of
     None \<Rightarrow> fst (parse_loop args op) = -1
   | Some ss \<Rightarrow> parse_loop args op = (0, fold apply_setting ss op)"
proof (induction args op rule: parse_loop.induct)
  case (1 op)
  then show ?case by simp
next
  case (2 arg rest op)
  show ?case
  proof (cases "opt_kind_of arg")
    case (Flag f)
    with "2.IH"(1) [OF Flag] show ?thesis
      by (auto simp: apply_setting_kind split: option.splits)
  next
    case (Value f)
    show ?thesis
    proof (cases rest)
      case Nil
      with Value show ?thesis by simp
    next
      case (Cons v rest')
      with Value "2.IH"(2) [OF Value Cons] show ?thesis
        by (auto simp: apply_setting_kind split: option.splits)
    qed
  next
    case Unknown
    with "2.IH"(3) [OF Unknown] show ?thesis by (auto split: option.splits)
  qed
qed

lemma settings_values:
  "settings args = Some ss \<Longrightarrow> (k, v) \<in> set ss \<Longrightarrow> opt_kind_of k = Value f \<Longrightarrow> v \<noteq> None"
proof (induction args arbitrary: ss rule: settings.induct)
  case (2 arg rest)
  then show ?case
    by (auto split: opt_kind.splits list.splits)
qed simp

lemma last_setting_snoc:
  "last_setting names (ss @ [s]) = (if fst s \<in> set names then Some s else last_setting names ss)"
  by (simp add: last_setting_def Let_def)

text \<open>A field that only some options set has the value the last of them gives it.\<close>

lemma fold_last_setting:
  assumes "\<And>s op. s \<in> set ss \<Longrightarrow> fst s \<notin> set names \<Longrightarrow> g (apply_setting s op) = g op"
    and "\<And>s op. s \<in> set ss \<Longrightarrow> fst s \<in> set names \<Longrightarrow> g (apply_setting s op) = h s"
  shows "g (fold apply_setting ss op) = (case last_setting names ss of None \<Rightarrow> g op | Some s \<Rightarrow> h s)"
  using assms
proof (induction ss rule: rev_induct)
  case Nil
  then show ?case by (simp add: last_setting_def)
next
  case (snoc s ss)
  have "g (fold apply_setting ss op) = (case last_setting names ss of None \<Rightarrow> g op | Some s \<Rightarrow> h s)"
    using snoc.prems by (intro snoc.IH) auto
  with snoc.prems show ?case by (simp add: last_setting_snoc)
qed

lemma fold_value_field:
  fixes g :: "cli_options \<Rightarrow> string option"
  assumes ss: "settings args = Some ss"
    and kinds: "\<exists>upd. opt_kind_of name = Value upd \<and> (\<forall>v op. g (upd v op) = Some v)"
    and none: "g default_options = None"
    and other: "\<And>k v op. k \<noteq> name \<Longrightarrow> g (apply_setting (k, v) op) = g op"
  shows "g (fold apply_setting ss default_options) = last_value name ss"
proof -
  obtain upd where kind: "opt_kind_of name = Value upd" and upd: "\<And>v op. g (upd v op) = Some v"
    using kinds by blast
  have "g (fold apply_setting ss default_options) =
      (case last_setting [name] ss of None \<Rightarrow> g default_options | Some s \<Rightarrow> snd s)"
  proof (rule fold_last_setting)
    fix s op assume s: "s \<in> set ss" "fst s \<in> set [name]"
    obtain v where v: "s = (name, v)" using s(2) by (cases s) simp
    then obtain w where "v = Some w" using settings_values [OF ss, of name v] kind s(1) by auto
    then show "g (apply_setting s op) = snd s" using v upd by (simp add: apply_setting_kind(2) [OF kind])
  next
    fix s op assume "s \<in> set ss" "fst s \<notin> set [name]"
    then show "g (apply_setting s op) = g op" using other [of "fst s" "snd s"] by simp
  qed
  with none show ?thesis
    by (auto simp: last_value_def split: option.splits)
qed

lemma apply_setting_other:
  "k \<noteq> ''--netif'' \<Longrightarrow> opt_netif (apply_setting (k, v) op) = opt_netif op"
  "k \<noteq> ''--username'' \<Longrightarrow> opt_relay_username (apply_setting (k, v) op) = opt_relay_username op"
  "k \<noteq> ''--password'' \<Longrightarrow> opt_relay_password (apply_setting (k, v) op) = opt_relay_password op"
  "k \<noteq> ''--password-file'' \<Longrightarrow> opt_relay_password_file (apply_setting (k, v) op) = opt_relay_password_file op"
  "k \<noteq> ''--socks5-server-addr'' \<Longrightarrow> opt_socks5_server_addr (apply_setting (k, v) op) = opt_socks5_server_addr op"
  "k \<noteq> ''--rpc'' \<Longrightarrow> opt_rpc (apply_setting (k, v) op) = opt_rpc op"
  "k \<noteq> ''--rpc-token'' \<Longrightarrow> opt_rpc_token (apply_setting (k, v) op) = opt_rpc_token op"
  "k \<noteq> ''--rpc-protocol'' \<Longrightarrow> opt_rpc_protocol (apply_setting (k, v) op) = opt_rpc_protocol op"
  "k \<noteq> ''--pmtu'' \<Longrightarrow> opt_pmtu (apply_setting (k, v) op) = opt_pmtu op"
  "k \<noteq> ''--broadcast'' \<Longrightarrow> opt_broadcast (apply_setting (k, v) op) = opt_broadcast op"
  "k \<noteq> ''--fake-internet'' \<Longrightarrow> opt_fake_internet (apply_setting (k, v) op) = opt_fake_internet op"
  "k \<noteq> ''--relay-server-addr'' \<Longrightarrow> k \<noteq> ''--broadcast'' \<Longrightarrow>
     opt_relay_server_addr (apply_setting (k, v) op) = opt_relay_server_addr op"
  "opt_socks5_username (apply_setting (k, v) op) = opt_socks5_username op"
  "opt_socks5_password (apply_setting (k, v) op) = opt_socks5_password op"
  "opt_socks5_password_file (apply_setting (k, v) op) = opt_socks5_password_file op"
  by (simp_all add: apply_setting_def opt_kind_of_def split: option.split)

text \<open>What the options mean. The fields after a successful loop, by the last setting of each.\<close>

lemma fold_settings_fields:
  assumes ss: "settings args = Some ss"
  defines "op \<equiv> fold apply_setting ss default_options"
  shows "opt_netif op = last_value ''--netif'' ss"
    and "opt_relay_username op = last_value ''--username'' ss"
    and "opt_relay_password op = last_value ''--password'' ss"
    and "opt_relay_password_file op = last_value ''--password-file'' ss"
    and "opt_socks5_server_addr op = last_value ''--socks5-server-addr'' ss"
    and "opt_rpc op = last_value ''--rpc'' ss"
    and "opt_rpc_token op = last_value ''--rpc-token'' ss"
    and "opt_rpc_protocol op = last_value ''--rpc-protocol'' ss"
  unfolding op_def
  by - (rule fold_value_field [OF ss]; simp add: opt_kind_of_def default_options_def apply_setting_other)+

lemma fold_settings_pmtu:
  assumes ss: "settings args = Some ss"
  shows "opt_pmtu (fold apply_setting ss default_options) =
    (case last_value ''--pmtu'' ss of None \<Rightarrow> 0 | Some v \<Rightarrow> atoi v)"
proof -
  define h where "h = (\<lambda>s :: string \<times> string option. case snd s of None \<Rightarrow> 0 | Some v \<Rightarrow> atoi v)"
  have kind: "opt_kind_of ''--pmtu'' = Value (\<lambda>v. opt_pmtu_update (\<lambda>_. atoi v))"
    by (simp add: opt_kind_of_def)
  have "opt_pmtu (fold apply_setting ss default_options) =
      (case last_setting [''--pmtu''] ss of None \<Rightarrow> opt_pmtu default_options | Some s \<Rightarrow> h s)"
  proof (rule fold_last_setting)
    fix s op assume s: "s \<in> set ss" "fst s \<in> set [''--pmtu'']"
    obtain v where v: "s = (''--pmtu'', v)" using s(2) by (cases s) simp
    then obtain w where "v = Some w" using settings_values [OF ss, of "''--pmtu''" v] kind s(1) by auto
    then show "opt_pmtu (apply_setting s op) = h s" using v by (simp add: apply_setting_kind(2) [OF kind] h_def)
  next
    fix s op assume "s \<in> set ss" "fst s \<notin> set [''--pmtu'']"
    then show "opt_pmtu (apply_setting s op) = opt_pmtu op"
      using apply_setting_other(9) [of "fst s" "snd s"] by simp
  qed
  then show ?thesis
    by (auto simp: last_value_def h_def default_options_def split: option.splits)
qed

lemma fold_settings_flags:
  defines "op ss \<equiv> fold apply_setting ss default_options"
  shows "opt_broadcast (op ss) \<longleftrightarrow> ''--broadcast'' \<in> fst ` set ss"
    and "opt_fake_internet (op ss) \<longleftrightarrow> ''--fake-internet'' \<in> fst ` set ss"
proof -
  have b: "opt_broadcast (apply_setting s op) = (fst s = ''--broadcast'' \<or> opt_broadcast op)" for s op
    using apply_setting_other(10) [of "fst s" "snd s" op]
    by (cases "fst s = ''--broadcast''") (simp_all add: apply_setting_def opt_kind_of_def)
  have f: "opt_fake_internet (apply_setting s op) = (fst s = ''--fake-internet'' \<or> opt_fake_internet op)" for s op
    using apply_setting_other(11) [of "fst s" "snd s" op]
    by (cases "fst s = ''--fake-internet''") (simp_all add: apply_setting_def opt_kind_of_def)
  show "opt_broadcast (op ss) \<longleftrightarrow> ''--broadcast'' \<in> fst ` set ss"
    "opt_fake_internet (op ss) \<longleftrightarrow> ''--fake-internet'' \<in> fst ` set ss"
    unfolding op_def
    by (induction ss rule: rev_induct) (auto simp: b f default_options_def)
qed

lemma fold_settings_relay:
  assumes ss: "settings args = Some ss"
  shows "opt_relay_server_addr (fold apply_setting ss default_options) =
    (case last_setting [''--relay-server-addr'', ''--broadcast''] ss of
       None \<Rightarrow> None
     | Some (k, v) \<Rightarrow> if k = ''--broadcast'' then Some ''255.255.255.255:11451'' else v)"
proof -
  let ?h = "\<lambda>(k, v). if k = ''--broadcast'' then Some ''255.255.255.255:11451'' else v"
  let ?names = "[''--relay-server-addr'', ''--broadcast'']"
  have kind: "opt_kind_of ''--relay-server-addr'' = Value (\<lambda>v. opt_relay_server_addr_update (\<lambda>_. Some v))"
    by (simp add: opt_kind_of_def)
  have "opt_relay_server_addr (fold apply_setting ss default_options) =
      (case last_setting ?names ss of None \<Rightarrow> opt_relay_server_addr default_options | Some s \<Rightarrow> ?h s)"
  proof (rule fold_last_setting)
    fix s op assume s: "s \<in> set ss" "fst s \<in> set ?names"
    show "opt_relay_server_addr (apply_setting s op) = ?h s"
    proof (cases "fst s = ''--broadcast''")
      case True
      then show ?thesis by (cases s) (simp add: apply_setting_def opt_kind_of_def)
    next
      case False
      then obtain v where v: "s = (''--relay-server-addr'', v)" using s(2) by (cases s) simp
      then obtain w where "v = Some w" using settings_values [OF ss, of "''--relay-server-addr''" v] kind s(1) by auto
      then show ?thesis using v by (simp add: apply_setting_kind(2) [OF kind])
    qed
  next
    fix s op assume "s \<in> set ss" "fst s \<notin> set ?names"
    then show "opt_relay_server_addr (apply_setting s op) = opt_relay_server_addr op"
      using apply_setting_other(12) [of "fst s" "snd s"] by simp
  qed
  then show ?thesis
    by (auto simp: default_options_def split: option.splits)
qed

lemma last_setting_in: "last_setting names ss = Some s \<Longrightarrow> s \<in> set ss \<and> fst s \<in> set names"
proof (induction ss rule: rev_induct)
  case Nil
  then show ?case by (simp add: last_setting_def)
next
  case (snoc x xs)
  then show ?case by (auto simp: last_setting_snoc split: if_splits)
qed

lemma last_setting_given:
  assumes "settings args = Some ss"
    and "last_setting [''--relay-server-addr'', ''--broadcast''] ss = Some (k, v)" and "k \<noteq> ''--broadcast''"
  shows "v \<noteq> None"
proof -
  have "(k, v) \<in> set ss" "k = ''--relay-server-addr''" using last_setting_in [OF assms(2)] assms(3) by auto
  then show ?thesis
    using settings_values [OF assms(1), of k v "\<lambda>v. opt_relay_server_addr_update (\<lambda>_. Some v)"]
    by (simp add: opt_kind_of_def)
qed

section \<open>Accepted command lines\<close>

definition wants_client :: "cli_options \<Rightarrow> bool" where
  "wants_client op \<longleftrightarrow> opt_help op = 0 \<and> opt_version op = 0 \<and> \<not> opt_list_if op \<and> opt_rpc op = None"

lemma parse_arguments_ok:
  assumes "parse_arguments (prog # args) op0 = (0, op)"
  obtains ss op1 where "settings args = Some ss" and "op1 = fold apply_setting ss default_options"
    and "op = (if wants_client op1 \<and> opt_relay_server_addr op1 = None \<and> opt_socks5_server_addr op1 \<noteq> None
      then op1\<lparr>opt_relay_server_addr := Some ''127.0.0.1:11451''\<rparr> else op1)"
    and "wants_client op1 \<Longrightarrow> credentials_ok (opt_relay_username op1) (opt_relay_password op1) (opt_relay_password_file op1)"
proof (cases "settings args")
  case None
  with parse_loop_settings [of args default_options] assms show ?thesis
    by (auto simp: parse_arguments_def split: prod.splits if_splits)
next
  case (Some ss)
  with parse_loop_settings [of args default_options] assms that [OF Some refl] show ?thesis
    by (auto simp: parse_arguments_def wants_client_def Let_def split: if_splits)
qed


definition example_args :: "string list" where
  "example_args =
     [''--pmtu'', ''1000'', ''--relay-server-addr'', ''relay:11451'', ''--username'', ''player'',
      ''--password'', ''secret'', ''--pmtu'', ''600'']"

definition example_options :: cli_options where
  "example_options = default_options
     \<lparr>opt_pmtu := 600, opt_relay_server_addr := Some ''relay:11451'',
      opt_relay_username := Some ''player'', opt_relay_password := Some ''secret''\<rparr>"

lemma example_atoi: "atoi ''1000'' = 1000" "atoi ''600'' = 600"
  by (simp_all add: atoi_def strtol10_def scan_int_def is_space_def is_digit_def digits_val_def)

lemma example_parsed: "parse_arguments (''lan-play'' # example_args) default_options = (0, example_options)"
  by (simp add: parse_arguments_def example_args_def opt_kind_of_def example_atoi credentials_ok_def
      example_options_def default_options_def)


end
