(* ===== verification/Pcaploop.thy ===== *)
theory Pcaploop
  imports Helper
begin

text \<open>
  The packet sink and source of \<open>pcaploop.cpp\<close>: the set of opened interfaces, the table that
  remembers on which interface a destination address was seen, and the sending of a frame, which
  goes out on the remembered interface or on all of them, each time with the interface's own
  address patched into the frame and taken out again. The calls of libpcap are recorded in a log:
  \<open>pcap_log\<close> holds the device and the bytes of each \<open>pcap_sendpacket\<close>, in order. The return
  value of \<open>pcap_sendpacket\<close> reaches a log message only.
\<close>

section \<open>State\<close>

record uv_pcap_interf =
  if_dev :: nat
  if_mac :: mac6

text \<open>The map's values are pointers into the array of interfaces, here the indices.\<close>

record uv_pcap =
  if_map :: "u64 \<rightharpoonup> nat"
  interfaces :: "uv_pcap_interf list"
  pcap_log :: "(nat \<times> bytes) list"

section \<open>Operations\<close>

text \<open>\<open>memcpy(&r, mac, 6)\<close> into a zeroed \<open>uint64_t\<close>, and back.\<close>

fun mac2int :: "mac6 \<Rightarrow> u64" where
  "mac2int (MAC6 a b c d e f) =
     put_byte 0 a OR put_byte 1 b OR put_byte 2 c OR put_byte 3 d OR put_byte 4 e OR put_byte 5 f"

definition int2mac :: "u64 \<Rightarrow> mac6" where
  "int2mac i =
     MAC6 (byte_of 0 i) (byte_of 1 i) (byte_of 2 i) (byte_of 3 i) (byte_of 4 i) (byte_of 5 i)"

text \<open>The frame handed to libpcap and the buffer as the call leaves it.\<close>

definition uv_pcap_interf_sendpacket ::
  "uv_pcap_interf \<Rightarrow> bytes \<Rightarrow> nat \<Rightarrow> (bytes \<times> bytes) res" where
  "uv_pcap_interf_sendpacket h data len =
     rbind (CPY_MAC data 6) (\<lambda>old.
     rbind (wrn data 6 (mac_bytes (if_mac h))) (\<lambda>d.
     rbind (rdn d 0 len) (\<lambda>frame.
     rbind (wrn d 6 (mac_bytes old)) (\<lambda>d'.
     Inr (frame, d')))))"

fun uv_pcap_send_on :: "uv_pcap_interf list \<Rightarrow> bytes \<Rightarrow> nat \<Rightarrow> (bytes \<times> (nat \<times> bytes) list) res" where
  "uv_pcap_send_on [] data len = Inr (data, [])"
| "uv_pcap_send_on (h # hs) data len =
     rbind (uv_pcap_interf_sendpacket h data len) (\<lambda>(frame, d).
     rbind (uv_pcap_send_on hs d len) (\<lambda>(d', out).
     Inr (d', (if_dev h, frame) # out)))"

definition uv_pcap_sendpacket ::
  "uv_pcap \<Rightarrow> bytes \<Rightarrow> nat \<Rightarrow> (int \<times> bytes \<times> uv_pcap) res" where
  "uv_pcap_sendpacket handle data len =
     rbind (CPY_MAC data 6) (\<lambda>src.
     rbind
       (case if_map handle (mac2int src) of
          Some i \<Rightarrow>
            if i < length (interfaces handle)
            then uv_pcap_send_on [interfaces handle ! i] data len else Inl Out_of_bounds
        | None \<Rightarrow> uv_pcap_send_on (interfaces handle) data len) (\<lambda>(data', out).
     Inr (0, data', handle\<lparr>pcap_log := pcap_log handle @ out\<rparr>)))"

text \<open>\<open>uv_pcap_callback\<close> up to the call of the packet handler: the destination address of the
  received frame is now known to be on the interface.\<close>

definition uv_pcap_callback :: "uv_pcap \<Rightarrow> nat \<Rightarrow> bytes \<Rightarrow> uv_pcap res" where
  "uv_pcap_callback handle h packet =
     rbind (CPY_MAC packet 0) (\<lambda>dst.
     Inr (handle\<lparr>if_map := (if_map handle)(mac2int dst \<mapsto> h)\<rparr>))"

definition uv_pcap_close :: "uv_pcap \<Rightarrow> uv_pcap" where
  "uv_pcap_close handle = handle\<lparr>if_map := Map.empty\<rparr>"

section \<open>Invariant\<close>

definition pcap_inv :: "uv_pcap \<Rightarrow> bool" where
  "pcap_inv p \<longleftrightarrow> (\<forall>k i. if_map p k = Some i \<longrightarrow> i < length (interfaces p))"

lemma pcap_invD: "pcap_inv p \<Longrightarrow> if_map p k = Some i \<Longrightarrow> i < length (interfaces p)"
  by (auto simp: pcap_inv_def)

lemma pcap_inv_callback:
  "pcap_inv p \<Longrightarrow> h < length (interfaces p) \<Longrightarrow> uv_pcap_callback p h packet = Inr p' \<Longrightarrow> pcap_inv p'"
  by (auto simp: pcap_inv_def uv_pcap_callback_def rbind_eq_Inr split: if_splits)

lemma pcap_inv_close [simp]: "pcap_inv (uv_pcap_close p)"
  by (simp add: pcap_inv_def uv_pcap_close_def)

section \<open>Keys\<close>

lemma int2mac_mac2int [simp]: "int2mac (mac2int m) = m"
  by (cases m) (simp add: int2mac_def byte_of_or del: One_nat_def)

lemma mac2int_inject [simp]: "mac2int m = mac2int m' \<longleftrightarrow> m = m'"
  by (metis int2mac_mac2int)

section \<open>Sending\<close>

text \<open>A frame with its source address replaced.\<close>

definition with_src :: "mac6 \<Rightarrow> bytes \<Rightarrow> bytes" where
  "with_src m frame = take 6 frame @ mac_bytes m @ drop 12 frame"

definition frame_src :: "bytes \<Rightarrow> mac6" where
  "frame_src f = MAC6 (f ! 6) (f ! 7) (f ! 8) (f ! 9) (f ! 10) (f ! 11)"

lemma mac_bytes_frame_src: "12 \<le> length f \<Longrightarrow> mac_bytes (frame_src f) = take 6 (drop 6 f)"
  by (rule nth_equalityI) (auto simp: frame_src_def numeral_eq_Suc less_Suc_eq)

lemma CPY_MAC_frame_src [mem_simps]: "12 \<le> length f \<Longrightarrow> CPY_MAC f 6 = Inr (frame_src f)"
  by (simp add: CPY_MAC_eq frame_src_def)

lemma split_frame:
  assumes "12 \<le> length f"
  shows "f = take 6 f @ mac_bytes (frame_src f) @ drop 12 f"
proof -
  have "drop 6 f = take 6 (drop 6 f) @ drop 12 f"
    using append_take_drop_id [of 6 "drop 6 f"] by simp
  then show ?thesis
    using assms append_take_drop_id [of 6 f] by (simp add: mac_bytes_frame_src)
qed

lemma with_src_frame_src [simp]: "12 \<le> length f \<Longrightarrow> with_src (frame_src f) f = f"
  using split_frame [of f] by (simp add: with_src_def)

lemma length_with_src [simp]: "12 \<le> length f \<Longrightarrow> length (with_src m f) = length f"
  by (simp add: with_src_def)

lemma with_src_with_src [simp]: "12 \<le> length f \<Longrightarrow> with_src m (with_src m' f) = with_src m f"
  by (simp add: with_src_def)

lemma wrn_with_src: "12 \<le> length f \<Longrightarrow> wrn f 6 (mac_bytes m) = Inr (with_src m f)"
  by (simp add: wrn_def with_src_def)

text \<open>One interface: it sends the frame under its own address and leaves the buffer as it was.\<close>

lemma interf_sendpacket_eq:
  assumes "12 \<le> length data" and "len \<le> length data"
  shows "uv_pcap_interf_sendpacket h data len = Inr (take len (with_src (if_mac h) data), data)"
  using assms
  by (simp add: uv_pcap_interf_sendpacket_def CPY_MAC_frame_src wrn_with_src rdn_def)

definition emitted :: "uv_pcap_interf list \<Rightarrow> bytes \<Rightarrow> nat \<Rightarrow> (nat \<times> bytes) list" where
  "emitted hs data len = map (\<lambda>h. (if_dev h, take len (with_src (if_mac h) data))) hs"

lemma send_on_eq:
  "12 \<le> length data \<Longrightarrow> len \<le> length data \<Longrightarrow>
     uv_pcap_send_on hs data len = Inr (data, emitted hs data len)"
  by (induction hs) (simp_all add: interf_sendpacket_eq emitted_def)

text \<open>The interfaces a frame goes out on: the one its source address is known to be on, else
  all.\<close>

definition route :: "uv_pcap \<Rightarrow> mac6 \<Rightarrow> uv_pcap_interf list" where
  "route p src =
     (case if_map p (mac2int src) of Some i \<Rightarrow> [interfaces p ! i] | None \<Rightarrow> interfaces p)"

lemma sendpacket_eq:
  assumes "pcap_inv p" and "12 \<le> length data" and "len \<le> length data"
  shows "uv_pcap_sendpacket p data len =
    Inr (0, data, p\<lparr>pcap_log := pcap_log p @ emitted (route p (frame_src data)) data len\<rparr>)"
  using assms
  by (auto simp: uv_pcap_sendpacket_def CPY_MAC_frame_src send_on_eq route_def
      simp del: uv_pcap_send_on.simps
      split: option.splits dest: pcap_invD)

lemma route_log [simp]: "route (p\<lparr>pcap_log := l\<rparr>) m = route p m"
  by (simp add: route_def split: option.split)

lemma pcap_inv_log [simp]: "pcap_inv (p\<lparr>pcap_log := l\<rparr>) = pcap_inv p"
  by (simp add: pcap_inv_def)

end
