(* ===== verification/Pcap_Open.thy ===== *)
theory Pcap_Open
  imports Cli Pcaploop
begin

text \<open>
  Opening the capture devices (\<open>pcaploop.cpp\<close>, \<open>helper.c\<close>) and listing them (\<open>main.c\<close>). What
  libpcap, the kernel and libuv answer for a device is part of the device's record, so that every
  branch of the opening is a function of it. The build is that of Linux: interfaces are polled and
  the hardware address is read with \<open>SIOCGIFHWADDR\<close>.
\<close>

section \<open>Devices\<close>

text \<open>An address that is not of the family \<open>AF_INET\<close> is \<open>None\<close>.\<close>

record pcap_if =
  pif_name :: string
  pif_description :: "string option"
  pif_addresses :: "ip4 option list"

record device = pcap_if +
  dv_create :: bool
  dv_set_timeout :: int
  dv_set_snaplen :: int
  dv_set_promisc :: int
  dv_activate :: int
  dv_datalink :: int
  dv_ioctl :: int
  dv_hwaddr :: mac6
  dv_poll_init :: int
  dv_poll_start :: int

definition PCAP_WARNING :: int where "PCAP_WARNING = 1"
definition DLT_EN10MB :: int where "DLT_EN10MB = 1"
definition IFNAMSIZ :: nat where "IFNAMSIZ = 16"

definition SERVER_IP :: string where "SERVER_IP = ''10.13.37.1''"
definition SUBNET_NET :: string where "SUBNET_NET = ''10.13.0.0''"
definition SUBNET_MASK :: string where "SUBNET_MASK = ''255.255.0.0''"

section \<open>Listing\<close>

fun ip_text :: "ip4 \<Rightarrow> string" where
  "ip_text (IP4 a b c d) = dotted (unat a) (unat b) (unat c) (unat d)"

text \<open>The addresses of a device, each but the first after a comma.\<close>

fun list_addrs :: "bool \<Rightarrow> ip4 option list \<Rightarrow> string" where
  "list_addrs first [] = (if first then [] else '']'')"
| "list_addrs first (None # as) = list_addrs first as"
| "list_addrs first (Some ip # as) =
     (if first then [CHR 0x0A, CHR 0x09] @ ''IP: ['' else '','') @ ip_text ip @ list_addrs False as"

fun list_loop :: "nat \<Rightarrow> 'a pcap_if_scheme list \<Rightarrow> string \<times> nat" where
  "list_loop i [] = ([], i)"
| "list_loop i (d # ds) =
     (let line = dec (i + 1) @ ''. '' @ pif_name d @
            (case pif_description d of
               Some t \<Rightarrow> '' ('' @ t @ '')''
             | None \<Rightarrow> '' (No description available)'') @
            list_addrs True (pif_addresses d) @ [CHR 0x0A];
          (out, n) = list_loop (i + 1) ds
      in (line @ out, n))"

text \<open>What \<open>list_interfaces\<close> prints, and the number of devices it returns.\<close>

definition list_interfaces :: "'a pcap_if_scheme list \<Rightarrow> string \<times> nat" where
  "list_interfaces alldevs = list_loop 0 alldevs"

section \<open>The capture filter\<close>

text \<open>The shifts until a mask is empty.\<close>

function mask_loop :: "u32 \<Rightarrow> nat \<Rightarrow> nat" where
  "mask_loop m num = (if m \<noteq> 0 \<and> num < 32 then mask_loop (push_bit 1 m) (num + 1) else num)"
  by auto
termination by (relation "measure (\<lambda>(m, num). 32 - num)") auto

declare mask_loop.simps [simp del]

definition hex_digit :: "nat \<Rightarrow> char" where
  "hex_digit n = char_of (if n < 10 then 48 + n else 87 + n)"

definition hex2 :: "u8 \<Rightarrow> string" where
  "hex2 b = [hex_digit (unat b div 16), hex_digit (unat b mod 16)]"

fun mac_text :: "mac6 \<Rightarrow> string" where
  "mac_text (MAC6 a b c d e f) =
     hex2 a @ '':'' @ hex2 b @ '':'' @ hex2 c @ '':'' @ hex2 d @ '':'' @ hex2 e @ '':'' @ hex2 f"

text \<open>The program that \<open>set_filter\<close> compiles and sets, cut to its buffer of 100 bytes.\<close>

definition set_filter :: "mac6 \<Rightarrow> string res" where
  "set_filter mac =
     rbind (str2ip SUBNET_MASK) (\<lambda>bin.
     let num = mask_loop (ntoh32 (le32 bin)) 0 in
     Inr (take 99 (''net '' @ SUBNET_NET @ ''/'' @ dec num @ '' and not ether src '' @ mac_text mac)))"

section \<open>Opening\<close>

text \<open>\<open>ifr_name\<close> has room for 15 characters and a NUL.\<close>

definition get_mac_address :: "device \<Rightarrow> (int \<times> mac6) res" where
  "get_mac_address d =
     (if length (pif_name d) \<ge> IFNAMSIZ then Inl Out_of_bounds
      else if dv_ioctl d < 0 then Inl Exited
      else Inr (dv_ioctl d, dv_hwaddr d))"

definition set_immediate_mode :: "device \<Rightarrow> int" where
  "set_immediate_mode d = 0"

definition uv_pcap_interf_init :: "nat \<Rightarrow> device \<Rightarrow> mac6 \<Rightarrow> int \<times> uv_pcap_interf" where
  "uv_pcap_interf_init dev d mac =
     (let handle = \<lparr>if_dev = dev, if_mac = mac\<rparr> in
      if dv_poll_init d \<noteq> 0 then (dv_poll_init d, handle)
      else if dv_poll_start d \<noteq> 0 then (dv_poll_start d, handle)
      else (0, handle))"

text \<open>The opened interface with its filter, or none for the result -1.\<close>

definition uv_pcap_open_live :: "nat \<Rightarrow> device \<Rightarrow> (uv_pcap_interf \<times> string) option res" where
  "uv_pcap_open_live dev d =
     (if \<not> dv_create d then Inr None
      else if dv_set_timeout d \<noteq> 0 then Inr None
      else if dv_set_snaplen d \<noteq> 0 then Inr None
      else if dv_set_promisc d \<noteq> 0 then Inr None
      else if dv_activate d > 0 \<and> dv_activate d \<noteq> PCAP_WARNING then Inr None
      else if dv_activate d < 0 then Inr None
      else if dv_datalink d \<noteq> DLT_EN10MB then Inr None
      else
        rbind (get_mac_address d) (\<lambda>(rc, mac).
        if rc \<noteq> 0 then Inr None
        else if mac = NONE_MAC then Inr None
        else
          rbind (set_filter mac) (\<lambda>filter.
          if set_immediate_mode d = -1 then Inr None
          else
            let (ret, interf) = uv_pcap_interf_init dev d mac in
            if ret \<noteq> 0 then Inr None else Inr (Some (interf, filter)))))"

text \<open>The loop that replaces a number by the name of the device in that place.\<close>

fun netif_loop :: "nat \<Rightarrow> device list \<Rightarrow> string option \<Rightarrow> string option" where
  "netif_loop i [] netif = netif"
| "netif_loop i (d # ds) netif =
     netif_loop (i + 1) ds
       (case netif of
          None \<Rightarrow> None
        | Some n \<Rightarrow> if int (i + 1) = atoi n then Some (pif_name d) else Some n)"

fun open_named :: "nat \<Rightarrow> device list \<Rightarrow> string \<Rightarrow> (uv_pcap_interf \<times> string) list res" where
  "open_named i [] netif = Inr []"
| "open_named i (d # ds) netif =
     (if pif_name d = netif then
        rbind (uv_pcap_open_live i d) (\<lambda>r.
        case r of None \<Rightarrow> Inr [] | Some h \<Rightarrow> Inr [h])
      else open_named (i + 1) ds netif)"

fun open_all :: "nat \<Rightarrow> device list \<Rightarrow> (uv_pcap_interf \<times> string) list res" where
  "open_all i [] = Inr []"
| "open_all i (d # ds) =
     rbind (uv_pcap_open_live i d) (\<lambda>r.
     rbind (open_all (i + 1) ds) (\<lambda>hs.
     Inr (case r of None \<Rightarrow> hs | Some h \<Rightarrow> h # hs)))"

text \<open>The interfaces and the filters set on them. The devices are none when \<open>pcap_findalldevs\<close> fails.\<close>

definition uv_pcap_init :: "device list option \<Rightarrow> string option \<Rightarrow> (uv_pcap \<times> string list) res" where
  "uv_pcap_init alldevs netif =
     (case alldevs of
        None \<Rightarrow> Inl Exited
      | Some devs \<Rightarrow>
          let name = netif_loop 0 devs netif in
          if devs = [] then Inl Exited
          else
            rbind (case name of None \<Rightarrow> open_all 0 devs | Some n \<Rightarrow> open_named 0 devs n) (\<lambda>hs.
            Inr (\<lparr>if_map = Map.empty, interfaces = map fst hs, pcap_log = []\<rparr>, map snd hs)))"

section \<open>The filter\<close>

lemma mask_loop_prefix:
  assumes "i \<le> n" and "n \<le> 32"
  shows "mask_loop (push_bit (32 - n + i) (-1)) i = n"
  using assms
proof (induction "n - i" arbitrary: i)
  case 0
  then have "i = n" by simp
  then have "push_bit (32 - n + i) (-1 :: u32) = 0"
    using "0.prems" by (intro bit_word_eqI) (auto simp: bit_simps)
  then show ?case using \<open>i = n\<close> by (simp add: mask_loop.simps)
next
  case (Suc k)
  then have i: "i < n" by simp
  have "bit (push_bit (32 - n + i) (-1 :: u32)) (32 - n + i)"
    using i Suc.prems by (auto simp: bit_simps)
  then have "push_bit (32 - n + i) (-1 :: u32) \<noteq> 0" by (metis bit_0_eq bot_apply bot_bool_def)
  moreover have "push_bit 1 (push_bit (32 - n + i) (-1 :: u32)) = push_bit (32 - n + Suc i) (-1)"
    by (simp add: push_bit_push_bit del: push_bit_minus_one_eq_not_mask)
  moreover have "mask_loop (push_bit (32 - n + Suc i) (-1)) (Suc i) = n"
    using Suc i by (intro Suc.hyps(1)) auto
  ultimately show ?case using i Suc.prems by (subst mask_loop.simps) (simp del: push_bit_minus_one_eq_not_mask)
qed

lemma set_filter_eq:
  "set_filter mac = Inr (''net 10.13.0.0/16 and not ether src '' @ mac_text mac)"
proof -
  have "str2ip SUBNET_MASK = Inr (IP4 255 255 0 0)"
    by (simp add: str2ip_def SUBNET_MASK_def scan_int_def is_digit_def is_space_def digits_val_def numeral_nat(2-3) Let_def)
  moreover have "ntoh32 (le32 (IP4 255 255 0 0)) = push_bit (32 - 16 + 0) (-1)"
    by code_simp
  moreover have "mask_loop (push_bit (32 - 16 + 0) (-1)) 0 = 16"
    by (rule mask_loop_prefix) simp_all
  ultimately have "mask_loop (ntoh32 (le32 (IP4 255 255 0 0))) 0 = 16"
    "str2ip SUBNET_MASK = Inr (IP4 255 255 0 0)"
    by (simp_all only:)
  moreover have "dec 16 = ''16''" by code_simp
  ultimately show ?thesis
    by (cases mac) (simp add: set_filter_def SUBNET_NET_def hex2_def)
qed

section \<open>Which devices are opened\<close>

text \<open>The devices the opening accepts.\<close>

definition usable :: "device \<Rightarrow> bool" where
  "usable d \<longleftrightarrow> dv_create d \<and> dv_set_timeout d = 0 \<and> dv_set_snaplen d = 0 \<and> dv_set_promisc d = 0 \<and>
     (dv_activate d = 0 \<or> dv_activate d = PCAP_WARNING) \<and> dv_datalink d = DLT_EN10MB \<and>
     dv_ioctl d = 0 \<and> dv_hwaddr d \<noteq> NONE_MAC \<and> dv_poll_init d = 0 \<and> dv_poll_start d = 0"

definition readable :: "device \<Rightarrow> bool" where
  "readable d \<longleftrightarrow> length (pif_name d) < IFNAMSIZ \<and> 0 \<le> dv_ioctl d"

definition opened :: "nat \<times> device \<Rightarrow> uv_pcap_interf \<times> string" where
  "opened = (\<lambda>(i, d). (\<lparr>if_dev = i, if_mac = dv_hwaddr d\<rparr>,
     ''net 10.13.0.0/16 and not ether src '' @ mac_text (dv_hwaddr d)))"

lemma open_live_eq:
  assumes "readable d"
  shows "uv_pcap_open_live i d = Inr (if usable d then Some (opened (i, d)) else None)"
proof (cases "dv_create d \<and> dv_set_timeout d = 0 \<and> dv_set_snaplen d = 0 \<and> dv_set_promisc d = 0 \<and>
    (dv_activate d = 0 \<or> dv_activate d = PCAP_WARNING) \<and> dv_datalink d = DLT_EN10MB")
  case True
  then show ?thesis
    using assms
    by (auto simp: uv_pcap_open_live_def usable_def readable_def opened_def get_mac_address_def set_filter_eq
        set_immediate_mode_def uv_pcap_interf_init_def PCAP_WARNING_def Let_def)
next
  case False
  then show ?thesis by (auto simp: uv_pcap_open_live_def usable_def)
qed

lemma open_all_eq:
  "\<forall>d \<in> set ds. readable d \<Longrightarrow>
     open_all i ds = Inr (map opened (filter (usable \<circ> snd) (enumerate i ds)))"
  by (induction ds arbitrary: i) (auto simp: open_live_eq)

lemma netif_loop_None: "netif_loop i ds None = None"
  by (induction ds arbitrary: i) simp_all

text \<open>C32: Without the option \<open>--netif\<close> exactly the usable devices are opened, in the order of the list,
  each with its own hardware address and with a filter that admits the packets of the subnet
  10.13.0.0/16 and no frame with the client's own source address.\<close>

theorem pcap_opens_usable:
  assumes "devs \<noteq> []" and "\<forall>d \<in> set devs. readable d"
  shows "uv_pcap_init (Some devs) None =
    Inr (\<lparr>if_map = Map.empty,
          interfaces = map (\<lambda>(i, d). \<lparr>if_dev = i, if_mac = dv_hwaddr d\<rparr>) (filter (usable \<circ> snd) (enumerate 0 devs)),
          pcap_log = []\<rparr>,
         map (\<lambda>(i, d). ''net 10.13.0.0/16 and not ether src '' @ mac_text (dv_hwaddr d))
           (filter (usable \<circ> snd) (enumerate 0 devs)))"
  using assms
  by (auto simp: uv_pcap_init_def netif_loop_None open_all_eq opened_def comp_def case_prod_beta)

lemma atoi_dec: "int n < 2 ^ 31 \<Longrightarrow> atoi (dec n) = int n"
  by (simp add: atoi_def strtol10_dec signed_of_nat signed_take_bit_int_eq_self)

lemma netif_loop_keep:
  "(\<And>j. j < length ds \<Longrightarrow> int (i + j + 1) \<noteq> atoi n) \<Longrightarrow> netif_loop i ds (Some n) = Some n"
proof (induction ds arbitrary: i)
  case (Cons d ds)
  have "int (i + 1) \<noteq> atoi n" using Cons.prems [of 0] by simp
  moreover have "netif_loop (i + 1) ds (Some n) = Some n"
    using Cons.prems [of "Suc j" for j] by (intro Cons.IH) simp
  ultimately show ?case by simp
qed simp

lemma netif_loop_append: "netif_loop i (xs @ ys) n = netif_loop (i + length xs) ys (netif_loop i xs n)"
  by (induction xs arbitrary: i n) simp_all

lemma open_named_skip:
  "(\<And>d. d \<in> set xs \<Longrightarrow> pif_name d \<noteq> n) \<Longrightarrow> open_named i (xs @ ys) n = open_named (i + length xs) ys n"
  by (induction xs arbitrary: i) auto

text \<open>The number that \<open>--list-if\<close> prints before a device, given to \<open>--netif\<close>, opens that device
  alone, when its name is not taken by an earlier device and is not itself the number of a later
  one.\<close>

theorem netif_number_opens:
  assumes "devs = xs @ d # ys" and "length devs < 2 ^ 31" and "readable d" and "usable d"
    and "\<forall>e \<in> set xs. pif_name e \<noteq> pif_name d"
    and "\<forall>j < length ys. int (length xs + 1 + j + 1) \<noteq> atoi (pif_name d)"
  shows "uv_pcap_init (Some devs) (Some (dec (length xs + 1))) =
    Inr (\<lparr>if_map = Map.empty, interfaces = [\<lparr>if_dev = length xs, if_mac = dv_hwaddr d\<rparr>], pcap_log = []\<rparr>,
         [''net 10.13.0.0/16 and not ether src '' @ mac_text (dv_hwaddr d)])"
proof -
  have num: "atoi (dec (length xs + 1)) = int (length xs + 1)"
    using assms(1,2) by (intro atoi_dec) auto
  have "netif_loop 0 xs (Some (dec (length xs + 1))) = Some (dec (length xs + 1))"
    using num by (intro netif_loop_keep) auto
  moreover have "netif_loop (length xs + 1) ys (Some (pif_name d)) = Some (pif_name d)"
    using assms(1,6) by (intro netif_loop_keep) auto
  ultimately have "netif_loop 0 devs (Some (dec (length xs + 1))) = Some (pif_name d)"
    using num assms(1) by (simp add: netif_loop_append)
  moreover have "open_named 0 devs (pif_name d) = Inr [opened (length xs, d)]"
    using assms(1,3,4,5) by (simp add: open_named_skip open_live_eq)
  ultimately show ?thesis using assms(1) by (simp add: uv_pcap_init_def opened_def)
qed

definition example_device :: "string \<Rightarrow> mac6 \<Rightarrow> device" where
  "example_device name mac =
     \<lparr>pif_name = name, pif_description = None, pif_addresses = [], dv_create = True, dv_set_timeout = 0,
      dv_set_snaplen = 0, dv_set_promisc = 0, dv_activate = 0, dv_datalink = 1, dv_ioctl = 0,
      dv_hwaddr = mac, dv_poll_init = 0, dv_poll_start = 0\<rparr>"

definition example_devices :: "device list" where
  "example_devices = [example_device ''lo'' (MAC6 0 0 0 0 0 0), example_device ''eth0'' (MAC6 2 0 0 0 0 1)]"

lemma example_device_ok:
  "length name < 16 \<Longrightarrow> readable (example_device name mac)"
  "usable (example_device name mac) \<longleftrightarrow> mac \<noteq> NONE_MAC"
  by (simp_all add: example_device_def readable_def usable_def IFNAMSIZ_def DLT_EN10MB_def)

theorem pcap_opens_usable_witness:
  "map (\<lambda>(i, d). \<lparr>if_dev = i, if_mac = dv_hwaddr d\<rparr>) (filter (usable \<circ> snd) (enumerate 0 example_devices)) =
     [\<lparr>if_dev = 1, if_mac = MAC6 2 0 0 0 0 1\<rparr>] \<and>
   (\<exists>fs. uv_pcap_init (Some example_devices) None =
     Inr (\<lparr>if_map = Map.empty, interfaces = [\<lparr>if_dev = 1, if_mac = MAC6 2 0 0 0 0 1\<rparr>], pcap_log = []\<rparr>, fs))"
proof -
  have one: "map (\<lambda>(i, d). \<lparr>if_dev = i, if_mac = dv_hwaddr d\<rparr>) (filter (usable \<circ> snd) (enumerate 0 example_devices)) =
     [\<lparr>if_dev = 1, if_mac = MAC6 2 0 0 0 0 1\<rparr>]"
    by (simp add: example_devices_def example_device_ok NONE_MAC_def) (simp add: example_device_def)
  have "example_devices \<noteq> []" "\<forall>d \<in> set example_devices. readable d"
    by (simp_all add: example_devices_def example_device_ok)
  from pcap_opens_usable [OF this] one show ?thesis by simp
qed

theorem netif_number_opens_witness:
  "\<exists>fs. uv_pcap_init (Some example_devices) (Some ''2'') =
     Inr (\<lparr>if_map = Map.empty, interfaces = [\<lparr>if_dev = 1, if_mac = MAC6 2 0 0 0 0 1\<rparr>], pcap_log = []\<rparr>, fs)"
proof -
  have "dec 2 = ''2''" by code_simp
  then show ?thesis
    using netif_number_opens [of example_devices "[example_device ''lo'' (MAC6 0 0 0 0 0 0)]"
        "example_device ''eth0'' (MAC6 2 0 0 0 0 1)" "[]"]
    by (simp add: example_devices_def example_device_ok NONE_MAC_def)
      (simp add: example_device_def numeral_2_eq_2)
qed

end
