(* ===== verification/Proxy.thy ===== *)
theory Proxy
  imports Helper "HOL-Library.AList"
begin

text \<open>
  The UDP side of the gateway's proxies: the class template \<open>ProxyBase\<close> of
  \<open>proxy_common.hpp\<close>, which keeps one socket per inner endpoint in a table with expiry times,
  and its instance with \<open>DirectProxyUdp\<close> of \<open>proxy_direct.cpp\<close>. The template's parameter, a
  class with the members \<open>init\<close>, \<open>isExpire\<close> and \<open>send\<close>, is a record of functions; what
  \<open>ProxyBase\<close> relies on from the class is the locale \<open>proxy_item\<close>, in which the facts about the
  table are proved once for every instance. The operating system's sockets are handles numbered
  by creation; a datagram sent is an element of the result.
\<close>

section \<open>Endpoints\<close>

text \<open>\<open>UdpCacheKey\<close>: equality compares the address and the port.\<close>

type_synonym udp_cache_key = "ip4 \<times> u16"

text \<open>A datagram sent: the handle of the socket, the destination, the bytes.\<close>

type_synonym udp_out = "nat \<times> slp_addr_in \<times> bytes"

definition PROXY_UDP_TABLE_TTL :: int where "PROXY_UDP_TABLE_TTL = 30"

section \<open>The class template\<close>

record 'u proxy_ops =
  px_new :: "int \<Rightarrow> nat \<Rightarrow> ip4 \<Rightarrow> u16 \<Rightarrow> ip4 \<Rightarrow> u16 \<Rightarrow> 'u"
  px_isExpire :: "int \<Rightarrow> 'u \<Rightarrow> bool res"
  px_send :: "int \<Rightarrow> 'u \<Rightarrow> sockaddr_in \<Rightarrow> bytes \<Rightarrow> nat \<Rightarrow> ('u \<times> udp_out list) res"

record 'u proxy_base =
  cacheTable :: "(udp_cache_key \<times> 'u) list"
  next_handle :: nat

definition getUdp ::
  "'u proxy_ops \<Rightarrow> int \<Rightarrow> 'u proxy_base \<Rightarrow> ip4 \<Rightarrow> u16 \<Rightarrow> ip4 \<Rightarrow> u16 \<Rightarrow> ('u \<times> 'u proxy_base) res" where
  "getUdp ops now p src srcport dst dstport =
     (let key = (src, srcport);
          fresh = px_new ops now (next_handle p) src srcport dst dstport;
          with_fresh = (fresh, p\<lparr>cacheTable := AList.update key fresh (cacheTable p),
                                 next_handle := next_handle p + 1\<rparr>)
      in case map_of (cacheTable p) key of
           Some item \<Rightarrow>
             rbind (px_isExpire ops now item) (\<lambda>expired.
             if expired then Inr with_fresh
             else Inr (item, p\<lparr>cacheTable := AList.update key item (cacheTable p)\<rparr>))
         | None \<Rightarrow> Inr with_fresh)"

definition udpSend ::
  "'u proxy_ops \<Rightarrow> int \<Rightarrow> 'u proxy_base \<Rightarrow> ip4 \<Rightarrow> u16 \<Rightarrow> ip4 \<Rightarrow> u16 \<Rightarrow> bytes \<Rightarrow> u16
     \<Rightarrow> ('u proxy_base \<times> udp_out list) res" where
  "udpSend ops now p src srcport dst dstport data data_len =
     rbind (getUdp ops now p src srcport dst dstport) (\<lambda>(item, p1).
     let addr = \<lparr>sin_addr = dst, sin_port = htons dstport\<rparr> in
     rbind (px_send ops now item addr data (unat data_len)) (\<lambda>(item', out).
     Inr (p1\<lparr>cacheTable := AList.update (src, srcport) item' (cacheTable p1)\<rparr>, out)))"

text \<open>The callback of the timer \<open>gc\<close>.\<close>

fun gc_table :: "'u proxy_ops \<Rightarrow> int \<Rightarrow> (udp_cache_key \<times> 'u) list \<Rightarrow> (udp_cache_key \<times> 'u) list res" where
  "gc_table ops now [] = Inr []"
| "gc_table ops now ((k, item) # rest) =
     rbind (px_isExpire ops now item) (\<lambda>expired.
     rbind (gc_table ops now rest) (\<lambda>rest'.
     Inr (if expired then rest' else (k, item) # rest')))"

definition proxy_gc :: "'u proxy_ops \<Rightarrow> int \<Rightarrow> 'u proxy_base \<Rightarrow> 'u proxy_base res" where
  "proxy_gc ops now p =
     rbind (gc_table ops now (cacheTable p)) (\<lambda>t. Inr (p\<lparr>cacheTable := t\<rparr>))"

definition proxy_empty :: "'u proxy_base" where
  "proxy_empty = \<lparr>cacheTable = [], next_handle = 0\<rparr>"

text \<open>What happens to a proxy: the gateway hands it a datagram, or its timer fires. A run of
  events collects the datagrams that leave.\<close>

datatype proxy_event =
    Ev_send int ip4 u16 ip4 u16 bytes u16
  | Ev_gc int

fun proxy_step :: "'u proxy_ops \<Rightarrow> 'u proxy_base \<Rightarrow> proxy_event \<Rightarrow> ('u proxy_base \<times> udp_out list) res" where
  "proxy_step ops p (Ev_send now src srcport dst dstport data len) =
     udpSend ops now p src srcport dst dstport data len"
| "proxy_step ops p (Ev_gc now) = rbind (proxy_gc ops now p) (\<lambda>p'. Inr (p', []))"

fun proxy_run :: "'u proxy_ops \<Rightarrow> 'u proxy_base \<Rightarrow> proxy_event list \<Rightarrow> ('u proxy_base \<times> udp_out list) res" where
  "proxy_run ops p [] = Inr (p, [])"
| "proxy_run ops p (e # es) =
     rbind (proxy_step ops p e) (\<lambda>(p1, out1).
     rbind (proxy_run ops p1 es) (\<lambda>(p2, out2). Inr (p2, out1 @ out2)))"

fun event_time :: "proxy_event \<Rightarrow> int" where
  "event_time (Ev_send now _ _ _ _ _ _) = now"
| "event_time (Ev_gc now) = now"

fun event_fits :: "proxy_event \<Rightarrow> bool" where
  "event_fits (Ev_send _ _ _ _ _ data len) = (unat len \<le> length data)"
| "event_fits (Ev_gc _) = True"

section \<open>DirectProxyUdp\<close>

record direct_udp =
  du_handle :: nat
  du_src :: ip4
  du_srcport :: u16
  du_expire_at :: int

definition direct_visit :: "int \<Rightarrow> direct_udp \<Rightarrow> direct_udp" where
  "direct_visit now u = u\<lparr>du_expire_at := now + PROXY_UDP_TABLE_TTL\<rparr>"

text \<open>The constructor and \<open>init\<close>, which ends with \<open>visit\<close>.\<close>

definition direct_new :: "int \<Rightarrow> nat \<Rightarrow> ip4 \<Rightarrow> u16 \<Rightarrow> ip4 \<Rightarrow> u16 \<Rightarrow> direct_udp" where
  "direct_new now h src srcport dst dstport =
     direct_visit now \<lparr>du_handle = h, du_src = src, du_srcport = srcport, du_expire_at = 0\<rparr>"

definition direct_isExpire :: "int \<Rightarrow> direct_udp \<Rightarrow> bool res" where
  "direct_isExpire now u = Inr (du_expire_at u < now)"

definition direct_send ::
  "int \<Rightarrow> direct_udp \<Rightarrow> sockaddr_in \<Rightarrow> bytes \<Rightarrow> nat \<Rightarrow> (direct_udp \<times> udp_out list) res" where
  "direct_send now u addr dat len =
     rbind (rdn dat 0 len) (\<lambda>data. Inr (direct_visit now u, [(du_handle u, Addr_v4 addr, data)]))"

definition direct_ops :: "direct_udp proxy_ops" where
  "direct_ops = \<lparr>px_new = direct_new, px_isExpire = direct_isExpire, px_send = direct_send\<rparr>"

section \<open>What the template relies on, and the facts that follow\<close>

text \<open>
  \<open>good\<close> holds of an item whose expiry time has been set; \<open>expiry\<close> and \<open>handle_of\<close> read it.
  A new item need not be good, but sending makes it so, keeps its socket and renews it.
\<close>

locale proxy_item =
  fixes ops :: "'u proxy_ops"
    and good :: "'u \<Rightarrow> bool"
    and expiry :: "'u \<Rightarrow> int"
    and handle_of :: "'u \<Rightarrow> nat"
  assumes isExpire_good: "good u \<Longrightarrow> px_isExpire ops now u = Inr (expiry u < now)"
    and new_handle: "handle_of (px_new ops now h src srcport dst dstport) = h"
    and send_fault: "length data < len \<Longrightarrow> px_send ops now u addr data len = Inl Out_of_bounds"
    and send_renews: "len \<le> length data \<Longrightarrow> \<exists>u' out. px_send ops now u addr data len = Inr (u', out)
      \<and> good u' \<and> expiry u' = now + PROXY_UDP_TABLE_TTL \<and> handle_of u' = handle_of u"
begin

definition table_ok :: "'u proxy_base \<Rightarrow> bool" where
  "table_ok p \<longleftrightarrow> distinct (map fst (cacheTable p)) \<and> (\<forall>k u. map_of (cacheTable p) k = Some u \<longrightarrow> good u)"

text \<open>The socket a packet of an inner endpoint is sent on.\<close>

definition uses_handle :: "int \<Rightarrow> 'u proxy_base \<Rightarrow> udp_cache_key \<Rightarrow> nat" where
  "uses_handle now p key =
     (case map_of (cacheTable p) key of
        Some u \<Rightarrow> if expiry u < now then next_handle p else handle_of u
      | None \<Rightarrow> next_handle p)"

lemma table_ok_empty: "table_ok proxy_empty"
  by (simp add: table_ok_def proxy_empty_def)

lemma table_ok_lookup: "table_ok p \<Longrightarrow> map_of (cacheTable p) key = Some u \<Longrightarrow> good u"
  unfolding table_ok_def by blast

lemma gc_table_filter:
  assumes "\<And>k u. (k, u) \<in> set t \<Longrightarrow> good u"
  shows "gc_table ops now t = Inr (filter (\<lambda>(k, u). \<not> expiry u < now) t)"
  using assms
proof (induction t)
  case (Cons a t)
  obtain k u where a: "a = (k, u)" by (cases a)
  have "good u" using Cons.prems [of k u] a by simp
  moreover have "gc_table ops now t = Inr (filter (\<lambda>(k, u). \<not> expiry u < now) t)"
    using Cons by (meson list.set_intros(2))
  ultimately show ?case by (simp add: a isExpire_good)
qed simp

lemma gc_filter:
  assumes "table_ok p"
  shows "proxy_gc ops now p =
    Inr (p\<lparr>cacheTable := filter (\<lambda>(k, u). \<not> expiry u < now) (cacheTable p)\<rparr>)"
proof -
  have "good u" if "(k, u) \<in> set (cacheTable p)" for k u
    using assms that unfolding table_ok_def by (metis map_of_eq_Some_iff)
  from gc_table_filter [OF this] show ?thesis by (simp add: proxy_gc_def)
qed

lemma map_of_filter_distinct:
  "distinct (map fst t) \<Longrightarrow>
   map_of (filter (\<lambda>(k, u). P u) t) k = (case map_of t k of Some u \<Rightarrow> if P u then Some u else None | None \<Rightarrow> None)"
  by (induction t) (auto split: option.splits simp: map_of_eq_None_iff image_iff)

lemma gc_table_ok:
  assumes "table_ok p" and "proxy_gc ops now p = Inr p'"
  shows "table_ok p'"
proof -
  have p': "p' = p\<lparr>cacheTable := filter (\<lambda>(k, u). \<not> expiry u < now) (cacheTable p)\<rparr>"
    using gc_filter [OF assms(1), of now] assms(2) by simp
  show ?thesis
    using assms(1) by (auto simp: p' table_ok_def map_of_filter_distinct distinct_map_filter
        split: option.splits if_splits)
qed

lemma gc_lookup:
  assumes "table_ok p" and "proxy_gc ops now p = Inr p'"
  shows "map_of (cacheTable p') k =
    (case map_of (cacheTable p) k of
       Some u \<Rightarrow> if expiry u < now then None else Some u
     | None \<Rightarrow> None)"
  using gc_filter [OF assms(1), of now] assms
  by (auto simp: table_ok_def map_of_filter_distinct split: option.splits)

lemma getUdp_spec:
  assumes "table_ok p"
  shows "\<exists>u p1. getUdp ops now p src srcport dst dstport = Inr (u, p1)
    \<and> handle_of u = uses_handle now p (src, srcport)
    \<and> distinct (map fst (cacheTable p1))
    \<and> map_of (cacheTable p1) = (map_of (cacheTable p))((src, srcport) \<mapsto> u)
    \<and> next_handle p \<le> next_handle p1"
proof (cases "map_of (cacheTable p) (src, srcport)")
  case None
  then show ?thesis using assms
    by (simp add: getUdp_def Let_def uses_handle_def new_handle table_ok_def distinct_update update_conv')
next
  case (Some u)
  then have "good u" by (rule table_ok_lookup [OF assms])
  with Some show ?thesis using assms
    by (simp add: getUdp_def Let_def uses_handle_def new_handle table_ok_def distinct_update update_conv'
        isExpire_good)
qed

lemma udpSend_spec:
  assumes "table_ok p" and "unat len \<le> length data"
  shows "\<exists>u out p'. udpSend ops now p src srcport dst dstport data len = Inr (p', out)
    \<and> table_ok p'
    \<and> map_of (cacheTable p') = (map_of (cacheTable p))((src, srcport) \<mapsto> u)
    \<and> handle_of u = uses_handle now p (src, srcport)
    \<and> expiry u = now + PROXY_UDP_TABLE_TTL"
proof -
  obtain u p1 where g: "getUdp ops now p src srcport dst dstport = Inr (u, p1)"
    "handle_of u = uses_handle now p (src, srcport)" "distinct (map fst (cacheTable p1))"
    "map_of (cacheTable p1) = (map_of (cacheTable p))((src, srcport) \<mapsto> u)"
    using getUdp_spec [OF assms(1)] by blast
  obtain u' out where s:
    "px_send ops now u \<lparr>sin_addr = dst, sin_port = htons dstport\<rparr> data (unat len) = Inr (u', out)"
    "good u'" "expiry u' = now + PROXY_UDP_TABLE_TTL" "handle_of u' = handle_of u"
    using send_renews [OF assms(2)] by blast
  show ?thesis
    using g s assms(1)
    by (intro exI [of _ u'] exI [of _ out])
      (auto simp: udpSend_def Let_def table_ok_def distinct_update update_conv' fun_upd_def)
qed

text \<open>No socket serves two endpoints: the handles in the table are pairwise different and all
  of them older than the next one.\<close>

definition handles_ok :: "'u proxy_base \<Rightarrow> bool" where
  "handles_ok p \<longleftrightarrow>
     (\<forall>k u. map_of (cacheTable p) k = Some u \<longrightarrow> handle_of u < next_handle p) \<and>
     (\<forall>k u k' u'. map_of (cacheTable p) k = Some u \<longrightarrow> map_of (cacheTable p) k' = Some u' \<longrightarrow>
        handle_of u = handle_of u' \<longrightarrow> k = k')"

lemma handles_ok_empty: "handles_ok proxy_empty"
  by (simp add: handles_ok_def proxy_empty_def)

lemma uses_handle_cases:
  obtains (old) u where "map_of (cacheTable p) k = Some u" "\<not> expiry u < now"
      "uses_handle now p k = handle_of u"
    | (new) "uses_handle now p k = next_handle p" "\<And>v. map_of (cacheTable p) k = Some v \<Longrightarrow> expiry v < now"
proof (cases "map_of (cacheTable p) k")
  case None
  then show ?thesis by (intro new) (simp_all add: uses_handle_def)
next
  case (Some u)
  then show ?thesis
    by (cases "expiry u < now") (auto intro: old new simp: uses_handle_def)
qed

lemma getUdp_next:
  assumes "table_ok p" and "getUdp ops now p src srcport dst dstport = Inr (u, p1)"
  shows "next_handle p1 =
    (if \<forall>v. map_of (cacheTable p) (src, srcport) = Some v \<longrightarrow> expiry v < now
     then next_handle p + 1 else next_handle p)"
  using assms
  by (cases "map_of (cacheTable p) (src, srcport)")
    (auto simp: getUdp_def Let_def uses_handle_def isExpire_good [OF table_ok_lookup [OF assms(1)]]
      split: if_splits)

lemma udpSend_next:
  assumes "table_ok p" and "udpSend ops now p src srcport dst dstport data len = Inr (p', out)"
  shows "next_handle p' =
    (if \<forall>v. map_of (cacheTable p) (src, srcport) = Some v \<longrightarrow> expiry v < now
     then next_handle p + 1 else next_handle p)"
proof -
  obtain u p1 where g: "getUdp ops now p src srcport dst dstport = Inr (u, p1)"
    using getUdp_spec [OF assms(1)] by blast
  with assms(2) have "next_handle p' = next_handle p1"
    by (auto simp: udpSend_def Let_def rbind_eq_Inr)
  then show ?thesis using getUdp_next [OF assms(1) g] by simp
qed

text \<open>An item changed in place, its socket kept.\<close>

lemma update_item:
  assumes "table_ok p" and "handles_ok p" and "map_of (cacheTable p) k = Some u" and "good u'"
    and "handle_of u' = handle_of u"
  shows "table_ok (p\<lparr>cacheTable := AList.update k u' (cacheTable p)\<rparr>)"
    and "handles_ok (p\<lparr>cacheTable := AList.update k u' (cacheTable p)\<rparr>)"
proof -
  show "table_ok (p\<lparr>cacheTable := AList.update k u' (cacheTable p)\<rparr>)"
    using assms(1,4) by (auto simp: table_ok_def distinct_update update_conv')
  show "handles_ok (p\<lparr>cacheTable := AList.update k u' (cacheTable p)\<rparr>)"
    using assms(2,3,5) unfolding handles_ok_def by (auto simp: update_conv')
qed

lemma step_spec:
  assumes "table_ok p" and "handles_ok p" and "event_fits e"
  shows "\<exists>p' out. proxy_step ops p e = Inr (p', out) \<and> table_ok p' \<and> handles_ok p'"
proof (cases e)
  case (Ev_gc now)
  obtain p' where g: "proxy_gc ops now p = Inr p'" using gc_filter [OF assms(1)] by blast
  have "next_handle p' = next_handle p"
    using g gc_filter [OF assms(1), of now] by auto
  with assms gc_lookup [OF assms(1) g] have "handles_ok p'"
    unfolding handles_ok_def by (auto split: option.splits if_splits)
  with gc_table_ok [OF assms(1) g] Ev_gc g show ?thesis by simp
next
  case (Ev_send now src srcport dst dstport data len)
  let ?k = "(src, srcport)"
  obtain u out p' where s: "udpSend ops now p src srcport dst dstport data len = Inr (p', out)"
    "table_ok p'" "map_of (cacheTable p') = (map_of (cacheTable p))(?k \<mapsto> u)"
    "handle_of u = uses_handle now p ?k"
    using udpSend_spec [OF assms(1)] assms(3) Ev_send by fastforce
  have "handles_ok p'"
  proof (cases rule: uses_handle_cases [of p ?k now])
    case (old v)
    with assms(2) s(4) udpSend_next [OF assms(1) s(1)] show ?thesis
      unfolding handles_ok_def s(3) by auto
  next
    case new
    with assms(2) s(4) udpSend_next [OF assms(1) s(1)] show ?thesis
      unfolding handles_ok_def s(3) by (auto simp: less_Suc_eq) (metis less_irrefl)+
  qed
  with s Ev_send show ?thesis by simp
qed

lemma run_spec:
  "table_ok p \<Longrightarrow> handles_ok p \<Longrightarrow> (\<forall>e \<in> set es. event_fits e) \<Longrightarrow>
     \<exists>p' out. proxy_run ops p es = Inr (p', out) \<and> table_ok p' \<and> handles_ok p'"
proof (induction es arbitrary: p)
  case (Cons e es)
  obtain p1 o1 where 1: "proxy_step ops p e = Inr (p1, o1)" "table_ok p1" "handles_ok p1"
    using step_spec Cons.prems by (metis list.set_intros(1))
  obtain p2 o2 where "proxy_run ops p1 es = Inr (p2, o2)" "table_ok p2" "handles_ok p2"
    using Cons.IH [OF 1(2,3)] Cons.prems by auto
  with 1 show ?case by simp
qed simp

text \<open>An endpoint keeps its socket while its entry lives, whatever other endpoints do, and
  whenever the collector runs.\<close>

lemma step_keeps_handle:
  assumes "table_ok p" and "event_fits e" and "proxy_step ops p e = Inr (p', out)"
    and "map_of (cacheTable p) k = Some u" and "event_time e \<le> expiry u"
  shows "\<exists>u'. map_of (cacheTable p') k = Some u' \<and> handle_of u' = handle_of u
    \<and> min (expiry u) (event_time e + PROXY_UDP_TABLE_TTL) \<le> expiry u'"
proof (cases e)
  case (Ev_gc now)
  then have "proxy_gc ops now p = Inr p'" using assms(3) by (auto simp: rbind_eq_Inr)
  from gc_lookup [OF assms(1) this, of k] show ?thesis using assms Ev_gc by simp
next
  case (Ev_send now src srcport dst dstport data len)
  then obtain u2 where
    "map_of (cacheTable p') = (map_of (cacheTable p))((src, srcport) \<mapsto> u2)"
    "handle_of u2 = uses_handle now p (src, srcport)" "expiry u2 = now + PROXY_UDP_TABLE_TTL"
    using udpSend_spec [OF assms(1), of len data now src srcport dst dstport] assms(2,3) by fastforce
  then show ?thesis using assms Ev_send
    by (cases "k = (src, srcport)") (simp_all add: uses_handle_def)
qed

lemma run_keeps_handle:
  "table_ok p \<Longrightarrow> handles_ok p \<Longrightarrow> (\<forall>e \<in> set es. event_fits e \<and> t - PROXY_UDP_TABLE_TTL \<le> event_time e \<and> event_time e \<le> t) \<Longrightarrow>
     proxy_run ops p es = Inr (p', out) \<Longrightarrow> map_of (cacheTable p) k = Some u \<Longrightarrow> t \<le> expiry u \<Longrightarrow>
     \<exists>u'. map_of (cacheTable p') k = Some u' \<and> handle_of u' = handle_of u \<and> t \<le> expiry u'"
proof (induction es arbitrary: p u out)
  case (Cons e es)
  obtain p1 o1 where 1: "proxy_step ops p e = Inr (p1, o1)" "table_ok p1" "handles_ok p1"
    using step_spec Cons.prems by (metis list.set_intros(1))
  obtain o2 where run: "proxy_run ops p1 es = Inr (p', o2)"
    using Cons.prems(4) 1 by (auto simp: rbind_eq_Inr)
  obtain u1 where u1: "map_of (cacheTable p1) k = Some u1" "handle_of u1 = handle_of u" "t \<le> expiry u1"
    using step_keeps_handle [OF Cons.prems(1) _ 1(1) Cons.prems(5)] Cons.prems(3,6) by fastforce
  from Cons.IH [OF 1(2,3) _ run u1(1,3)] Cons.prems(3) u1(2) show ?case by auto
qed auto

end

section \<open>The direct proxy satisfies the contract\<close>

interpretation direct: proxy_item direct_ops "\<lambda>_. True" du_expire_at du_handle
proof unfold_locales
  fix len :: nat and data :: bytes and now u addr
  assume "len \<le> length data"
  then show "\<exists>u' out. px_send direct_ops now u addr data len = Inr (u', out) \<and> True
      \<and> du_expire_at u' = now + PROXY_UDP_TABLE_TTL \<and> du_handle u' = du_handle u"
    by (simp add: direct_ops_def direct_send_def direct_visit_def mem_simps)
qed (simp_all add: direct_ops_def direct_isExpire_def direct_new_def direct_visit_def
      direct_send_def rdn_def)

text \<open>The datagram the direct proxy emits.\<close>

lemma direct_udpSend_out:
  assumes "direct.table_ok p" and "unat len \<le> length data"
  shows "\<exists>p'. udpSend direct_ops now p src srcport dst dstport data len =
    Inr (p', [(direct.uses_handle now p (src, srcport),
               Addr_v4 \<lparr>sin_addr = dst, sin_port = htons dstport\<rparr>, take (unat len) data)])"
proof -
  obtain u p1 where "getUdp direct_ops now p src srcport dst dstport = Inr (u, p1)"
    "du_handle u = direct.uses_handle now p (src, srcport)"
    using direct.getUdp_spec [OF assms(1)] by blast
  with assms(2) show ?thesis
    by (simp add: udpSend_def Let_def direct_send_def direct_ops_def mem_simps)
qed

text \<open>C14: Whatever datagrams the gateway hands to a fresh direct proxy and whenever its collector
  runs, every event returns normally and no two inner endpoints ever share a socket: entries of
  the table with the same socket belong to the same source address and port.\<close>

theorem direct_sockets_not_shared:
  assumes "\<forall>e \<in> set es. event_fits e"
  shows "\<exists>p out. proxy_run direct_ops proxy_empty es = Inr (p, out) \<and>
    (\<forall>k u k' u'. map_of (cacheTable p) k = Some u \<longrightarrow> map_of (cacheTable p) k' = Some u' \<longrightarrow>
       du_handle u = du_handle u' \<longrightarrow> k = k')"
  using direct.run_spec [OF direct.table_ok_empty direct.handles_ok_empty assms]
  unfolding direct.handles_ok_def by blast

theorem direct_sockets_not_shared_witness:
  "\<exists>p out. proxy_run direct_ops proxy_empty
      [Ev_send 100 (IP4 10 13 0 2) 5000 (IP4 8 8 8 8) 53 [1, 2, 3] 3,
       Ev_gc 110, Ev_send 120 (IP4 10 13 0 3) 5000 (IP4 8 8 8 8) 53 [4] 1] = Inr (p, out) \<and>
    (\<forall>k u k' u'. map_of (cacheTable p) k = Some u \<longrightarrow> map_of (cacheTable p) k' = Some u' \<longrightarrow>
       du_handle u = du_handle u' \<longrightarrow> k = k')"
  by (rule direct_sockets_not_shared) simp

text \<open>C13: An inner endpoint keeps its outer socket. If it sends a datagram at time \<open>t0\<close>, then
  after any further events (its own, those of other endpoints, runs of the collector) up to
  \<open>PROXY_UDP_TABLE_TTL\<close> seconds later, its next datagram in that time leaves, unchanged and to
  the address asked for, on the same socket as the first.\<close>

theorem direct_endpoint_keeps_socket:
  assumes fits: "\<forall>e \<in> set (before @ after). event_fits e" "unat len0 \<le> length data0" "unat len \<le> length data"
    and times: "\<forall>e \<in> set after. t0 \<le> event_time e \<and> event_time e \<le> t0 + PROXY_UDP_TABLE_TTL"
      "now \<le> t0 + PROXY_UDP_TABLE_TTL"
    and run1: "proxy_run direct_ops proxy_empty before = Inr (p0, out0)"
    and snd0: "udpSend direct_ops t0 p0 src srcport dst0 dstport0 data0 len0 = Inr (p1, [(h, a, d)])"
    and run2: "proxy_run direct_ops p1 after = Inr (p2, out2)"
  shows "\<exists>p3. udpSend direct_ops now p2 src srcport dst dstport data len =
    Inr (p3, [(h, Addr_v4 \<lparr>sin_addr = dst, sin_port = htons dstport\<rparr>, take (unat len) data)])"
proof -
  let ?k = "(src, srcport)" and ?e = "Ev_send t0 src srcport dst0 dstport0 data0 len0"
  have p0: "direct.table_ok p0" "direct.handles_ok p0"
    using direct.run_spec [OF direct.table_ok_empty direct.handles_ok_empty, of before] fits run1 by auto
  have h: "h = direct.uses_handle t0 p0 ?k"
    using direct_udpSend_out [OF p0(1) fits(2), of t0 src srcport dst0 dstport0] snd0 by auto
  obtain u where u: "map_of (cacheTable p1) ?k = Some u" "du_handle u = h" "du_expire_at u = t0 + PROXY_UDP_TABLE_TTL"
    using direct.udpSend_spec [OF p0(1) fits(2), of t0 src srcport dst0 dstport0] snd0 h by auto
  have p1: "direct.table_ok p1" "direct.handles_ok p1"
    using direct.step_spec [OF p0, of ?e] snd0 fits(2) by auto
  obtain u2 where u2: "map_of (cacheTable p2) ?k = Some u2" "du_handle u2 = h" "t0 + PROXY_UDP_TABLE_TTL \<le> du_expire_at u2"
    using direct.run_keeps_handle [OF p1 _ run2 u(1), of "t0 + PROXY_UDP_TABLE_TTL"] fits times u by auto
  then have "direct.uses_handle now p2 ?k = h"
    using times by (simp add: direct.uses_handle_def)
  moreover have "direct.table_ok p2"
    using direct.run_spec [OF p1, of after] fits run2 by auto
  ultimately show ?thesis using direct_udpSend_out [OF _ fits(3)] by metis
qed

lemmas direct_eval = proxy_empty_def direct_ops_def direct_new_def direct_visit_def direct_isExpire_def
  direct_send_def udpSend_def getUdp_def proxy_gc_def PROXY_UDP_TABLE_TTL_def Let_def rdn_def

theorem direct_endpoint_keeps_socket_witness:
  "\<exists>p3. udpSend direct_ops 129
     \<lparr>cacheTable =
        [((IP4 10 13 0 2, 5000), \<lparr>du_handle = 0, du_src = IP4 10 13 0 2, du_srcport = 5000, du_expire_at = 130\<rparr>),
         ((IP4 10 13 0 3, 6000), \<lparr>du_handle = 1, du_src = IP4 10 13 0 3, du_srcport = 6000, du_expire_at = 145\<rparr>)],
      next_handle = 2\<rparr>
     (IP4 10 13 0 2) 5000 (IP4 8 8 4 4) 53 [7, 8] 2 =
   Inr (p3, [(0, Addr_v4 \<lparr>sin_addr = IP4 8 8 4 4, sin_port = htons 53\<rparr>, take (unat (2::u16)) [7, 8])])"
  by (rule direct_endpoint_keeps_socket
      [of "[]" "[Ev_gc 110, Ev_send 115 (IP4 10 13 0 3) 6000 (IP4 1 1 1 1) 53 [9] 1]" 1 "[1]" _ _ 100 _
        proxy_empty "[]" "IP4 10 13 0 2" 5000 "IP4 8 8 8 8" 53
        "\<lparr>cacheTable = [((IP4 10 13 0 2, 5000), \<lparr>du_handle = 0, du_src = IP4 10 13 0 2,
            du_srcport = 5000, du_expire_at = 130\<rparr>)], next_handle = 1\<rparr>"
        0 "Addr_v4 \<lparr>sin_addr = IP4 8 8 8 8, sin_port = htons 53\<rparr>" "[1]" _
        "[(1, Addr_v4 \<lparr>sin_addr = IP4 1 1 1 1, sin_port = htons 53\<rparr>, [9])]"])
    (simp_all add: direct_eval)

end
