(* ===== verification/Socks5.thy ===== *)
theory Socks5
  imports Proxy
begin

text \<open>
  \<open>proxy_socks5.cpp\<close>: the serialiser \<open>ProtocolPacker\<close> and its reading counterpart, the
  handshake \<open>Socks5Protocol\<close> as a state machine driven by the connect and data events of its TCP
  handle, and \<open>Socks5ProxyUdp\<close>, the second instance of the proxy table. Memory from \<open>new
  char[n]\<close> starts with no value in its cells, so that sending a buffer that was not filled is a
  fault. What the protocol does to its TCP handle and to its callbacks is a list of actions.
\<close>

section \<open>ProtocolPacker and ProtocolUnpacker\<close>

record packer =
  pk_data :: "u8 option list"
  pk_offset :: nat

definition new_packer :: "nat \<Rightarrow> packer" where
  "new_packer len = \<lparr>pk_data = replicate len None, pk_offset = 0\<rparr>"

definition packer_on :: "bytes \<Rightarrow> packer" where
  "packer_on data = \<lparr>pk_data = map Some data, pk_offset = 0\<rparr>"

definition packer_writeAny :: "packer \<Rightarrow> bytes \<Rightarrow> bool \<times> packer" where
  "packer_writeAny p v =
     (if pk_offset p + length v > length (pk_data p) then (False, p)
      else (True, \<lparr>pk_data = take (pk_offset p) (pk_data p) @ map Some v
                     @ drop (pk_offset p + length v) (pk_data p),
                   pk_offset = pk_offset p + length v\<rparr>))"

definition packer_writeUint8 :: "u8 \<Rightarrow> packer \<Rightarrow> packer" where
  "packer_writeUint8 v p = snd (packer_writeAny p [v])"

definition packer_writeUint16 :: "u16 \<Rightarrow> packer \<Rightarrow> packer" where
  "packer_writeUint16 v p = snd (packer_writeAny p [byte_of 0 v, byte_of 1 v])"

definition packer_writeAddr :: "ip4 \<Rightarrow> packer \<Rightarrow> packer" where
  "packer_writeAddr a p = snd (packer_writeAny p (ip_bytes a))"

definition packer_writeRaw :: "packer \<Rightarrow> bytes \<Rightarrow> nat \<Rightarrow> (bool \<times> packer) res" where
  "packer_writeRaw p v len =
     (if pk_offset p + len > length (pk_data p) then Inr (False, p)
      else rbind (rdn v 0 len) (\<lambda>bs. Inr (packer_writeAny p bs)))"

text \<open>\<open>ptr()\<close> hands the buffer to libuv, which sends all of it.\<close>

definition packer_ptr :: "packer \<Rightarrow> bytes res" where
  "packer_ptr p =
     (if None \<in> set (pk_data p) then Inl Uninitialised else Inr (map the (pk_data p)))"

text \<open>A read that does not fit leaves the variable as it is. The variables of the callers are
  not initialised, so using one after a failed read is a fault.\<close>

definition packer_readAny :: "packer \<Rightarrow> nat \<Rightarrow> (bytes \<times> packer) res" where
  "packer_readAny p n =
     (if pk_offset p + n > length (pk_data p) then Inl Uninitialised
      else rbind (packer_ptr \<lparr>pk_data = take n (drop (pk_offset p) (pk_data p)), pk_offset = 0\<rparr>) (\<lambda>v.
           Inr (v, p\<lparr>pk_offset := pk_offset p + n\<rparr>)))"

record unpacker =
  up_data :: bytes
  up_offset :: nat

definition unpacker_readAny :: "unpacker \<Rightarrow> nat \<Rightarrow> bytes option \<times> unpacker" where
  "unpacker_readAny u n =
     (if up_offset u + n > length (up_data u) then (None, u)
      else (Some (take n (drop (up_offset u) (up_data u))), u\<lparr>up_offset := up_offset u + n\<rparr>))"

definition bytes_ip :: "bytes \<Rightarrow> ip4" where
  "bytes_ip v = IP4 (v ! 0) (v ! 1) (v ! 2) (v ! 3)"

definition bytes_u16 :: "bytes \<Rightarrow> u16" where
  "bytes_u16 v = put_byte 0 (v ! 0) OR put_byte 1 (v ! 1)"

section \<open>Socks5Protocol\<close>

datatype err_code =
    VersionMismatch | UnexpectMethod | UnexpectResponse | UnexpectAddressType | UnexpectLength

datatype s5_request = Associate sockaddr_in | Connect sockaddr_in

text \<open>Which \<open>once\<close> handler for data is registered.\<close>

datatype s5_wait = Wait_auth | Wait_reply | Wait_none

record s5_proto =
  s5_req :: s5_request
  s5_connect_once :: bool
  s5_wait :: s5_wait

datatype s5_act =
    Tcp_connect slp_addr_in | Tcp_read | Tcp_write bytes | Tcp_stop | Tcp_close
  | On_error err_code | On_udp_ready sockaddr_in | On_ready

text \<open>\<open>associate\<close> and \<open>connect\<close> call \<open>auth\<close>, which connects and registers its handlers.\<close>

definition s5_start :: "slp_addr_in \<Rightarrow> s5_request \<Rightarrow> s5_proto \<times> s5_act list" where
  "s5_start server req =
     (\<lparr>s5_req = req, s5_connect_once = True, s5_wait = Wait_auth\<rparr>, [Tcp_connect server])"

definition s5_on_connect :: "s5_proto \<Rightarrow> (s5_proto \<times> s5_act list) res" where
  "s5_on_connect s =
     (if s5_connect_once s then
        rbind (packer_ptr
          (packer_writeUint8 0 (packer_writeUint8 1 (packer_writeUint8 5 (new_packer 3))))) (\<lambda>d.
        Inr (s\<lparr>s5_connect_once := False\<rparr>, [Tcp_read, Tcp_write d]))
      else Inr (s, []))"

text \<open>\<open>RASSERT\<close> reports the error, closes the handle and returns from the handler.\<close>

definition s5_fail :: "s5_proto \<Rightarrow> err_code \<Rightarrow> (s5_proto \<times> s5_act list) res" where
  "s5_fail s e = Inr (s\<lparr>s5_wait := Wait_none\<rparr>, [On_error e, Tcp_close])"

definition s5_request_packet :: "s5_request \<Rightarrow> bytes res" where
  "s5_request_packet req =
     (let (cmd, addr) = (case req of Associate a \<Rightarrow> (3, a) | Connect a \<Rightarrow> (1, a));
          p = packer_writeUint8 5 (new_packer 10);
          p = packer_writeUint8 cmd p;
          p = packer_writeUint8 0 p;
          p = packer_writeUint8 1 p;
          p = packer_writeAddr (sin_addr addr) p;
          p = packer_writeUint16 (sin_port addr) p
      in packer_ptr p)"

definition s5_on_auth :: "s5_proto \<Rightarrow> bytes \<Rightarrow> (s5_proto \<times> s5_act list) res" where
  "s5_on_auth s data =
     (if length data \<noteq> 2 then s5_fail s UnexpectLength
      else if data ! 0 \<noteq> 5 then s5_fail s VersionMismatch
      else if data ! 1 \<noteq> 0 then s5_fail s UnexpectMethod
      else rbind (s5_request_packet (s5_req s)) (\<lambda>d.
           Inr (s\<lparr>s5_wait := Wait_reply\<rparr>, [Tcp_write d])))"

definition s5_on_reply :: "s5_proto \<Rightarrow> bytes \<Rightarrow> (s5_proto \<times> s5_act list) res" where
  "s5_on_reply s data =
     (if length data \<noteq> 10 then s5_fail s UnexpectLength
      else
        rbind (packer_readAny (packer_on data) 1) (\<lambda>(ver, p).
        rbind (packer_readAny p 1) (\<lambda>(rep, p).
        rbind (packer_readAny p 1) (\<lambda>(rsv, p).
        rbind (packer_readAny p 1) (\<lambda>(atyp, p).
        rbind (packer_readAny p 4) (\<lambda>(addr, p).
        rbind (packer_readAny p 2) (\<lambda>(port, p).
        if ver ! 0 \<noteq> 5 then s5_fail s VersionMismatch
        else if rep ! 0 \<noteq> 0 then s5_fail s UnexpectResponse
        else if atyp ! 0 \<noteq> 1 then s5_fail s UnexpectAddressType
        else Inr (s\<lparr>s5_wait := Wait_none\<rparr>,
          case s5_req s of
            Associate _ \<Rightarrow> [On_udp_ready \<lparr>sin_addr = bytes_ip addr, sin_port = bytes_u16 port\<rparr>]
          | Connect _ \<Rightarrow> [Tcp_stop, On_ready]))))))))"

definition s5_on_data :: "s5_proto \<Rightarrow> bytes \<Rightarrow> (s5_proto \<times> s5_act list) res" where
  "s5_on_data s data =
     (case s5_wait s of
        Wait_auth \<Rightarrow> s5_on_auth s data
      | Wait_reply \<Rightarrow> s5_on_reply s data
      | Wait_none \<Rightarrow> Inr (s, []))"

section \<open>Socks5ProxyUdp\<close>

record socks5_udp =
  su_handle :: nat
  su_src :: ip4
  su_srcport :: u16
  su_expire_at :: "int option"
  su_server :: slp_addr_in
  su_isReady :: bool
  su_waiting :: "bytes option"
  su_protocol :: s5_proto
  su_tcp :: "s5_act list"

definition UDPHeaderSize :: nat where "UDPHeaderSize = 10"

text \<open>The constructor and \<open>init\<close>. Neither sets \<open>expire_at\<close>.\<close>

definition socks5_new ::
  "slp_addr_in \<Rightarrow> int \<Rightarrow> nat \<Rightarrow> ip4 \<Rightarrow> u16 \<Rightarrow> ip4 \<Rightarrow> u16 \<Rightarrow> socks5_udp" where
  "socks5_new server now h src srcport dst dstport =
     (let (proto, acts) =
        s5_start server (Associate \<lparr>sin_addr = IP4 0 0 0 0, sin_port = htons dstport\<rparr>)
      in \<lparr>su_handle = h, su_src = src, su_srcport = srcport, su_expire_at = None,
          su_server = server, su_isReady = False, su_waiting = None,
          su_protocol = proto, su_tcp = acts\<rparr>)"

definition socks5_visit :: "int \<Rightarrow> socks5_udp \<Rightarrow> socks5_udp" where
  "socks5_visit now u = u\<lparr>su_expire_at := Some (now + PROXY_UDP_TABLE_TTL)\<rparr>"

definition socks5_isExpire :: "int \<Rightarrow> socks5_udp \<Rightarrow> bool res" where
  "socks5_isExpire now u =
     (case su_expire_at u of None \<Rightarrow> Inl Uninitialised | Some t \<Rightarrow> Inr (t < now))"

definition socks5_encap :: "sockaddr_in \<Rightarrow> bytes \<Rightarrow> nat \<Rightarrow> bytes res" where
  "socks5_encap addr dat len =
     (let p = packer_writeUint16 0 (new_packer (UDPHeaderSize + len));
          p = packer_writeUint8 0 p;
          p = packer_writeUint8 1 p;
          p = packer_writeAddr (sin_addr addr) p;
          p = packer_writeUint16 (sin_port addr) p
      in rbind (packer_writeRaw p dat len) (\<lambda>(_, p). packer_ptr p))"

definition socks5_send ::
  "int \<Rightarrow> socks5_udp \<Rightarrow> sockaddr_in \<Rightarrow> bytes \<Rightarrow> nat \<Rightarrow> (socks5_udp \<times> udp_out list) res" where
  "socks5_send now u addr dat len =
     rbind (socks5_encap addr dat len) (\<lambda>packet.
     if su_isReady u then Inr (socks5_visit now u, [(su_handle u, su_server u, packet)])
     else Inr (socks5_visit now (u\<lparr>su_waiting := Some packet\<rparr>), []))"

definition socks5_ops :: "slp_addr_in \<Rightarrow> socks5_udp proxy_ops" where
  "socks5_ops server =
     \<lparr>px_new = socks5_new server, px_isExpire = socks5_isExpire, px_send = socks5_send\<rparr>"

text \<open>The callback given to \<open>onUDPReady\<close>.\<close>

definition socks5_udp_ready :: "int \<Rightarrow> socks5_udp \<Rightarrow> sockaddr_in \<Rightarrow> socks5_udp \<times> udp_out list" where
  "socks5_udp_ready now u addr =
     (let u1 = socks5_visit now (u\<lparr>su_server := Addr_v4 addr, su_isReady := True\<rparr>)
      in case su_waiting u1 of
           None \<Rightarrow> (u1, [])
         | Some d \<Rightarrow> (u1\<lparr>su_waiting := None\<rparr>, [(su_handle u1, su_server u1, d)]))"

fun socks5_acts :: "int \<Rightarrow> socks5_udp \<Rightarrow> s5_act list \<Rightarrow> socks5_udp \<times> udp_out list" where
  "socks5_acts now u [] = (u, [])"
| "socks5_acts now u (a # as) =
     (let (u1, o1) = (case a of On_udp_ready addr \<Rightarrow> socks5_udp_ready now u addr | _ \<Rightarrow> (u, []));
          (u2, o2) = socks5_acts now u1 as
      in (u2, o1 @ o2))"

text \<open>The events of the item's TCP handle.\<close>

definition socks5_on_tcp_connect :: "int \<Rightarrow> socks5_udp \<Rightarrow> (socks5_udp \<times> udp_out list) res" where
  "socks5_on_tcp_connect now u =
     rbind (s5_on_connect (su_protocol u)) (\<lambda>(proto, acts).
     Inr (socks5_acts now (u\<lparr>su_protocol := proto, su_tcp := su_tcp u @ acts\<rparr>) acts))"

definition socks5_on_tcp_data :: "int \<Rightarrow> socks5_udp \<Rightarrow> bytes \<Rightarrow> (socks5_udp \<times> udp_out list) res" where
  "socks5_on_tcp_data now u data =
     rbind (s5_on_data (su_protocol u) data) (\<lambda>(proto, acts).
     Inr (socks5_acts now (u\<lparr>su_protocol := proto, su_tcp := su_tcp u @ acts\<rparr>) acts))"

text \<open>The handler of a datagram from the proxy, up to the call of \<open>send_udp_ex\<close>: the sender's
  address and port, and the payload as pointer and length. \<open>None\<close> is the early return.\<close>

definition socks5_decap :: "bytes \<Rightarrow> (ip4 \<times> u16 \<times> bytes \<times> u16) option res" where
  "socks5_decap data =
     (let (rev, u) = unpacker_readAny \<lparr>up_data = data, up_offset = 0\<rparr> 2;
          (frag, u) = unpacker_readAny u 1;
          (atyp, u) = unpacker_readAny u 1
      in case atyp of
           None \<Rightarrow> Inl Uninitialised
         | Some t \<Rightarrow>
             if t ! 0 \<noteq> 1 then Inr None
             else
               let (addr, u) = unpacker_readAny u 4;
                   (port, u) = unpacker_readAny u 2
               in case (addr, port) of
                    (Some a, Some q) \<Rightarrow>
                      Inr (Some (bytes_ip a, htons (bytes_u16 q), drop UDPHeaderSize data,
                                 of_nat (length data) - of_nat UDPHeaderSize))
                  | _ \<Rightarrow> Inl Uninitialised)"

section \<open>Serialising\<close>

text \<open>A packer whose first bytes have been written and whose last \<open>n\<close> have not.\<close>

definition pk :: "bytes \<Rightarrow> nat \<Rightarrow> packer" where
  "pk bs n = \<lparr>pk_data = map Some bs @ replicate n None, pk_offset = length bs\<rparr>"

lemma new_packer_pk: "new_packer n = pk [] n"
  by (simp add: new_packer_def pk_def)

lemma writeAny_pk: "length v \<le> n \<Longrightarrow> packer_writeAny (pk bs n) v = (True, pk (bs @ v) (n - length v))"
  by (simp add: packer_writeAny_def pk_def)

lemma write_pk [simp]:
  "1 \<le> n \<Longrightarrow> packer_writeUint8 b (pk bs n) = pk (bs @ [b]) (n - 1)"
  "2 \<le> n \<Longrightarrow> packer_writeUint16 w (pk bs n) = pk (bs @ [byte_of 0 w, byte_of 1 w]) (n - 2)"
  "4 \<le> n \<Longrightarrow> packer_writeAddr a (pk bs n) = pk (bs @ ip_bytes a) (n - 4)"
  by (simp_all add: packer_writeUint8_def packer_writeUint16_def packer_writeAddr_def writeAny_pk
      numeral_2_eq_2)

lemma ptr_pk [simp]: "packer_ptr (pk bs 0) = Inr bs"
  by (simp add: packer_ptr_def pk_def comp_def)

lemma writeRaw_pk:
  "len \<le> length v \<Longrightarrow> packer_writeRaw (pk bs len) v len = Inr (True, pk (bs @ take len v) 0)"
  by (simp add: packer_writeRaw_def pk_def rdn_def packer_writeAny_def)

lemma writeRaw_pk_fault:
  "length v < len \<Longrightarrow> packer_writeRaw (pk bs len) v len = Inl Out_of_bounds"
  by (simp add: packer_writeRaw_def pk_def rdn_def)

lemma readAny_on:
  "off + n \<le> length data \<Longrightarrow>
   packer_readAny \<lparr>pk_data = map Some data, pk_offset = off\<rparr> n =
     Inr (take n (drop off data), \<lparr>pk_data = map Some data, pk_offset = off + n\<rparr>)"
proof -
  assume "off + n \<le> length data"
  moreover have "None \<notin> set (take n (drop off (map Some data)))"
    by (metis in_set_dropD in_set_takeD ex_map_conv option.distinct(1))
  moreover have "map the (take n (drop off (map Some data))) = take n (drop off data)"
    by (simp add: take_map drop_map comp_def)
  ultimately show ?thesis by (simp add: packer_readAny_def packer_ptr_def)
qed

text \<open>The datagram sent to a SOCKS server: RFC 1928's header for an IPv4 destination and no
  fragmentation, then the data.\<close>

lemma socks5_encap_eq:
  "len \<le> length dat \<Longrightarrow> socks5_encap addr dat len =
     Inr ([0, 0, 0, 1] @ ip_bytes (sin_addr addr) @ [byte_of 0 (sin_port addr), byte_of 1 (sin_port addr)]
          @ take len dat)"
  by (simp add: socks5_encap_def UDPHeaderSize_def new_packer_pk Let_def writeRaw_pk byte_of_def
      del: One_nat_def)

lemma socks5_encap_fault: "length dat < len \<Longrightarrow> socks5_encap addr dat len = Inl Out_of_bounds"
  by (simp add: socks5_encap_def UDPHeaderSize_def new_packer_pk Let_def writeRaw_pk_fault
      del: One_nat_def)

lemma s5_request_packet_eq:
  "s5_request_packet (Associate a) =
     Inr ([5, 3, 0, 1] @ ip_bytes (sin_addr a) @ [byte_of 0 (sin_port a), byte_of 1 (sin_port a)])"
  "s5_request_packet (Connect a) =
     Inr ([5, 1, 0, 1] @ ip_bytes (sin_addr a) @ [byte_of 0 (sin_port a), byte_of 1 (sin_port a)])"
  by (simp_all add: s5_request_packet_def new_packer_pk Let_def del: One_nat_def)

lemma bytes_ip_of [simp]: "bytes_ip (ip_bytes a) = a"
  by (cases a) (simp add: bytes_ip_def)

lemma bytes_u16_of [simp]: "bytes_u16 [byte_of 0 w, byte_of (Suc 0) w] = w"
  using bytes16 [of w] by (simp add: bytes_u16_def)

section \<open>The handshake\<close>

datatype s5_event = Ev_connected | Ev_data bytes

fun s5_run :: "s5_proto \<Rightarrow> s5_event list \<Rightarrow> (s5_proto \<times> s5_act list) res" where
  "s5_run s [] = Inr (s, [])"
| "s5_run s (e # es) =
     rbind (case e of Ev_connected \<Rightarrow> s5_on_connect s | Ev_data d \<Rightarrow> s5_on_data s d) (\<lambda>(s1, a1).
     rbind (s5_run s1 es) (\<lambda>(s2, a2). Inr (s2, a1 @ a2)))"

fun data_of :: "s5_event list \<Rightarrow> bytes list" where
  "data_of [] = []"
| "data_of (Ev_connected # es) = data_of es"
| "data_of (Ev_data d # es) = d # data_of es"

text \<open>The reply that grants an association.\<close>

definition grants :: "bytes \<Rightarrow> bool" where
  "grants rep \<longleftrightarrow> length rep = 10 \<and> rep ! 0 = 5 \<and> rep ! 1 = 0 \<and> rep ! 3 = 1"

definition granted_addr :: "bytes \<Rightarrow> sockaddr_in" where
  "granted_addr rep =
     \<lparr>sin_addr = bytes_ip (take 4 (drop 4 rep)), sin_port = bytes_u16 (take 2 (drop 8 rep))\<rparr>"

lemma on_reply_eq:
  "s5_on_reply s data =
     (if length data \<noteq> 10 then s5_fail s UnexpectLength
      else if data ! 0 \<noteq> 5 then s5_fail s VersionMismatch
      else if data ! 1 \<noteq> 0 then s5_fail s UnexpectResponse
      else if data ! 3 \<noteq> 1 then s5_fail s UnexpectAddressType
      else Inr (s\<lparr>s5_wait := Wait_none\<rparr>,
        case s5_req s of Associate _ \<Rightarrow> [On_udp_ready (granted_addr data)] | Connect _ \<Rightarrow> [Tcp_stop, On_ready]))"
proof (cases "length data = 10")
  case True
  then show ?thesis
    by (simp add: s5_on_reply_def packer_on_def readAny_on granted_addr_def del: One_nat_def
        split: s5_request.split)
qed (simp add: s5_on_reply_def)

lemma on_connect_eq:
  "s5_on_connect s = Inr (s\<lparr>s5_connect_once := False\<rparr>,
     if s5_connect_once s then [Tcp_read, Tcp_write [5, 1, 0]] else [])"
  by (simp add: s5_on_connect_def new_packer_pk del: One_nat_def)

lemma request_packet_returns: "\<exists>d. s5_request_packet r = Inr d"
  by (cases r) (simp_all add: s5_request_packet_eq)

lemma on_auth_eq:
  "\<exists>s' acts. s5_on_auth s data = Inr (s', acts) \<and> s5_req s' = s5_req s
     \<and> s5_wait s' = (if data = [5, 0] then Wait_reply else Wait_none)
     \<and> (\<forall>b. On_udp_ready b \<notin> set acts)"
proof -
  have "data = [5, 0] \<longleftrightarrow> length data = 2 \<and> data ! 0 = 5 \<and> data ! 1 = 0"
    by (auto simp: numeral_2_eq_2 length_Suc_conv)
  then show ?thesis
    using request_packet_returns [of "s5_req s"] by (auto simp: s5_on_auth_def s5_fail_def)
qed

lemma run_none:
  "s5_wait s = Wait_none \<Longrightarrow> \<exists>s' acts. s5_run s es = Inr (s', acts) \<and> (\<forall>b. On_udp_ready b \<notin> set acts)"
proof (induction es arbitrary: s)
  case (Cons e es)
  show ?case
  proof (cases e)
    case Ev_connected
    have "s5_wait (s\<lparr>s5_connect_once := False\<rparr>) = Wait_none" using Cons.prems by simp
    from Cons.IH [OF this] show ?thesis using Ev_connected by (auto simp: on_connect_eq)
  next
    case (Ev_data d)
    with Cons.IH [OF Cons.prems] Cons.prems show ?thesis by (auto simp: s5_on_data_def)
  qed
qed simp

lemma run_reply:
  "s5_wait s = Wait_reply \<Longrightarrow> s5_req s = Associate a \<Longrightarrow>
   \<exists>s' acts. s5_run s es = Inr (s', acts) \<and>
     (\<forall>b. On_udp_ready b \<in> set acts \<longleftrightarrow> (\<exists>rep rest. data_of es = rep # rest \<and> grants rep \<and> b = granted_addr rep))"
proof (induction es arbitrary: s)
  case (Cons e es)
  show ?case
  proof (cases e)
    case Ev_connected
    have "s5_wait (s\<lparr>s5_connect_once := False\<rparr>) = Wait_reply" "s5_req (s\<lparr>s5_connect_once := False\<rparr>) = Associate a"
      using Cons.prems by simp_all
    from Cons.IH [OF this] show ?thesis using Ev_connected by (auto simp: on_connect_eq)
  next
    case (Ev_data d)
    have "\<exists>s1 acts. s5_on_reply s d = Inr (s1, acts) \<and> s5_wait s1 = Wait_none
        \<and> (\<forall>b. On_udp_ready b \<in> set acts \<longleftrightarrow> grants d \<and> b = granted_addr d)"
      using Cons.prems by (simp add: on_reply_eq s5_fail_def grants_def)
    with run_none [of _ es] Cons.prems Ev_data show ?thesis
      by (fastforce simp: s5_on_data_def)
  qed
qed simp

lemma run_auth:
  "s5_wait s = Wait_auth \<Longrightarrow> s5_req s = Associate a \<Longrightarrow>
   \<exists>s' acts. s5_run s es = Inr (s', acts) \<and>
     (\<forall>b. On_udp_ready b \<in> set acts \<longleftrightarrow>
        (\<exists>rep rest. data_of es = [5, 0] # rep # rest \<and> grants rep \<and> b = granted_addr rep))"
proof (induction es arbitrary: s)
  case (Cons e es)
  show ?case
  proof (cases e)
    case Ev_connected
    have "s5_wait (s\<lparr>s5_connect_once := False\<rparr>) = Wait_auth" "s5_req (s\<lparr>s5_connect_once := False\<rparr>) = Associate a"
      using Cons.prems by simp_all
    from Cons.IH [OF this] show ?thesis using Ev_connected by (auto simp: on_connect_eq)
  next
    case (Ev_data d)
    obtain s1 a1 where 1: "s5_on_auth s d = Inr (s1, a1)" "s5_req s1 = Associate a"
      "s5_wait s1 = (if d = [5, 0] then Wait_reply else Wait_none)" "\<forall>b. On_udp_ready b \<notin> set a1"
      using on_auth_eq [of s d] Cons.prems by auto
    show ?thesis
    proof (cases "d = [5, 0]")
      case True
      with run_reply [of s1 a es] 1 Cons.prems Ev_data show ?thesis
        by (auto simp: s5_on_data_def)
    next
      case False
      with run_none [of s1 es] 1 Cons.prems Ev_data show ?thesis
        by (auto simp: s5_on_data_def)
    qed
  qed
qed simp


section \<open>The SOCKS5 proxy satisfies the contract of the table\<close>

definition su_good :: "socks5_udp \<Rightarrow> bool" where
  "su_good u \<longleftrightarrow> su_expire_at u \<noteq> None"

definition su_expiry :: "socks5_udp \<Rightarrow> int" where
  "su_expiry u = the (su_expire_at u)"

interpretation socks5: proxy_item "socks5_ops server" su_good su_expiry su_handle
proof unfold_locales
  fix len :: nat and data :: bytes and now u addr
  assume "len \<le> length data"
  then show "\<exists>u' out. px_send (socks5_ops server) now u addr data len = Inr (u', out)
      \<and> su_good u' \<and> su_expiry u' = now + PROXY_UDP_TABLE_TTL \<and> su_handle u' = su_handle u"
    by (simp add: socks5_ops_def socks5_send_def socks5_visit_def socks5_encap_eq su_good_def su_expiry_def)
qed (auto simp: socks5_ops_def socks5_isExpire_def socks5_new_def s5_start_def socks5_send_def
      socks5_encap_fault su_good_def su_expiry_def)

text \<open>Although a new SOCKS5 session is created with no expiry time, no sequence of datagrams and
  collector runs on a fresh table ever reads an uninitialised expiry time, or faults in any other
  way, and no two inner endpoints share a session.\<close>

theorem socks5_table_runs:
  assumes "\<forall>e \<in> set es. event_fits e"
  shows "\<exists>p out. proxy_run (socks5_ops server) proxy_empty es = Inr (p, out) \<and>
    (\<forall>k u. map_of (cacheTable p) k = Some u \<longrightarrow> su_expire_at u \<noteq> None) \<and>
    (\<forall>k u k' u'. map_of (cacheTable p) k = Some u \<longrightarrow> map_of (cacheTable p) k' = Some u' \<longrightarrow>
       su_handle u = su_handle u' \<longrightarrow> k = k')"
  using socks5.run_spec [OF socks5.table_ok_empty socks5.handles_ok_empty assms, of server]
  unfolding socks5.handles_ok_def socks5.table_ok_def su_good_def by blast

theorem socks5_table_runs_witness:
  "\<exists>p out. proxy_run (socks5_ops (Addr_v4 \<lparr>sin_addr = IP4 127 0 0 1, sin_port = htons 1080\<rparr>)) proxy_empty
      [Ev_send 100 (IP4 10 13 0 2) 5000 (IP4 8 8 8 8) 53 [1, 2, 3] 3, Ev_gc 110,
       Ev_send 140 (IP4 10 13 0 2) 5000 (IP4 8 8 8 8) 53 [4] 1] = Inr (p, out) \<and>
    (\<forall>k u. map_of (cacheTable p) k = Some u \<longrightarrow> su_expire_at u \<noteq> None) \<and>
    (\<forall>k u k' u'. map_of (cacheTable p) k = Some u \<longrightarrow> map_of (cacheTable p) k' = Some u' \<longrightarrow>
       su_handle u = su_handle u' \<longrightarrow> k = k')"
  by (rule socks5_table_runs) simp

section \<open>Encapsulation\<close>

lemma decap_encap:
  assumes "length d < 65526"
  shows "socks5_decap ([0, 0, 0, 1] @ ip_bytes a @ [byte_of 0 q, byte_of 1 q] @ d) =
    Inr (Some (a, htons q, d, of_nat (length d)))"
proof -
  obtain w x y z where "a = IP4 w x y z" by (cases a)
  then show ?thesis
    using bytes_u16_of [of q]
    by (simp add: socks5_decap_def unpacker_readAny_def UDPHeaderSize_def bytes_ip_def numeral_eq_Suc)
qed

text \<open>C19: A session whose handshake is finished sends each datagram to the granted relay address,
  and what it sends decodes, by the same header layout that is used for the datagrams coming
  back, to the destination address, the destination port and the data.\<close>

theorem socks5_send_decap:
  assumes "su_isReady u" and "len \<le> length dat" and "len < 65526"
  shows "\<exists>u' packet. socks5_send now u \<lparr>sin_addr = dst, sin_port = htons dstport\<rparr> dat len =
      Inr (u', [(su_handle u, su_server u, packet)]) \<and>
    socks5_decap packet = Inr (Some (dst, dstport, take len dat, of_nat len))"
  using assms decap_encap [of "take len dat" dst "htons dstport"]
  by (simp add: socks5_send_def socks5_encap_eq min_absorb2)

theorem socks5_send_decap_witness:
  "\<exists>u' packet. socks5_send 7 ((socks5_new (Addr_v6 [] 0) 0 3 NONE_IP 0 NONE_IP 0)\<lparr>su_isReady := True\<rparr>)
      \<lparr>sin_addr = IP4 8 8 8 8, sin_port = htons 53\<rparr> [1, 2, 3] 2 =
      Inr (u', [(3, Addr_v6 [] 0, packet)]) \<and>
    socks5_decap packet = Inr (Some (IP4 8 8 8 8, 53, take 2 [1, 2, 3], of_nat 2))"
  using socks5_send_decap [of "(socks5_new (Addr_v6 [] 0) 0 3 NONE_IP 0 NONE_IP 0)\<lparr>su_isReady := True\<rparr>"
      2 "[1, 2, 3]" 7 "IP4 8 8 8 8" 53]
  by (simp add: socks5_new_def s5_start_def)

section \<open>Datagrams before the handshake is finished\<close>

lemma socks5_send_waiting:
  "\<not> su_isReady u \<Longrightarrow> len \<le> length dat \<Longrightarrow>
     \<exists>packet. socks5_encap addr dat len = Inr packet \<and>
       socks5_send now u addr dat len = Inr (socks5_visit now (u\<lparr>su_waiting := Some packet\<rparr>), [])"
  by (simp add: socks5_send_def socks5_encap_eq)

text \<open>Of the datagrams an endpoint sends while its SOCKS5 handshake is under way, the last one
  alone is kept: two sends before the grant put nothing on the wire, and the grant releases the
  second datagram, to the granted address; the first is lost.\<close>

theorem socks5_waiting_keeps_last:
  assumes "\<not> su_isReady u" and "len1 \<le> length d1" and "len2 \<le> length d2"
    and "su_protocol u = \<lparr>s5_req = Associate a, s5_connect_once = c, s5_wait = Wait_reply\<rparr>"
    and "grants rep"
  shows "\<exists>u1 u2 u3 packet. socks5_send t1 u addr1 d1 len1 = Inr (u1, []) \<and>
    socks5_send t2 u1 addr2 d2 len2 = Inr (u2, []) \<and>
    socks5_encap addr2 d2 len2 = Inr packet \<and>
    socks5_on_tcp_data t3 u2 rep = Inr (u3, [(su_handle u, Addr_v4 (granted_addr rep), packet)]) \<and>
    su_waiting u3 = None"
  using assms
  by (simp add: socks5_send_def socks5_encap_eq socks5_visit_def socks5_on_tcp_data_def s5_on_data_def
      on_reply_eq grants_def socks5_udp_ready_def Let_def)

theorem socks5_waiting_keeps_last_witness:
  "\<exists>u1 u2 u3 packet.
    socks5_send 1 ((socks5_new (Addr_v6 [] 0) 0 3 NONE_IP 0 NONE_IP 0)
      \<lparr>su_protocol := \<lparr>s5_req = Associate \<lparr>sin_addr = NONE_IP, sin_port = 0\<rparr>, s5_connect_once = False, s5_wait = Wait_reply\<rparr>\<rparr>)
      \<lparr>sin_addr = IP4 8 8 8 8, sin_port = 53\<rparr> [1] 1 = Inr (u1, []) \<and>
    socks5_send 2 u1 \<lparr>sin_addr = IP4 8 8 8 8, sin_port = 53\<rparr> [2] 1 = Inr (u2, []) \<and>
    socks5_encap \<lparr>sin_addr = IP4 8 8 8 8, sin_port = 53\<rparr> [2] 1 = Inr packet \<and>
    socks5_on_tcp_data 3 u2 [5, 0, 0, 1, 127, 0, 0, 1, 4, 56] =
      Inr (u3, [(3, Addr_v4 (granted_addr [5, 0, 0, 1, 127, 0, 0, 1, 4, 56]), packet)]) \<and>
    su_waiting u3 = None"
  using socks5_waiting_keeps_last
    [of "(socks5_new (Addr_v6 [] 0) 0 3 NONE_IP 0 NONE_IP 0)
      \<lparr>su_protocol := \<lparr>s5_req = Associate \<lparr>sin_addr = NONE_IP, sin_port = 0\<rparr>, s5_connect_once = False, s5_wait = Wait_reply\<rparr>\<rparr>"
      1 "[1]" 1 "[2]" "\<lparr>sin_addr = NONE_IP, sin_port = 0\<rparr>" False "[5, 0, 0, 1, 127, 0, 0, 1, 4, 56]"
      1 "\<lparr>sin_addr = IP4 8 8 8 8, sin_port = 53\<rparr>" 2 "\<lparr>sin_addr = IP4 8 8 8 8, sin_port = 53\<rparr>" 3]
  by (simp add: socks5_new_def s5_start_def grants_def)

end
