(* ===== verification/Gateway.thy ===== *)
theory Gateway
  imports Socks5
begin

text \<open>
  The entry of \<open>gateway.cpp\<close>: an IPv4 packet addressed to the client's own hardware address but
  not to its subnet. UDP goes to the proxy, everything else into the lwIP stack through
  \<open>uvl_input\<close> of \<open>uv_lwip.c\<close>. The datagrams the proxy sent and the packets lwIP was given are
  logs of the gateway's state.
\<close>

section \<open>State\<close>

datatype proxy = Direct_proxy "direct_udp proxy_base" | Socks5_proxy slp_addr_in "socks5_udp proxy_base"

record gateway =
  gw_proxy :: proxy
  gw_fake_internet :: bool
  gw_udp_log :: "udp_out list"
  gw_lwip_log :: "bytes list"

definition IPV4_OFF_VER_LEN :: nat where "IPV4_OFF_VER_LEN = 0"
definition IPV4_OFF_DSCP_ECN :: nat where "IPV4_OFF_DSCP_ECN = 1"
definition IPV4_OFF_TOTAL_LEN :: nat where "IPV4_OFF_TOTAL_LEN = 2"
definition IPV4_OFF_ID :: nat where "IPV4_OFF_ID = 4"
definition IPV4_OFF_FLAGS_FRAG_OFFSET :: nat where "IPV4_OFF_FLAGS_FRAG_OFFSET = 6"
definition IPV4_OFF_TTL :: nat where "IPV4_OFF_TTL = 8"
definition IPV4_OFF_PROTOCOL :: nat where "IPV4_OFF_PROTOCOL = 9"
definition IPV4_OFF_CHECKSUM :: nat where "IPV4_OFF_CHECKSUM = 10"
definition IPV4_OFF_SRC :: nat where "IPV4_OFF_SRC = 12"
definition IPV4_OFF_DST :: nat where "IPV4_OFF_DST = 16"
definition IPV4_OFF_END :: nat where "IPV4_OFF_END = 20"
definition IPV4_PROTOCOL_ICMP :: u8 where "IPV4_PROTOCOL_ICMP = 1"
definition IPV4_PROTOCOL_UDP :: u8 where "IPV4_PROTOCOL_UDP = 17"
definition UDP_OFF_SRCPORT :: nat where "UDP_OFF_SRCPORT = 0"
definition UDP_OFF_DSTPORT :: nat where "UDP_OFF_DSTPORT = 2"
definition UDP_OFF_LENGTH :: nat where "UDP_OFF_LENGTH = 4"
definition UDP_OFF_CHECKSUM :: nat where "UDP_OFF_CHECKSUM = 6"
definition UDP_OFF_END :: nat where "UDP_OFF_END = 8"
definition ETHER_OFF_END :: nat where "ETHER_OFF_END = 14"

lemmas ipv4_offsets = IPV4_OFF_VER_LEN_def IPV4_OFF_DSCP_ECN_def IPV4_OFF_TOTAL_LEN_def
  IPV4_OFF_ID_def IPV4_OFF_FLAGS_FRAG_OFFSET_def IPV4_OFF_TTL_def IPV4_OFF_PROTOCOL_def
  IPV4_OFF_CHECKSUM_def IPV4_OFF_SRC_def IPV4_OFF_DST_def IPV4_OFF_END_def

lemmas udp_offsets = UDP_OFF_SRCPORT_def UDP_OFF_DSTPORT_def UDP_OFF_LENGTH_def
  UDP_OFF_CHECKSUM_def UDP_OFF_END_def

section \<open>Operations\<close>

fun proxy_udpSend ::
  "int \<Rightarrow> proxy \<Rightarrow> ip4 \<Rightarrow> u16 \<Rightarrow> ip4 \<Rightarrow> u16 \<Rightarrow> bytes \<Rightarrow> u16 \<Rightarrow> (proxy \<times> udp_out list) res" where
  "proxy_udpSend t (Direct_proxy p) src srcport dst dstport data len =
     rbind (udpSend direct_ops t p src srcport dst dstport data len) (\<lambda>(p', out). Inr (Direct_proxy p', out))"
| "proxy_udpSend t (Socks5_proxy cfg p) src srcport dst dstport data len =
     rbind (udpSend (socks5_ops cfg) t p src srcport dst dstport data len) (\<lambda>(p', out).
     Inr (Socks5_proxy cfg p', out))"

text \<open>\<open>setProxy\<close> as \<open>gateway_init\<close> calls it.\<close>

definition setProxy :: "slp_addr_in option \<Rightarrow> proxy" where
  "setProxy socks5_proxy_addr =
     (case socks5_proxy_addr of
        Some a \<Rightarrow> Socks5_proxy a proxy_empty
      | None \<Rightarrow> Direct_proxy proxy_empty)"

definition gateway_init :: "bool \<Rightarrow> slp_addr_in option \<Rightarrow> gateway" where
  "gateway_init fake_internet socks5_proxy_addr =
     \<lparr>gw_proxy = setProxy socks5_proxy_addr, gw_fake_internet = fake_internet,
      gw_udp_log = [], gw_lwip_log = []\<rparr>"

text \<open>The result of \<open>processUdp\<close>: 0 when the packet was given to the proxy, else -1.\<close>

definition processUdp :: "env \<Rightarrow> gateway \<Rightarrow> bytes \<Rightarrow> int \<Rightarrow> (int \<times> gateway) res" where
  "processUdp E g data data_len =
     rbind (if data_len > 0 then rbind (rd data 0) (\<lambda>b. Inr (drop_bit 4 b)) else Inr 0) (\<lambda>ip_version.
     if ip_version = 4 then
       rbind (if data_len < int IPV4_OFF_END then Inr True
              else rbind (rd data IPV4_OFF_PROTOCOL) (\<lambda>b. Inr (b \<noteq> IPV4_PROTOCOL_UDP))) (\<lambda>skip.
       if skip then Inr (-1, g)
       else
         rbind (rd data 0) (\<lambda>b0.
         let ipv4_header_len = unat (b0 AND 0xF) * 4;
             udp_base = drop ipv4_header_len data in
         rbind (CPY_IPV4 data IPV4_OFF_SRC) (\<lambda>src.
         rbind (CPY_IPV4 data IPV4_OFF_DST) (\<lambda>dst.
         rbind (READ_NET16 udp_base UDP_OFF_SRCPORT) (\<lambda>srcport.
         rbind (READ_NET16 udp_base UDP_OFF_DSTPORT) (\<lambda>dstport.
         let payload = drop UDP_OFF_END udp_base;
             len = of_int (data_len - int ipv4_header_len - int UDP_OFF_END) in
         rbind (proxy_udpSend (clock E) (gw_proxy g) src srcport dst dstport payload len) (\<lambda>(p, out).
         Inr (0, g\<lparr>gw_proxy := p, gw_udp_log := gw_udp_log g @ out\<rparr>))))))))
     else Inr (-1, g))"

text \<open>\<open>uvl_input\<close>: a packet buffer takes a 16-bit length. The packet lwIP is given, if any.\<close>

definition uvl_input :: "env \<Rightarrow> bytes \<Rightarrow> int \<Rightarrow> (int \<times> bytes list) res" where
  "uvl_input E base len =
     (let n = of_int len :: u16 in
      if \<not> pbuf_ok E n then Inr (-1, [])
      else rbind (rdn base 0 (unat n)) (\<lambda>p.
           if netif_input_rc E p \<noteq> 0 then Inr (-1, [p]) else Inr (0, [p])))"

definition gateway_onPacket :: "env \<Rightarrow> gateway \<Rightarrow> bytes \<Rightarrow> int \<Rightarrow> gateway res" where
  "gateway_onPacket E g data data_len =
     rbind (processUdp E g data data_len) (\<lambda>(r, g1).
     if r = 0 then Inr g1
     else rbind (uvl_input E data data_len) (\<lambda>(_, ps).
          Inr (g1\<lparr>gw_lwip_log := gw_lwip_log g1 @ ps\<rparr>)))"

definition gateway_on_packet :: "env \<Rightarrow> gateway \<Rightarrow> bytes \<Rightarrow> int \<Rightarrow> gateway res" where
  "gateway_on_packet E g data data_len =
     gateway_onPacket E g (drop ETHER_OFF_END data) (data_len - int ETHER_OFF_END)"

section \<open>What a gateway keeps\<close>

fun proxy_ok :: "proxy \<Rightarrow> bool" where
  "proxy_ok (Direct_proxy p) = (direct.table_ok p \<and> direct.handles_ok p)"
| "proxy_ok (Socks5_proxy cfg p) = (socks5.table_ok p \<and> socks5.handles_ok p)"

lemma proxy_ok_init [simp]: "proxy_ok (setProxy a)"
  by (cases a) (simp_all add: setProxy_def direct.table_ok_empty direct.handles_ok_empty
      socks5.table_ok_empty socks5.handles_ok_empty)

lemma proxy_udpSend_ok:
  assumes "proxy_ok p" and "unat len \<le> length data"
  shows "\<exists>p' out. proxy_udpSend t p src srcport dst dstport data len = Inr (p', out) \<and> proxy_ok p'"
proof (cases p)
  case (Direct_proxy q)
  with direct.step_spec [of q "Ev_send t src srcport dst dstport data len"] assms
  show ?thesis by auto
next
  case (Socks5_proxy cfg q)
  with socks5.step_spec [of q "Ev_send t src srcport dst dstport data len" cfg] assms
  show ?thesis by auto
qed

text \<open>An IPv4 packet whose headers are inside its length and whose length is inside its memory.\<close>

definition ip_header_len :: "bytes \<Rightarrow> nat" where
  "ip_header_len data = unat (data ! 0 AND 0xF) * 4"

lemma ip_header_len_less: "ip_header_len data \<le> 60"
proof -
  have "unat (data ! 0 AND 0xF) \<le> unat (0xF :: u8)"
    by (rule word_le_nat_alt [THEN iffD1]) (simp add: word_and_le1)
  then show ?thesis by (simp add: ip_header_len_def)
qed

definition gateway_packet :: "bytes \<Rightarrow> bool" where
  "gateway_packet data \<longleftrightarrow> ip_header_len data + 8 \<le> length data \<and> 20 \<le> length data \<and> length data < 65536"

text \<open>The fields of such a packet.\<close>

definition pkt_src :: "bytes \<Rightarrow> ip4" where
  "pkt_src data = IP4 (data ! 12) (data ! 13) (data ! 14) (data ! 15)"

definition pkt_dst :: "bytes \<Rightarrow> ip4" where
  "pkt_dst data = IP4 (data ! 16) (data ! 17) (data ! 18) (data ! 19)"

definition pkt_srcport :: "bytes \<Rightarrow> u16" where
  "pkt_srcport data = be16 (data ! ip_header_len data) (data ! (ip_header_len data + 1))"

definition pkt_dstport :: "bytes \<Rightarrow> u16" where
  "pkt_dstport data = be16 (data ! (ip_header_len data + 2)) (data ! (ip_header_len data + 3))"

definition pkt_is_udp :: "bytes \<Rightarrow> bool" where
  "pkt_is_udp data \<longleftrightarrow> drop_bit 4 (data ! 0) = (4 :: u8) \<and> data ! 9 = 17"

definition pkt_udp_payload :: "bytes \<Rightarrow> bytes" where
  "pkt_udp_payload data = drop (ip_header_len data + 8) data"

definition pkt_udp_len :: "bytes \<Rightarrow> u16" where
  "pkt_udp_len data = of_nat (length (pkt_udp_payload data))"

lemma pkt_udp_len: "gateway_packet data \<Longrightarrow> unat (pkt_udp_len data) = length (pkt_udp_payload data)"
  unfolding pkt_udp_len_def gateway_packet_def
  by (rule unat_of_nat_u16) (simp add: pkt_udp_payload_def less_imp_diff_less)

lemma processUdp_udp:
  assumes "gateway_packet data" and "pkt_is_udp data"
  shows "processUdp E g data (int (length data)) =
    rbind (proxy_udpSend (clock E) (gw_proxy g) (pkt_src data) (pkt_srcport data)
        (pkt_dst data) (pkt_dstport data) (pkt_udp_payload data) (pkt_udp_len data))
      (\<lambda>(p, out). Inr (0, g\<lparr>gw_proxy := p, gw_udp_log := gw_udp_log g @ out\<rparr>))"
proof -
  have len: "20 \<le> length data" "ip_header_len data + 8 \<le> length data"
    using assms(1) by (simp_all add: gateway_packet_def)
  then have "int (length data) - int (ip_header_len data) - 8 = int (length (pkt_udp_payload data))"
    by (simp add: pkt_udp_payload_def)
  then have eq: "of_int (int (length data) - int (ip_header_len data) - 8) = pkt_udp_len data"
    by (simp only: of_int_of_nat_eq pkt_udp_len_def)
  have ne: "data \<noteq> []" using len by auto
  have "ip_header_len data = unat (data ! 0 AND 0xF) * 4" by (simp add: ip_header_len_def)
  then show ?thesis
    using len assms(2) ne
    unfolding processUdp_def ipv4_offsets udp_offsets IPV4_PROTOCOL_UDP_def pkt_is_udp_def Let_def
    by (simp add: mem_simps pkt_src_def pkt_dst_def pkt_srcport_def pkt_dstport_def
        pkt_udp_payload_def add.commute numeral_3_eq_3 flip: eq)
qed

lemma processUdp_other:
  assumes "gateway_packet data" and "\<not> pkt_is_udp data"
  shows "processUdp E g data (int (length data)) = Inr (-1, g)"
proof -
  have "data \<noteq> []" "20 \<le> length data" using assms(1) by (auto simp: gateway_packet_def)
  with assms(2) show ?thesis
    by (auto simp: processUdp_def ipv4_offsets IPV4_PROTOCOL_UDP_def mem_simps pkt_is_udp_def)
qed

lemma uvl_input_eq:
  "length data < 65536 \<Longrightarrow> uvl_input E data (int (length data)) =
     Inr (if pbuf_ok E (of_nat (length data))
          then (if netif_input_rc E data \<noteq> 0 then -1 else 0, [data]) else (-1, []))"
  by (simp add: uvl_input_def Let_def unat_of_nat_u16 rdn_def)

lemma gateway_on_packet_cases:
  assumes "gateway_packet data" and "length eth = 14"
  shows "gateway_on_packet E g (eth @ data) (int (length (eth @ data))) =
    (if pkt_is_udp data then
       rbind (proxy_udpSend (clock E) (gw_proxy g) (pkt_src data) (pkt_srcport data)
           (pkt_dst data) (pkt_dstport data) (pkt_udp_payload data) (pkt_udp_len data))
         (\<lambda>(p, out). Inr (g\<lparr>gw_proxy := p, gw_udp_log := gw_udp_log g @ out\<rparr>))
     else Inr (g\<lparr>gw_lwip_log := gw_lwip_log g @ (if pbuf_ok E (of_nat (length data)) then [data] else [])\<rparr>))"
proof -
  have len: "int (length (eth @ data)) - int ETHER_OFF_END = int (length data)"
    and d: "drop ETHER_OFF_END (eth @ data) = data"
    using assms(2) by (simp_all add: ETHER_OFF_END_def)
  have "length data < 65536" using assms(1) by (simp add: gateway_packet_def)
  then show ?thesis
    unfolding gateway_on_packet_def gateway_onPacket_def len d
    by (auto simp: processUdp_udp [OF assms(1)] processUdp_other [OF assms(1)] uvl_input_eq rbind_assoc
        intro!: arg_cong2 [where f = rbind])
qed

text \<open>The gateway on a packet with a well-formed header: it never faults, whatever the packet
  carries, and its proxy table stays well-formed.\<close>

lemma gateway_on_packet_ok:
  assumes "proxy_ok (gw_proxy g)" and "gateway_packet data" and "length eth = 14"
  shows "\<exists>g'. gateway_on_packet E g (eth @ data) (int (length (eth @ data))) = Inr g' \<and> proxy_ok (gw_proxy g')"
proof -
  have fits: "unat (pkt_udp_len data) \<le> length (pkt_udp_payload data)"
    using pkt_udp_len [OF assms(2)] by simp
  show ?thesis
    using proxy_udpSend_ok [OF assms(1) fits, of "clock E" "pkt_src data" "pkt_srcport data" "pkt_dst data" "pkt_dstport data"] assms(1)
    unfolding gateway_on_packet_cases [OF assms(2,3)] by auto
qed


definition example_env :: env where
  "example_env = \<lparr>clock = 100, ndebug = False, udp_send_rc = (\<lambda>_. 0), pbuf_ok = (\<lambda>_. True),
     netif_input_rc = (\<lambda>_. 0)\<rparr>"

definition example_udp_packet :: bytes where
  "example_udp_packet =
     [0x45, 0, 0, 30, 0, 1, 0, 0, 64, 17, 0, 0, 10, 13, 0, 2, 8, 8, 8, 8, 0x13, 0x88, 0, 53, 0, 10, 0, 0, 7, 9]"


end
