(* ===== verification/State.thy ===== *)
theory State
  imports Pcaploop Gateway
begin

text \<open>
  The state of the client: the structures of \<open>packet.h\<close>, \<open>arp.h\<close> and \<open>lan-play.h\<close>. The
  program has one \<open>struct lan_play\<close>, whose member \<open>packet_ctx\<close> points back to it through
  \<open>arg\<close>; a function of the sources that takes either pointer is a function on the whole record
  here. A field keeps its width. The field \<open>lp_udp_log\<close> is not in the source: it records the
  destination and the bytes of every \<open>uv_udp_send\<close> to the relay, in order.
\<close>

definition ARP_CACHE_LEN :: nat where "ARP_CACHE_LEN = 100"
definition BUFFER_SIZE :: nat where "BUFFER_SIZE = 2048"
definition ETHER_MTU :: nat where "ETHER_MTU = 1500"
definition MIN_FRAG_PAYLOAD_LEN :: int where "MIN_FRAG_PAYLOAD_LEN = 500"
definition LC_FRAG_COUNT :: nat where "LC_FRAG_COUNT = 100"
definition CLIENT_RECV_BUF_LEN :: nat where "CLIENT_RECV_BUF_LEN = 4096"
definition LP_KEY_LEN :: nat where "LP_KEY_LEN = 20"

record arp_item =
  ai_ip :: ip4
  ai_mac :: mac6
  ai_expire_at :: int

record packet_ctx =
  pc_buffer :: bytes
  pc_buffer_len :: nat
  pc_ip :: ip4
  pc_subnet_net :: ip4
  pc_subnet_mask :: ip4
  pc_mac :: mac6
  pc_identification :: u16
  pc_arp_list :: "arp_item list"
  pc_arp_ttl :: int
  pc_upload_byte :: u64
  pc_download_byte :: u64
  pc_upload_packet :: u64
  pc_download_packet :: u64

record lan_client_fragment =
  fr_local_id :: u16
  fr_src :: ip4
  fr_id :: u16
  fr_part :: u8
  fr_used :: u8
  fr_total_len :: u16
  fr_buffer :: bytes

record lan_play =
  lp_packet_ctx :: packet_ctx
  lp_pcap :: uv_pcap
  lp_client_buf :: bytes
  lp_pmtu :: int
  lp_broadcast :: bool
  lp_next_real_broadcast :: bool
  lp_frag_id :: int
  lp_local_id :: int
  lp_server_addr :: slp_addr_in
  lp_frags :: "lan_client_fragment list"
  lp_username :: "bytes option"
  lp_key :: bytes
  lp_gateway :: gateway
  lp_upload_byte :: u64
  lp_download_byte :: u64
  lp_upload_packet :: u64
  lp_download_packet :: u64
  lp_udp_log :: "(slp_addr_in \<times> bytes) list"

abbreviation ctx_map :: "(packet_ctx \<Rightarrow> packet_ctx) \<Rightarrow> lan_play \<Rightarrow> lan_play" where
  "ctx_map f lp \<equiv> lp\<lparr>lp_packet_ctx := f (lp_packet_ctx lp)\<rparr>"

text \<open>Frames and packets taken apart.\<close>

record ether_frame =
  ef_raw :: bytes
  ef_raw_len :: u16
  ef_dst :: mac6
  ef_src :: mac6
  ef_type :: u16
  ef_payload :: bytes

record ipv4 =
  v4_ether :: ether_frame
  v4_version :: u8
  v4_header_len :: u8
  v4_dscp :: u8
  v4_ecn :: u8
  v4_total_len :: u16
  v4_identification :: u16
  v4_flags :: u8
  v4_fragment_offset :: u16
  v4_ttl :: u8
  v4_protocol :: u8
  v4_checksum :: u16
  v4_src :: ip4
  v4_dst :: ip4
  v4_payload :: bytes

record udp =
  ud_ipv4 :: ipv4
  ud_srcport :: u16
  ud_dstport :: u16
  ud_length :: u16
  ud_checksum :: u16
  ud_payload :: bytes

record arp =
  ar_hardware_type :: u16
  ar_protocol_type :: u16
  ar_hardware_size :: u8
  ar_protocol_size :: u8
  ar_opcode :: u16
  ar_sender_mac :: mac6
  ar_sender_ip :: ip4
  ar_target_mac :: mac6
  ar_target_ip :: ip4

text \<open>A chain of payloads, linked by \<open>next\<close> in the source, is a list.\<close>

record payload =
  pl_ptr :: bytes
  pl_len :: u16

section \<open>The well-formed states\<close>

text \<open>What holds of the sizes of the arrays and of the parts that other components keep.\<close>

definition lp_inv :: "lan_play \<Rightarrow> bool" where
  "lp_inv lp \<longleftrightarrow>
     pcap_inv (lp_pcap lp) \<and> proxy_ok (gw_proxy (lp_gateway lp)) \<and>
     pc_buffer_len (lp_packet_ctx lp) = BUFFER_SIZE \<and>
     length (pc_buffer (lp_packet_ctx lp)) = BUFFER_SIZE \<and>
     length (pc_arp_list (lp_packet_ctx lp)) = ARP_CACHE_LEN \<and>
     length (lp_frags lp) = LC_FRAG_COUNT \<and>
     (\<forall>f \<in> set (lp_frags lp). length (fr_buffer f) = ETHER_MTU) \<and>
     length (lp_client_buf lp) = CLIENT_RECV_BUF_LEN \<and>
     length (lp_key lp) = LP_KEY_LEN"

lemma lp_invD:
  assumes "lp_inv lp"
  shows "pcap_inv (lp_pcap lp)" "proxy_ok (gw_proxy (lp_gateway lp))"
    "pc_buffer_len (lp_packet_ctx lp) = 2048" "length (pc_buffer (lp_packet_ctx lp)) = 2048"
    "length (pc_arp_list (lp_packet_ctx lp)) = 100" "length (lp_frags lp) = 100"
    "f \<in> set (lp_frags lp) \<Longrightarrow> length (fr_buffer f) = 1500"
    "length (lp_client_buf lp) = 4096" "length (lp_key lp) = 20"
  using assms
  by (simp_all add: lp_inv_def BUFFER_SIZE_def ARP_CACHE_LEN_def LC_FRAG_COUNT_def ETHER_MTU_def
      CLIENT_RECV_BUF_LEN_def LP_KEY_LEN_def)

end
