(* ===== verification/Packet.thy ===== *)
theory Packet
  imports State
begin

text \<open>
  \<open>packet.c\<close>: the gathering of a chain of payloads into the send buffer and its hand-over to the
  interfaces, Ethernet headers, initialisation. Every operation that can send is a function from
  a state to a result and a state.
\<close>

definition ETHER_OFF_DST :: nat where "ETHER_OFF_DST = 0"
definition ETHER_OFF_SRC :: nat where "ETHER_OFF_SRC = 6"
definition ETHER_OFF_TYPE :: nat where "ETHER_OFF_TYPE = 12"
definition ETHER_HEADER_LEN :: nat where "ETHER_HEADER_LEN = 14"
definition ETHER_TYPE_ARP :: u16 where "ETHER_TYPE_ARP = 0x0806"
definition ETHER_TYPE_IPV4 :: u16 where "ETHER_TYPE_IPV4 = 0x0800"

lemmas ether_offsets = ETHER_OFF_DST_def ETHER_OFF_SRC_def ETHER_OFF_TYPE_def ETHER_HEADER_LEN_def
  ETHER_OFF_END_def

type_synonym 'a op = "lan_play \<Rightarrow> ('a \<times> lan_play) res"

section \<open>Operations\<close>

fun payload_total_len :: "payload list \<Rightarrow> u16" where
  "payload_total_len [] = 0"
| "payload_total_len (p # ps) = pl_len p + payload_total_len ps"

definition lan_play_send_packet :: "bytes \<Rightarrow> nat \<Rightarrow> lan_play \<Rightarrow> (int \<times> bytes \<times> lan_play) res" where
  "lan_play_send_packet data len lp =
     rbind (uv_pcap_sendpacket (lp_pcap lp) data len) (\<lambda>(ret, data', pcap).
     Inr (ret, data', lp\<lparr>lp_pcap := pcap\<rparr>))"

text \<open>The loop of \<open>send_payloads\<close>: the send buffer and the total length, or no length when a part
  does not fit and \<open>assert\<close> is compiled out.\<close>

fun send_payloads_loop ::
  "env \<Rightarrow> nat \<Rightarrow> payload list \<Rightarrow> bytes \<Rightarrow> nat \<Rightarrow> u16 \<Rightarrow> (bytes \<times> u16 option) res" where
  "send_payloads_loop E buffer_len [] buffer pos total_len = Inr (buffer, Some total_len)"
| "send_payloads_loop E buffer_len (part # ps) buffer pos total_len =
     (if pos + unat (pl_len part) \<ge> buffer_len then
        if ndebug E then Inr (buffer, None) else Inl Assert_failed
      else
        rbind (rdn (pl_ptr part) 0 (unat (pl_len part))) (\<lambda>s.
        rbind (wrn buffer pos s) (\<lambda>buffer'.
        send_payloads_loop E buffer_len ps buffer' (pos + unat (pl_len part)) (total_len + pl_len part))))"

definition send_payloads :: "env \<Rightarrow> payload list \<Rightarrow> int op" where
  "send_payloads E payload lp =
     rbind (send_payloads_loop E (pc_buffer_len (lp_packet_ctx lp)) payload
              (pc_buffer (lp_packet_ctx lp)) 0 0) (\<lambda>(buffer, gathered).
     case gathered of
       None \<Rightarrow> Inr (-1, ctx_map (\<lambda>c. c\<lparr>pc_buffer := buffer\<rparr>) lp)
     | Some total_len \<Rightarrow>
         let lp1 = ctx_map (\<lambda>c. c\<lparr>pc_upload_packet := pc_upload_packet c + 1,
                                   pc_upload_byte := pc_upload_byte c + ucast total_len\<rparr>) lp in
         rbind (lan_play_send_packet buffer (unat total_len) lp1) (\<lambda>(ret, buffer', lp2).
         Inr (ret, ctx_map (\<lambda>c. c\<lparr>pc_buffer := buffer'\<rparr>) lp2)))"

text \<open>A header array on the stack, before it is filled.\<close>

definition stack_array :: "nat \<Rightarrow> bytes" where
  "stack_array n = replicate n 0"

definition send_ether_ex :: "env \<Rightarrow> mac6 \<Rightarrow> mac6 \<Rightarrow> u16 \<Rightarrow> payload list \<Rightarrow> int op" where
  "send_ether_ex E dst src type payload =
     (let buffer = stack_array ETHER_HEADER_LEN;
          buffer = PUT_MAC buffer ETHER_OFF_DST dst;
          buffer = PUT_MAC buffer ETHER_OFF_SRC src;
          buffer = WRITE_NET16 buffer ETHER_OFF_TYPE type;
          part = \<lparr>pl_ptr = buffer, pl_len = of_nat ETHER_HEADER_LEN\<rparr>
      in send_payloads E (part # payload))"

definition send_ether :: "env \<Rightarrow> mac6 \<Rightarrow> u16 \<Rightarrow> payload list \<Rightarrow> int op" where
  "send_ether E dst type payload lp =
     send_ether_ex E dst (pc_mac (lp_packet_ctx lp)) type payload lp"

definition AnyMac :: mac6 where "AnyMac = MAC6 0xff 0xff 0xff 0xff 0xff 0xff"

definition arp_list_init :: "arp_item list" where
  "arp_list_init = replicate ARP_CACHE_LEN \<lparr>ai_ip = NONE_IP, ai_mac = NONE_MAC, ai_expire_at = 0\<rparr>"

definition packet_init :: "bytes \<Rightarrow> nat \<Rightarrow> ip4 \<Rightarrow> ip4 \<Rightarrow> ip4 \<Rightarrow> int \<Rightarrow> packet_ctx" where
  "packet_init buffer buffer_len ip subnet_net subnet_mask arp_ttl =
     \<lparr>pc_buffer = buffer, pc_buffer_len = buffer_len, pc_ip = ip, pc_subnet_net = subnet_net,
      pc_subnet_mask = subnet_mask, pc_mac = AnyMac, pc_identification = 0,
      pc_arp_list = arp_list_init, pc_arp_ttl = arp_ttl, pc_upload_byte = 0,
      pc_download_byte = 0, pc_upload_packet = 0, pc_download_packet = 0\<rparr>"

definition packet_set_mac :: "mac6 \<Rightarrow> lan_play \<Rightarrow> lan_play" where
  "packet_set_mac mac lp = ctx_map (\<lambda>c. c\<lparr>pc_mac := mac\<rparr>) lp"

definition parse_ether :: "bytes \<Rightarrow> u16 \<Rightarrow> ether_frame res" where
  "parse_ether packet len =
     rbind (CPY_MAC packet ETHER_OFF_DST) (\<lambda>dst.
     rbind (CPY_MAC packet ETHER_OFF_SRC) (\<lambda>src.
     rbind (READ_NET16 packet ETHER_OFF_TYPE) (\<lambda>type.
     Inr \<lparr>ef_raw = packet, ef_raw_len = len, ef_dst = dst, ef_src = src, ef_type = type,
          ef_payload = drop ETHER_OFF_END packet\<rparr>)))"

section \<open>Chains of payloads\<close>

definition payload_ok :: "payload \<Rightarrow> bool" where
  "payload_ok p \<longleftrightarrow> unat (pl_len p) \<le> length (pl_ptr p)"

definition payload_bytes :: "payload \<Rightarrow> bytes" where
  "payload_bytes p = take (unat (pl_len p)) (pl_ptr p)"

definition chain_bytes :: "payload list \<Rightarrow> bytes" where
  "chain_bytes ps = concat (map payload_bytes ps)"

lemma chain_bytes_simps [simp]:
  "chain_bytes [] = []" "chain_bytes (p # ps) = payload_bytes p @ chain_bytes ps"
  by (simp_all add: chain_bytes_def)

lemma length_payload_bytes [simp]: "payload_ok p \<Longrightarrow> length (payload_bytes p) = unat (pl_len p)"
  by (simp add: payload_ok_def payload_bytes_def)

lemma payload_total_len_chain:
  "list_all payload_ok ps \<Longrightarrow> payload_total_len ps = of_nat (length (chain_bytes ps))"
  by (induction ps) simp_all

lemma rdn_payload: "payload_ok p \<Longrightarrow> rdn (pl_ptr p) 0 (unat (pl_len p)) = Inr (payload_bytes p)"
  by (simp add: payload_ok_def payload_bytes_def rdn_def)

text \<open>A chain that fits is gathered in order.\<close>

lemma send_payloads_loop_eq:
  "list_all payload_ok ps \<Longrightarrow> pos + length (chain_bytes ps) < n \<Longrightarrow> n \<le> length buffer \<Longrightarrow>
   send_payloads_loop E n ps buffer pos tot =
     Inr (take pos buffer @ chain_bytes ps @ drop (pos + length (chain_bytes ps)) buffer,
          Some (tot + of_nat (length (chain_bytes ps))))"
proof (induction ps arbitrary: buffer pos tot)
  case (Cons p ps)
  then have p: "payload_ok p" "pos + unat (pl_len p) < n" by simp_all
  let ?b = "take pos buffer @ payload_bytes p @ drop (pos + unat (pl_len p)) buffer"
  have "wrn buffer pos (payload_bytes p) = Inr ?b"
    using p Cons.prems by (simp add: wrn_def)
  moreover have "length ?b = length buffer" using p Cons.prems by simp
  moreover have "take (pos + unat (pl_len p)) ?b = take pos buffer @ payload_bytes p"
    using p Cons.prems by simp
  ultimately show ?case
    using Cons.IH [of "pos + unat (pl_len p)" ?b "tot + pl_len p"] Cons.prems p
    by (simp add: rdn_payload ac_simps)
qed simp

text \<open>A chain that does not fit stops the program, or the operation if \<open>assert\<close> is compiled
  out.\<close>

lemma send_payloads_loop_too_large:
  "list_all payload_ok ps \<Longrightarrow> n \<le> pos + length (chain_bytes ps) \<Longrightarrow> pos < n \<Longrightarrow> n \<le> length buffer \<Longrightarrow>
   (if ndebug E
    then \<exists>b. send_payloads_loop E n ps buffer pos tot = Inr (b, None) \<and> length b = length buffer
    else send_payloads_loop E n ps buffer pos tot = Inl Assert_failed)"
proof (induction ps arbitrary: buffer pos tot)
  case (Cons p ps)
  then have p: "payload_ok p" by simp
  show ?case
  proof (cases "pos + unat (pl_len p) \<ge> n")
    case False
    let ?b = "take pos buffer @ payload_bytes p @ drop (pos + unat (pl_len p)) buffer"
    have "wrn buffer pos (payload_bytes p) = Inr ?b" "length ?b = length buffer"
      using p Cons.prems False by (simp_all add: wrn_def)
    then show ?thesis
      using Cons.IH [of "pos + unat (pl_len p)" ?b "tot + pl_len p"] Cons.prems p False
      by (simp add: rdn_payload split: if_splits)
  qed simp
qed simp

section \<open>What sending a frame does\<close>

definition ether_header :: "mac6 \<Rightarrow> mac6 \<Rightarrow> u16 \<Rightarrow> bytes" where
  "ether_header dst src type = mac_bytes dst @ mac_bytes src @ [hi8 type, lo8 type]"

lemma length_ether_header [simp]: "length (ether_header dst src type) = 14"
  by (simp add: ether_header_def)

lemma frame_src_ether [simp]: "frame_src (ether_header dst src type @ rest) = src"
  by (cases dst; cases src) (simp add: frame_src_def ether_header_def)

text \<open>The frame goes to the interfaces its source address routes to, is counted, and stays in the
  send buffer.\<close>

definition frame_sent :: "bytes \<Rightarrow> lan_play \<Rightarrow> lan_play" where
  "frame_sent frame lp =
     lp\<lparr>lp_pcap := (lp_pcap lp)\<lparr>pcap_log := pcap_log (lp_pcap lp) @
            emitted (route (lp_pcap lp) (frame_src frame)) frame (length frame)\<rparr>,
        lp_packet_ctx := (lp_packet_ctx lp)
          \<lparr>pc_buffer := frame @ drop (length frame) (pc_buffer (lp_packet_ctx lp)),
           pc_upload_packet := pc_upload_packet (lp_packet_ctx lp) + 1,
           pc_upload_byte := pc_upload_byte (lp_packet_ctx lp) + of_nat (length frame)\<rparr>\<rparr>"

lemma frame_sent_fields [simp]:
  "lp_client_buf (frame_sent f lp) = lp_client_buf lp"
  "lp_pmtu (frame_sent f lp) = lp_pmtu lp"
  "lp_broadcast (frame_sent f lp) = lp_broadcast lp"
  "lp_next_real_broadcast (frame_sent f lp) = lp_next_real_broadcast lp"
  "lp_frag_id (frame_sent f lp) = lp_frag_id lp"
  "lp_local_id (frame_sent f lp) = lp_local_id lp"
  "lp_server_addr (frame_sent f lp) = lp_server_addr lp"
  "lp_frags (frame_sent f lp) = lp_frags lp"
  "lp_username (frame_sent f lp) = lp_username lp"
  "lp_key (frame_sent f lp) = lp_key lp"
  "lp_gateway (frame_sent f lp) = lp_gateway lp"
  "lp_udp_log (frame_sent f lp) = lp_udp_log lp"
  "pc_ip (lp_packet_ctx (frame_sent f lp)) = pc_ip (lp_packet_ctx lp)"
  "pc_subnet_net (lp_packet_ctx (frame_sent f lp)) = pc_subnet_net (lp_packet_ctx lp)"
  "pc_subnet_mask (lp_packet_ctx (frame_sent f lp)) = pc_subnet_mask (lp_packet_ctx lp)"
  "pc_mac (lp_packet_ctx (frame_sent f lp)) = pc_mac (lp_packet_ctx lp)"
  "pc_identification (lp_packet_ctx (frame_sent f lp)) = pc_identification (lp_packet_ctx lp)"
  "pc_arp_list (lp_packet_ctx (frame_sent f lp)) = pc_arp_list (lp_packet_ctx lp)"
  "pc_arp_ttl (lp_packet_ctx (frame_sent f lp)) = pc_arp_ttl (lp_packet_ctx lp)"
  "if_map (lp_pcap (frame_sent f lp)) = if_map (lp_pcap lp)"
  "interfaces (lp_pcap (frame_sent f lp)) = interfaces (lp_pcap lp)"
  by (simp_all add: frame_sent_def)

lemma lp_inv_frame_sent [simp]: "lp_inv lp \<Longrightarrow> length f \<le> 2048 \<Longrightarrow> lp_inv (frame_sent f lp)"
  by (simp add: lp_inv_def frame_sent_def BUFFER_SIZE_def)

lemma emitted_prefix: "12 \<le> length f \<Longrightarrow> emitted hs (f @ rest) (length f) = emitted hs f (length f)"
  by (simp add: emitted_def with_src_def)

lemma frame_src_prefix: "12 \<le> length f \<Longrightarrow> frame_src (f @ rest) = frame_src f"
  by (simp add: frame_src_def nth_append)

lemma send_payloads_eq:
  assumes "lp_inv lp" and "list_all payload_ok ps" and "12 \<le> length (chain_bytes ps)"
    and "length (chain_bytes ps) < 2048"
  shows "send_payloads E ps lp = Inr (0, frame_sent (chain_bytes ps) lp)"
proof -
  let ?f = "chain_bytes ps" and ?c = "lp_packet_ctx lp"
  let ?b = "?f @ drop (length ?f) (pc_buffer ?c)"
  note inv = lp_invD [OF assms(1)]
  have loop: "send_payloads_loop E 2048 ps (pc_buffer ?c) 0 0 = Inr (?b, Some (of_nat (length ?f)))"
    using send_payloads_loop_eq [of ps 0 2048 "pc_buffer ?c" E 0] assms inv by simp
  have len: "unat (of_nat (length ?f) :: u16) = length ?f"
    using assms(4) by (simp add: unat_of_nat_u16)
  have "12 \<le> length ?b" "length ?f \<le> length ?b" using assms(3) by simp_all
  from sendpacket_eq [OF inv(1) this]
  have "uv_pcap_sendpacket (lp_pcap lp) ?b (length ?f) =
      Inr (0, ?b, (lp_pcap lp)\<lparr>pcap_log := pcap_log (lp_pcap lp) @ emitted (route (lp_pcap lp) (frame_src ?f)) ?f (length ?f)\<rparr>)"
    unfolding frame_src_prefix [OF assms(3)] emitted_prefix [OF assms(3)] .
  then show ?thesis
    using len assms(4)
    by (simp add: send_payloads_def inv loop Let_def lan_play_send_packet_def frame_sent_def
        ucast_of_nat_u64)
qed

lemma ether_header_built:
  "WRITE_NET16 (PUT_MAC (PUT_MAC (stack_array ETHER_HEADER_LEN) ETHER_OFF_DST dst) ETHER_OFF_SRC src)
     ETHER_OFF_TYPE type = ether_header dst src type"
  by (cases dst; cases src)
    (simp add: ether_offsets stack_array_def ether_header_def WRITE_NET16_eq numeral_eq_Suc)

lemma send_ether_ex_eq:
  assumes "lp_inv lp" and "list_all payload_ok ps" and "14 + length (chain_bytes ps) < 2048"
  shows "send_ether_ex E dst src type ps lp = Inr (0, frame_sent (ether_header dst src type @ chain_bytes ps) lp)"
proof -
  let ?h = "\<lparr>pl_ptr = ether_header dst src type, pl_len = of_nat ETHER_HEADER_LEN\<rparr>"
  have h: "payload_ok ?h" "payload_bytes ?h = ether_header dst src type"
    by (simp_all add: payload_ok_def payload_bytes_def ETHER_HEADER_LEN_def)
  then show ?thesis
    using send_payloads_eq [OF assms(1), of "?h # ps" E] assms(2,3)
    unfolding send_ether_ex_def Let_def ether_header_built by simp
qed

lemma send_ether_eq:
  assumes "lp_inv lp" and "list_all payload_ok ps" and "14 + length (chain_bytes ps) < 2048"
  shows "send_ether E dst type ps lp =
    Inr (0, frame_sent (ether_header dst (pc_mac (lp_packet_ctx lp)) type @ chain_bytes ps) lp)"
  by (simp add: send_ether_def send_ether_ex_eq [OF assms])

lemma send_ether_too_large:
  assumes "lp_inv lp" and "list_all payload_ok ps" and "2048 \<le> 14 + length (chain_bytes ps)"
  shows "if ndebug E
    then \<exists>b. send_ether E dst type ps lp = Inr (-1, ctx_map (\<lambda>c. c\<lparr>pc_buffer := b\<rparr>) lp) \<and> length b = 2048
    else send_ether E dst type ps lp = Inl Assert_failed"
proof -
  let ?s = "pc_mac (lp_packet_ctx lp)"
  let ?h = "\<lparr>pl_ptr = ether_header dst ?s type, pl_len = of_nat ETHER_HEADER_LEN\<rparr>"
  have h: "payload_ok ?h" "payload_bytes ?h = ether_header dst ?s type"
    by (simp_all add: payload_ok_def payload_bytes_def ETHER_HEADER_LEN_def)
  show ?thesis
    using send_payloads_loop_too_large [of "?h # ps" 2048 0 "pc_buffer (lp_packet_ctx lp)" E 0]
      assms h lp_invD [OF assms(1)]
    unfolding send_ether_def send_ether_ex_def Let_def ether_header_built send_payloads_def
    by (auto split: if_splits simp del: send_payloads_loop.simps)
qed

text \<open>Taking a frame apart gives back what was put together.\<close>

lemma parse_ether_header:
  "parse_ether (ether_header dst src type @ rest) n =
     Inr \<lparr>ef_raw = ether_header dst src type @ rest, ef_raw_len = n, ef_dst = dst, ef_src = src,
          ef_type = type, ef_payload = rest\<rparr>"
  by (cases dst; cases src)
    (simp add: parse_ether_def ether_offsets ether_header_def mem_simps numeral_eq_Suc)

lemma parse_ether_eq:
  "14 \<le> length p \<Longrightarrow> \<exists>dst src type. p = ether_header dst src type @ drop 14 p"
proof -
  assume len: "14 \<le> length p"
  have "p = take 14 p @ drop 14 p" by simp
  moreover have "take 14 p = ether_header (MAC6 (p ! 0) (p ! 1) (p ! 2) (p ! 3) (p ! 4) (p ! 5))
      (MAC6 (p ! 6) (p ! 7) (p ! 8) (p ! 9) (p ! 10) (p ! 11)) (be16 (p ! 12) (p ! 13))"
    using len by (intro nth_equalityI) (auto simp: ether_header_def numeral_eq_Suc less_Suc_eq)
  ultimately show ?thesis by metis
qed

section \<open>What sending leaves alone\<close>

text \<open>Two states that differ only in the packet context and the frames sent.\<close>

definition only_ctx :: "lan_play \<Rightarrow> lan_play \<Rightarrow> bool" where
  "only_ctx a b \<longleftrightarrow> b = a\<lparr>lp_packet_ctx := lp_packet_ctx b, lp_pcap := lp_pcap b\<rparr>"

lemma only_ctxI [intro]:
  "only_ctx a a" "only_ctx a (frame_sent f a)" "only_ctx a (a\<lparr>lp_packet_ctx := c\<rparr>)" "only_ctx a (a\<lparr>lp_pcap := p\<rparr>)"
  by (simp_all add: only_ctx_def frame_sent_def)

lemma only_ctx_trans [trans]: "only_ctx a b \<Longrightarrow> only_ctx b c \<Longrightarrow> only_ctx a c"
  by (cases a; cases b; cases c) (simp add: only_ctx_def)

lemma only_ctxD:
  assumes "only_ctx a b"
  shows "lp_client_buf b = lp_client_buf a" "lp_pmtu b = lp_pmtu a"
    "lp_next_real_broadcast b = lp_next_real_broadcast a"
    "lp_frag_id b = lp_frag_id a" "lp_local_id b = lp_local_id a" "lp_server_addr b = lp_server_addr a"
    "lp_frags b = lp_frags a" "lp_username b = lp_username a" "lp_key b = lp_key a"
    "lp_gateway b = lp_gateway a" "lp_udp_log b = lp_udp_log a"
  using assms by (cases a; cases b; simp add: only_ctx_def)+

section \<open>A concrete state\<close>

text \<open>The client after its initialisation, with one interface and relay 192.0.2.1:11451, for
  examples.\<close>

definition empty_frag :: lan_client_fragment where
  "empty_frag = \<lparr>fr_local_id = 0, fr_src = NONE_IP, fr_id = 0, fr_part = 0, fr_used = 0, fr_total_len = 0,
     fr_buffer = replicate ETHER_MTU 0\<rparr>"

definition example_lp :: lan_play where
  "example_lp =
     \<lparr>lp_packet_ctx = (packet_init (replicate BUFFER_SIZE 0) BUFFER_SIZE (IP4 10 13 37 1) (IP4 10 13 0 0)
        (IP4 255 255 0 0) 30)\<lparr>pc_mac := MAC6 2 0 0 0 0 1\<rparr>,
      lp_pcap = \<lparr>if_map = Map.empty, interfaces = [\<lparr>if_dev = 0, if_mac = MAC6 2 0 0 0 0 1\<rparr>], pcap_log = []\<rparr>,
      lp_client_buf = replicate CLIENT_RECV_BUF_LEN 0, lp_pmtu = 0, lp_broadcast = False,
      lp_next_real_broadcast = True, lp_frag_id = 0, lp_local_id = 0,
      lp_server_addr = Addr_v4 \<lparr>sin_addr = IP4 192 0 2 1, sin_port = htons 11451\<rparr>,
      lp_frags = replicate LC_FRAG_COUNT empty_frag, lp_username = None,
      lp_key = replicate LP_KEY_LEN 0, lp_gateway = gateway_init False None,
      lp_upload_byte = 0, lp_download_byte = 0, lp_upload_packet = 0, lp_download_packet = 0,
      lp_udp_log = []\<rparr>"

lemma example_lp_inv: "lp_inv example_lp"
  by (simp add: lp_inv_def example_lp_def packet_init_def arp_list_init_def empty_frag_def pcap_inv_def
      gateway_init_def)

lemma example_lp_fields [simp]:
  "pc_ip (lp_packet_ctx example_lp) = IP4 10 13 37 1"
  "pc_subnet_net (lp_packet_ctx example_lp) = IP4 10 13 0 0"
  "pc_subnet_mask (lp_packet_ctx example_lp) = IP4 255 255 0 0"
  "pc_mac (lp_packet_ctx example_lp) = MAC6 2 0 0 0 0 1"
  "pc_arp_list (lp_packet_ctx example_lp) = arp_list_init"
  "pc_arp_ttl (lp_packet_ctx example_lp) = 30"
  "pc_identification (lp_packet_ctx example_lp) = 0"
  "lp_frags example_lp = replicate LC_FRAG_COUNT empty_frag"
  "lp_frag_id example_lp = 0" "lp_local_id example_lp = 0" "lp_pmtu example_lp = 0"
  "lp_udp_log example_lp = []" "lp_gateway example_lp = gateway_init False None"
  "lp_next_real_broadcast example_lp"
  by (simp_all add: example_lp_def packet_init_def)

end
