(* ===== verification/Arp.thy ===== *)
theory Arp
  imports Packet
begin

text \<open>
  \<open>arp.c\<close>: the cache of hardware addresses, a fixed array whose entries live for
  \<open>arp_ttl\<close> seconds, the ARP packets the client sends and its answers to requests. What the
  rest of the client relies on from the cache is the locale \<open>soft_cache\<close>: a table of entries
  with a time to live, in which an insertion is visible until it expires and disturbs no other
  live entry.
\<close>

definition ARP_OFF_HARDWARE :: nat where "ARP_OFF_HARDWARE = 0"
definition ARP_OFF_PROTOCOL :: nat where "ARP_OFF_PROTOCOL = 2"
definition ARP_OFF_HARDWARE_SIZE :: nat where "ARP_OFF_HARDWARE_SIZE = 4"
definition ARP_OFF_PROTOCOL_SIZE :: nat where "ARP_OFF_PROTOCOL_SIZE = 5"
definition ARP_OFF_OPCODE :: nat where "ARP_OFF_OPCODE = 6"
definition ARP_OFF_SENDER_MAC :: nat where "ARP_OFF_SENDER_MAC = 8"
definition ARP_OFF_SENDER_IP :: nat where "ARP_OFF_SENDER_IP = 14"
definition ARP_OFF_TARGET_MAC :: nat where "ARP_OFF_TARGET_MAC = 18"
definition ARP_OFF_TARGET_IP :: nat where "ARP_OFF_TARGET_IP = 24"
definition ARP_LEN :: nat where "ARP_LEN = 28"
definition ARP_HARDTYPE_ETHER :: u16 where "ARP_HARDTYPE_ETHER = 1"
definition ARP_OPCODE_REQUEST :: u8 where "ARP_OPCODE_REQUEST = 1"
definition ARP_OPCODE_REPLY :: u8 where "ARP_OPCODE_REPLY = 2"

lemmas arp_offsets = ARP_OFF_HARDWARE_def ARP_OFF_PROTOCOL_def ARP_OFF_HARDWARE_SIZE_def
  ARP_OFF_PROTOCOL_SIZE_def ARP_OFF_OPCODE_def ARP_OFF_SENDER_MAC_def ARP_OFF_SENDER_IP_def
  ARP_OFF_TARGET_MAC_def ARP_OFF_TARGET_IP_def ARP_LEN_def

section \<open>Packets\<close>

definition parse_arp :: "ether_frame \<Rightarrow> arp res" where
  "parse_arp ether =
     (let packet = ef_payload ether in
      rbind (READ_NET16 packet ARP_OFF_HARDWARE) (\<lambda>hardware_type.
      rbind (READ_NET16 packet ARP_OFF_PROTOCOL) (\<lambda>protocol_type.
      rbind (READ_NET8 packet ARP_OFF_HARDWARE_SIZE) (\<lambda>hardware_size.
      rbind (READ_NET8 packet ARP_OFF_PROTOCOL_SIZE) (\<lambda>protocol_size.
      rbind (READ_NET16 packet ARP_OFF_OPCODE) (\<lambda>opcode.
      rbind (CPY_MAC packet ARP_OFF_SENDER_MAC) (\<lambda>sender_mac.
      rbind (CPY_IPV4 packet ARP_OFF_SENDER_IP) (\<lambda>sender_ip.
      rbind (CPY_MAC packet ARP_OFF_TARGET_MAC) (\<lambda>target_mac.
      rbind (CPY_IPV4 packet ARP_OFF_TARGET_IP) (\<lambda>target_ip.
      Inr \<lparr>ar_hardware_type = hardware_type, ar_protocol_type = protocol_type,
           ar_hardware_size = hardware_size, ar_protocol_size = protocol_size,
           ar_opcode = opcode, ar_sender_mac = sender_mac, ar_sender_ip = sender_ip,
           ar_target_mac = target_mac, ar_target_ip = target_ip\<rparr>))))))))))"

definition send_arp_ex :: "env \<Rightarrow> mac6 \<Rightarrow> u8 \<Rightarrow> mac6 \<Rightarrow> ip4 \<Rightarrow> mac6 \<Rightarrow> ip4 \<Rightarrow> int op" where
  "send_arp_ex E dst_mac opcode sender_mac sender_ip target_mac target_ip =
     (let buffer = stack_array ARP_LEN;
          buffer = WRITE_NET16 buffer ARP_OFF_HARDWARE ARP_HARDTYPE_ETHER;
          buffer = WRITE_NET16 buffer ARP_OFF_PROTOCOL ETHER_TYPE_IPV4;
          buffer = WRITE_NET8 buffer ARP_OFF_HARDWARE_SIZE 6;
          buffer = WRITE_NET8 buffer ARP_OFF_PROTOCOL_SIZE 4;
          buffer = WRITE_NET16 buffer ARP_OFF_OPCODE (ucast opcode);
          buffer = PUT_MAC buffer ARP_OFF_SENDER_MAC sender_mac;
          buffer = PUT_IPV4 buffer ARP_OFF_SENDER_IP sender_ip;
          buffer = PUT_MAC buffer ARP_OFF_TARGET_MAC target_mac;
          buffer = PUT_IPV4 buffer ARP_OFF_TARGET_IP target_ip;
          part = \<lparr>pl_ptr = buffer, pl_len = of_nat ARP_LEN\<rparr>
      in send_ether E dst_mac ETHER_TYPE_ARP [part])"

definition send_arp :: "env \<Rightarrow> u8 \<Rightarrow> mac6 \<Rightarrow> ip4 \<Rightarrow> mac6 \<Rightarrow> ip4 \<Rightarrow> int op" where
  "send_arp E opcode sender_mac sender_ip target_mac target_ip =
     send_arp_ex E target_mac opcode sender_mac sender_ip target_mac target_ip"

definition send_arp_request :: "env \<Rightarrow> ip4 \<Rightarrow> int op" where
  "send_arp_request E target_ip lp =
     send_arp_ex E BROADCAST_MAC ARP_OPCODE_REQUEST (pc_mac (lp_packet_ctx lp))
       (pc_ip (lp_packet_ctx lp)) NONE_MAC target_ip lp"

section \<open>The cache\<close>

text \<open>The entry the lookups stop at, and the slot \<open>arp_set\<close> writes to.\<close>

definition arp_live :: "int \<Rightarrow> ip4 \<Rightarrow> arp_item \<Rightarrow> bool" where
  "arp_live t ip item \<longleftrightarrow> CMP_IPV4 (ai_ip item) ip \<and> ai_expire_at item > t"

definition arp_slot :: "int \<Rightarrow> ip4 \<Rightarrow> arp_item \<Rightarrow> bool" where
  "arp_slot t ip item \<longleftrightarrow>
     CMP_IPV4 (ai_ip item) NONE_IP \<or> CMP_IPV4 (ai_ip item) ip \<or> ai_expire_at item < t"

definition arp_list_get :: "int \<Rightarrow> ip4 \<Rightarrow> arp_item list \<Rightarrow> mac6 option" where
  "arp_list_get t ip xs = map_option (\<lambda>i. ai_mac (xs ! i)) (find_index (arp_live t ip) xs)"

definition arp_list_set :: "int \<Rightarrow> int \<Rightarrow> mac6 \<Rightarrow> ip4 \<Rightarrow> arp_item list \<Rightarrow> bool \<times> arp_item list" where
  "arp_list_set ttl t mac ip xs =
     (case find_index (arp_slot t ip) xs of
        Some i \<Rightarrow> (True, xs[i := \<lparr>ai_ip = ip, ai_mac = mac, ai_expire_at = t + ttl\<rparr>])
      | None \<Rightarrow> (False, xs))"

definition arp_has_ip :: "env \<Rightarrow> ip4 \<Rightarrow> lan_play \<Rightarrow> bool" where
  "arp_has_ip E ip lp = (arp_list_get (clock E) ip (pc_arp_list (lp_packet_ctx lp)) \<noteq> None)"

text \<open>The address found, or none after a request for it has been broadcast.\<close>

definition arp_get_mac_by_ip :: "env \<Rightarrow> ip4 \<Rightarrow> mac6 option op" where
  "arp_get_mac_by_ip E ip lp =
     (case arp_list_get (clock E) ip (pc_arp_list (lp_packet_ctx lp)) of
        Some mac \<Rightarrow> Inr (Some mac, lp)
      | None \<Rightarrow> rbind (send_arp_request E ip lp) (\<lambda>(_, lp'). Inr (None, lp')))"

definition arp_set :: "env \<Rightarrow> mac6 \<Rightarrow> ip4 \<Rightarrow> lan_play \<Rightarrow> bool \<times> lan_play" where
  "arp_set E mac ip lp =
     (let c = lp_packet_ctx lp;
          (r, xs) = arp_list_set (pc_arp_ttl c) (clock E) mac ip (pc_arp_list c)
      in (r, lp\<lparr>lp_packet_ctx := c\<lparr>pc_arp_list := xs\<rparr>\<rparr>))"

fun arp_for_each_loop :: "env \<Rightarrow> (arp_item \<Rightarrow> int op) \<Rightarrow> nat list \<Rightarrow> lan_play \<Rightarrow> lan_play res" where
  "arp_for_each_loop E cb [] lp = Inr lp"
| "arp_for_each_loop E cb (i # is) lp =
     (if i < length (pc_arp_list (lp_packet_ctx lp)) then
        let item = pc_arp_list (lp_packet_ctx lp) ! i in
        if ai_expire_at item > clock E then
          rbind (cb item lp) (\<lambda>(r, lp'). if r \<noteq> 0 then Inr lp' else arp_for_each_loop E cb is lp')
        else arp_for_each_loop E cb is lp
      else Inl Out_of_bounds)"

definition arp_for_each :: "env \<Rightarrow> (arp_item \<Rightarrow> int op) \<Rightarrow> lan_play \<Rightarrow> lan_play res" where
  "arp_for_each E cb lp = arp_for_each_loop E cb [0..<ARP_CACHE_LEN] lp"

section \<open>Handling ARP packets\<close>

definition arp_request :: "env \<Rightarrow> arp \<Rightarrow> int op" where
  "arp_request E arp lp =
     (let c = lp_packet_ctx lp in
      if IS_SUBNET (ar_target_ip arp) (pc_subnet_net c) (pc_subnet_mask c) then
        if CMP_IPV4 (ar_target_ip arp) (ar_sender_ip arp) then Inr (0, lp)
        else if CMP_IPV4 (ar_sender_ip arp) NONE_IP then Inr (0, lp)
        else if arp_has_ip E (ar_target_ip arp) lp then Inr (0, lp)
        else send_arp E ARP_OPCODE_REPLY (pc_mac c) (ar_target_ip arp) (ar_sender_mac arp)
               (ar_sender_ip arp) lp
      else Inr (0, lp))"

definition arp_reply :: "arp \<Rightarrow> int op" where
  "arp_reply arp lp = Inr (0, lp)"

definition process_arp :: "env \<Rightarrow> ether_frame \<Rightarrow> int op" where
  "process_arp E ether lp =
     rbind (parse_arp ether) (\<lambda>arp.
     if ar_hardware_type arp \<noteq> ARP_HARDTYPE_ETHER \<or> ar_protocol_type arp \<noteq> ETHER_TYPE_IPV4
        \<or> ar_hardware_size arp \<noteq> 6 \<or> ar_protocol_size arp \<noteq> 4
     then Inr (-1, lp)
     else
       let (_, lp1) = arp_set E (ar_sender_mac arp) (ar_sender_ip arp) lp in
       if ar_opcode arp = ucast ARP_OPCODE_REQUEST then arp_request E arp lp1
       else if ar_opcode arp = ucast ARP_OPCODE_REPLY then arp_reply arp lp1
       else Inr (-1, lp1))"

section \<open>Soft-state caches\<close>

text \<open>
  What a table with a time to live promises. \<open>lookup c t k\<close> is the value of a key at time
  \<open>t\<close>; \<open>insert t k v c\<close> tells whether the entry was stored. \<open>inv t c\<close> says that the cache \<open>c\<close>
  was last written at a time not after \<open>t\<close>; keys outside \<open>valid\<close> carry no promise.
\<close>

locale soft_cache =
  fixes lookup :: "'c \<Rightarrow> int \<Rightarrow> 'k \<Rightarrow> 'v option"
    and insert :: "int \<Rightarrow> 'k \<Rightarrow> 'v \<Rightarrow> 'c \<Rightarrow> bool \<times> 'c"
    and inv :: "int \<Rightarrow> 'c \<Rightarrow> bool"
    and valid :: "'k \<Rightarrow> bool"
    and ttl :: int
  assumes inv_insert: "inv t c \<Longrightarrow> t \<le> t' \<Longrightarrow> insert t' k v c = (r, c') \<Longrightarrow> inv t' c'"
    and insert_full: "insert t' k v c = (False, c') \<Longrightarrow> c' = c"
    and lookup_insert: "inv t c \<Longrightarrow> t \<le> t' \<Longrightarrow> t' \<le> now \<Longrightarrow> valid k \<Longrightarrow> insert t' k v c = (True, c') \<Longrightarrow>
      lookup c' now k = (if now < t' + ttl then Some v else None)"
    and lookup_other: "inv t c \<Longrightarrow> t \<le> t' \<Longrightarrow> t' \<le> now \<Longrightarrow> valid k' \<Longrightarrow> k' \<noteq> k \<Longrightarrow>
      insert t' k v c = (r, c') \<Longrightarrow> lookup c' now k' = lookup c now k'"
begin

text \<open>A history of insertions, and the last of them that was stored for a key.\<close>

fun run_inserts :: "(int \<times> 'k \<times> 'v) list \<Rightarrow> 'c \<Rightarrow> 'c" where
  "run_inserts [] c = c"
| "run_inserts ((t, k, v) # es) c = run_inserts es (snd (insert t k v c))"

fun last_stored :: "(int \<times> 'k \<times> 'v) list \<Rightarrow> 'c \<Rightarrow> 'k \<Rightarrow> (int \<times> 'v) option \<Rightarrow> (int \<times> 'v) option" where
  "last_stored [] c k r = r"
| "last_stored ((t, k', v) # es) c k r =
     (let (ok, c') = insert t k' v c in
      last_stored es c' k (if ok \<and> k' = k then Some (t, v) else r))"

fun times_from :: "int \<Rightarrow> (int \<times> 'k \<times> 'v) list \<Rightarrow> bool" where
  "times_from t [] = True"
| "times_from t ((t', _, _) # es) = (t \<le> t' \<and> times_from t' es)"

lemma inv_run: "inv t c \<Longrightarrow> times_from t es \<Longrightarrow> \<exists>t'. inv t' (run_inserts es c)"
proof (induction es arbitrary: t c)
  case (Cons e es)
  obtain t' k v where e: "e = (t', k, v)" by (cases e)
  then show ?case
    using Cons inv_insert [of t c t' k v] by (cases "insert t' k v c") auto
qed auto

text \<open>The cache refines the history: at any time after it, a key has the value last stored for
  it, until that has been there for \<open>ttl\<close> seconds.\<close>

lemma lookup_run:
  assumes "valid k" and "\<And>now. t \<le> now \<Longrightarrow> lookup c now k = (case r of Some (t', v) \<Rightarrow> if now < t' + ttl then Some v else None | None \<Rightarrow> None)"
    and "inv t c" and "times_from t es" and "\<forall>(t', _, _) \<in> set es. t' \<le> now" and "t \<le> now"
  shows "lookup (run_inserts es c) now k =
    (case last_stored es c k r of Some (t', v) \<Rightarrow> if now < t' + ttl then Some v else None | None \<Rightarrow> None)"
  using assms(2-)
proof (induction es arbitrary: t c r)
  case (Cons e es)
  obtain t' k' v where e: "e = (t', k', v)" by (cases e)
  obtain ok c' where ins: "insert t' k' v c = (ok, c')" by (cases "insert t' k' v c")
  have t: "t \<le> t'" "times_from t' es" "t' \<le> now" using Cons.prems(3,4) e by auto
  have inv': "inv t' c'" by (rule inv_insert [OF Cons.prems(2) t(1) ins])
  let ?r = "if ok \<and> k' = k then Some (t', v) else r"
  have "lookup c' u k = (case ?r of Some (t', v) \<Rightarrow> if u < t' + ttl then Some v else None | None \<Rightarrow> None)"
    if "t' \<le> u" for u
  proof (cases "k' = k")
    case True
    show ?thesis
    proof (cases ok)
      case ok: True
      with lookup_insert [OF Cons.prems(2) t(1) that assms(1)] ins True show ?thesis by simp
    next
      case False
      with insert_full ins Cons.prems(1) t(1) that show ?thesis by fastforce
    qed
  next
    case False
    with lookup_other [OF Cons.prems(2) t(1) that assms(1) _ ins] Cons.prems(1) t(1) that
    show ?thesis by auto
  qed
  from Cons.IH [OF this inv' t(2) _ t(3)] Cons.prems(4) show ?case
    using e ins by simp
qed auto

end

section \<open>The ARP cache is a soft-state cache\<close>

text \<open>Of two entries for the same address the first is the younger, and no entry outlives
  \<open>ttl\<close>.\<close>

definition arp_inv :: "int \<Rightarrow> int \<Rightarrow> arp_item list \<Rightarrow> bool" where
  "arp_inv ttl t xs \<longleftrightarrow>
     (\<forall>j < length xs. ai_ip (xs ! j) \<noteq> NONE_IP \<longrightarrow>
        ai_expire_at (xs ! j) \<le> t + ttl \<and>
        (\<forall>i < j. ai_ip (xs ! i) = ai_ip (xs ! j) \<longrightarrow> ai_expire_at (xs ! j) \<le> ai_expire_at (xs ! i)))"

lemma arp_inv_init [simp]: "arp_inv ttl t arp_list_init"
  by (simp add: arp_inv_def arp_list_init_def)

lemma arp_get_init [simp]: "ip \<noteq> NONE_IP \<Longrightarrow> arp_list_get t ip arp_list_init = None"
  by (simp add: arp_list_get_def arp_list_init_def find_index_None arp_live_def)

lemma arp_list_set_cases:
  assumes "arp_list_set ttl t mac ip xs = (r, ys)"
  obtains (stored) i where "r" "i < length xs" "arp_slot t ip (xs ! i)"
      "\<And>j. j < i \<Longrightarrow> \<not> arp_slot t ip (xs ! j)"
      "ys = xs[i := \<lparr>ai_ip = ip, ai_mac = mac, ai_expire_at = t + ttl\<rparr>]"
    | (full) "\<not> r" "ys = xs" "\<forall>x \<in> set xs. \<not> arp_slot t ip x"
proof (cases "find_index (arp_slot t ip) xs")
  case None
  with assms show ?thesis by (intro full) (simp_all add: arp_list_set_def find_index_None)
next
  case (Some i)
  with assms show ?thesis
    by (intro stored [of i]) (use find_index_SomeD [OF Some] in \<open>simp_all add: arp_list_set_def\<close>)
qed

lemma arp_inv_set:
  assumes "arp_inv ttl t xs" and "t \<le> t'" and "arp_list_set ttl t' mac ip xs = (r, ys)"
  shows "arp_inv ttl t' ys"
  using assms(3)
proof (cases rule: arp_list_set_cases)
  case (stored i)
  show ?thesis
    using assms(1,2) stored(2-4)
    by (fastforce simp: arp_inv_def stored(5) nth_list_update arp_slot_def)
next
  case full
  then show ?thesis using assms(1,2) by (fastforce simp: arp_inv_def)
qed

lemma arp_get_set_same:
  assumes "arp_inv ttl t xs" and "t \<le> t'" and "t' \<le> u" and "ip \<noteq> NONE_IP"
    and "arp_list_set ttl t' mac ip xs = (True, ys)"
  shows "arp_list_get u ip ys = (if u < t' + ttl then Some mac else None)"
  using assms(5)
proof (cases rule: arp_list_set_cases)
  case (stored i)
  let ?P = "arp_live u ip"
  have before: "\<not> ?P (ys ! j)" if "j < i" for j
    using stored(4) [OF that] that by (simp add: stored(5) arp_live_def arp_slot_def)
  have len: "i < length ys" "ys ! i = \<lparr>ai_ip = ip, ai_mac = mac, ai_expire_at = t' + ttl\<rparr>"
    using stored(2) by (simp_all add: stored(5))
  show ?thesis
  proof (cases "u < t' + ttl")
    case True
    then have "find_index ?P ys = Some i"
      using len before by (intro find_index_SomeI) (simp_all add: arp_live_def)
    then show ?thesis using True len by (simp add: arp_list_get_def)
  next
    case False
    have "\<not> ?P (ys ! j)" if "j < length ys" for j
      using that False assms(1,2,4) len stored(2)
      by (cases "j = i") (fastforce simp: arp_inv_def stored(5) arp_live_def)+
    then have "find_index ?P ys = None" by (auto simp: find_index_None in_set_conv_nth)
    then show ?thesis using False by (simp add: arp_list_get_def)
  qed
qed simp

lemma arp_get_set_other:
  assumes "t' \<le> u" and "ip' \<noteq> NONE_IP" and "ip' \<noteq> ip" and "arp_list_set ttl t' mac ip xs = (r, ys)"
  shows "arp_list_get u ip' ys = arp_list_get u ip' xs"
  using assms(4)
proof (cases rule: arp_list_set_cases)
  case (stored i)
  have idx: "find_index (arp_live u ip') ys = find_index (arp_live u ip') xs"
    using stored(2,3) assms(1-3)
    by (intro find_index_cong) (auto simp: stored(5) nth_list_update arp_live_def arp_slot_def)
  have "\<not> arp_live u ip' (xs ! i)"
    using stored(3) assms(1-3) by (auto simp: arp_live_def arp_slot_def)
  then have "find_index (arp_live u ip') xs \<noteq> Some i" by (auto dest: find_index_SomeD)
  then show ?thesis
    unfolding arp_list_get_def idx
    by (cases "find_index (arp_live u ip') xs") (auto simp: stored(5))
qed simp

interpretation arp_cache: soft_cache "\<lambda>c t k. arp_list_get t k c" "\<lambda>t k v c. arp_list_set ttl t v k c"
  "arp_inv ttl" "\<lambda>k. k \<noteq> NONE_IP" ttl for ttl
  apply unfold_locales
  subgoal by (rule arp_inv_set)
  subgoal by (elim arp_list_set_cases) simp_all
  subgoal by (rule arp_get_set_same)
  subgoal by (rule arp_get_set_other)
  done

text \<open>A history of \<open>arp_set\<close> calls.\<close>

fun arp_sets :: "int \<Rightarrow> (int \<times> ip4 \<times> mac6) list \<Rightarrow> arp_item list \<Rightarrow> arp_item list" where
  "arp_sets ttl [] xs = xs"
| "arp_sets ttl ((t, ip, mac) # es) xs = arp_sets ttl es (snd (arp_list_set ttl t mac ip xs))"

lemma arp_sets_run: "arp_sets ttl es xs = arp_cache.run_inserts ttl es xs"
  by (induction ttl es xs rule: arp_sets.induct) simp_all

lemma times_from_sorted: "arp_cache.times_from t es \<longleftrightarrow> sorted (t # map fst es)"
proof (induction es arbitrary: t)
  case (Cons e es)
  then show ?case by (cases e) auto
qed simp

lemma last_stored_untouched:
  "\<forall>(_, ip', _) \<in> set es. ip' \<noteq> ip \<Longrightarrow> arp_cache.last_stored ttl es c ip r = r"
proof (induction es arbitrary: c)
  case (Cons e es)
  then show ?case by (cases e) (auto simp: Let_def split: prod.split)
qed simp

lemma arp_sets_append: "arp_sets ttl (es @ es') xs = arp_sets ttl es' (arp_sets ttl es xs)"
  by (induction ttl es xs rule: arp_sets.induct) simp_all

lemma arp_inv_sets: "arp_inv ttl t xs \<Longrightarrow> sorted (t # map fst es) \<Longrightarrow>
    arp_inv ttl (last (t # map fst es)) (arp_sets ttl es xs)"
proof (induction ttl es xs arbitrary: t rule: arp_sets.induct)
  case (2 ttl u ip mac es xs)
  have "arp_inv ttl u (snd (arp_list_set ttl u mac ip xs))"
    using 2(2,3) by (auto intro!: arp_inv_set [of ttl t xs u mac ip _ _] prod.collapse [symmetric])
  with 2(1) [of u] 2(3) show ?case by simp
qed simp

text \<open>C15: The ARP cache is right about every address it has learned. In any history of
  \<open>arp_set\<close> calls on an empty cache with a clock that does not run backwards: an entry that was
  stored at time \<open>t\<close>, and whose address has not been set again, is found with its hardware
  address until \<open>ttl\<close> seconds have passed, and not found after that, whatever was learned about
  other addresses.\<close>

theorem arp_cache_correct:
  assumes "ip \<noteq> NONE_IP" and "es = before @ (t, ip, mac) # after" and "sorted (map fst es)"
    and "fst (arp_list_set ttl t mac ip (arp_sets ttl before arp_list_init))"
    and "\<forall>(_, ip', _) \<in> set after. ip' \<noteq> ip" and "\<forall>e \<in> set es. fst e \<le> now"
  shows "arp_list_get now ip (arp_sets ttl es arp_list_init) =
    (if now < t + ttl then Some mac else None)"
proof -
  let ?c0 = "arp_sets ttl before arp_list_init"
  obtain c1 where c1: "arp_list_set ttl t mac ip ?c0 = (True, c1)"
    using assms(4) by (cases "arp_list_set ttl t mac ip ?c0") auto
  have "\<exists>t0 \<le> t. arp_inv ttl t0 ?c0"
  proof (cases before)
    case Nil
    then show ?thesis by auto
  next
    case (Cons e es')
    then have "arp_inv ttl (last (fst e # map fst before)) ?c0"
      using assms(2,3) by (intro arp_inv_sets) (auto simp: sorted_append)
    moreover have "last (fst e # map fst before) \<le> t"
      using assms(2,3) Cons last_in_set [of "map fst before"] by (auto simp: sorted_append)
    ultimately show ?thesis by blast
  qed
  then obtain t0 where t0: "t0 \<le> t" "arp_inv ttl t0 ?c0" by blast
  have now: "t \<le> now" using assms(2,6) by auto
  have "arp_list_get now ip (arp_cache.run_inserts ttl after c1) =
    (case arp_cache.last_stored ttl after c1 ip (Some (t, mac)) of
       Some (t', v) \<Rightarrow> if now < t' + ttl then Some v else None | None \<Rightarrow> None)"
  proof (rule arp_cache.lookup_run [where t = t])
    show "arp_inv ttl t c1" by (rule arp_inv_set [OF t0(2,1) c1])
    show "arp_cache.times_from t after"
      using assms(2,3) by (auto simp: times_from_sorted sorted_append)
    show "\<forall>(t', _, _) \<in> set after. t' \<le> now"
      using assms(2,6) by (auto simp: ball_Un split: prod.split dest: bspec)
  qed (use arp_get_set_same [OF t0(2,1) _ assms(1) c1] assms(1) now in auto)
  then show ?thesis
    using assms(2) c1
    by (simp add: arp_sets_append last_stored_untouched [OF assms(5)] flip: arp_sets_run)
qed

theorem arp_cache_correct_witness:
  "arp_list_get 125 (IP4 10 13 0 2) (arp_sets 30
     [(90, IP4 10 13 0 9, MAC6 9 9 9 9 9 9), (100, IP4 10 13 0 2, MAC6 1 2 3 4 5 6),
      (121, IP4 10 13 0 3, MAC6 7 7 7 7 7 7)] arp_list_init) =
   (if 125 < (100 :: int) + 30 then Some (MAC6 1 2 3 4 5 6) else None)"
  by (rule arp_cache_correct [where before = "[(90, IP4 10 13 0 9, MAC6 9 9 9 9 9 9)]"
        and after = "[(121, IP4 10 13 0 3, MAC6 7 7 7 7 7 7)]"])
    (simp_all add: NONE_IP_def arp_list_init_def ARP_CACHE_LEN_def numeral_eq_Suc arp_list_set_def
      arp_slot_def NONE_MAC_def)

section \<open>ARP packets on the wire\<close>

definition arp_bytes :: "u8 \<Rightarrow> mac6 \<Rightarrow> ip4 \<Rightarrow> mac6 \<Rightarrow> ip4 \<Rightarrow> bytes" where
  "arp_bytes opcode sender_mac sender_ip target_mac target_ip =
     [0, 1, 8, 0, 6, 4, 0, opcode] @ mac_bytes sender_mac @ ip_bytes sender_ip
       @ mac_bytes target_mac @ ip_bytes target_ip"

lemma length_arp_bytes [simp]: "length (arp_bytes op sm si tm ti) = 28"
  by (simp add: arp_bytes_def)

lemma hi8_ucast [simp]: "hi8 (ucast (b :: u8)) = 0"
  by (rule bit_word_eqI) (auto simp: hi8_def byte_of_def bit_simps dest: bit_imp_le_length)

lemma lo8_ucast [simp]: "lo8 (ucast (b :: u8)) = b"
  by (rule bit_word_eqI) (auto simp: lo8_def byte_of_def bit_simps)

lemma be16_0: "be16 0 b = ucast b"
  by (metis be16_hi8_lo8 hi8_ucast lo8_ucast)

lemma arp_words:
  "hi8 ARP_HARDTYPE_ETHER = 0" "lo8 ARP_HARDTYPE_ETHER = 1"
  "hi8 ETHER_TYPE_IPV4 = 8" "lo8 ETHER_TYPE_IPV4 = 0" "be16 8 0 = ETHER_TYPE_IPV4"
  by (simp_all add: hi8_def lo8_def byte_of_def ARP_HARDTYPE_ETHER_def ETHER_TYPE_IPV4_def be16_def
      put_byte_def)

lemma send_arp_ex_eq:
  assumes "lp_inv lp"
  shows "send_arp_ex E dst op sm si tm ti lp =
    Inr (0, frame_sent (ether_header dst (pc_mac (lp_packet_ctx lp)) ETHER_TYPE_ARP @ arp_bytes op sm si tm ti) lp)"
proof -
  have "PUT_IPV4 (PUT_MAC (PUT_IPV4 (PUT_MAC (WRITE_NET16 (WRITE_NET8 (WRITE_NET8
      (WRITE_NET16 (WRITE_NET16 (stack_array ARP_LEN) ARP_OFF_HARDWARE ARP_HARDTYPE_ETHER)
        ARP_OFF_PROTOCOL ETHER_TYPE_IPV4) ARP_OFF_HARDWARE_SIZE 6) ARP_OFF_PROTOCOL_SIZE 4)
      ARP_OFF_OPCODE (ucast op)) ARP_OFF_SENDER_MAC sm) ARP_OFF_SENDER_IP si)
      ARP_OFF_TARGET_MAC tm) ARP_OFF_TARGET_IP ti = arp_bytes op sm si tm ti"
    by (cases sm; cases si; cases tm; cases ti)
      (simp add: arp_offsets stack_array_def WRITE_NET16_eq WRITE_NET8_def arp_words
        arp_bytes_def numeral_eq_Suc)
  moreover have "payload_ok \<lparr>pl_ptr = arp_bytes op sm si tm ti, pl_len = of_nat ARP_LEN\<rparr>"
    "payload_bytes \<lparr>pl_ptr = arp_bytes op sm si tm ti, pl_len = of_nat ARP_LEN\<rparr> = arp_bytes op sm si tm ti"
    by (simp_all add: payload_ok_def payload_bytes_def ARP_LEN_def)
  ultimately show ?thesis
    unfolding send_arp_ex_def Let_def by (simp add: send_ether_eq [OF assms])
qed

lemma parse_arp_bytes:
  "ef_payload ether = arp_bytes op sm si tm ti @ rest \<Longrightarrow> parse_arp ether =
     Inr \<lparr>ar_hardware_type = 1, ar_protocol_type = ETHER_TYPE_IPV4, ar_hardware_size = 6,
          ar_protocol_size = 4, ar_opcode = ucast op, ar_sender_mac = sm, ar_sender_ip = si,
          ar_target_mac = tm, ar_target_ip = ti\<rparr>"
  by (cases sm; cases si; cases tm; cases ti)
    (simp add: parse_arp_def arp_offsets arp_bytes_def mem_simps numeral_eq_Suc be16_0 arp_words)

lemma arp_get_mac_eq:
  assumes "lp_inv lp"
  shows "arp_get_mac_by_ip E ip lp =
    (case arp_list_get (clock E) ip (pc_arp_list (lp_packet_ctx lp)) of
       Some mac \<Rightarrow> Inr (Some mac, lp)
     | None \<Rightarrow> Inr (None, frame_sent (ether_header BROADCAST_MAC (pc_mac (lp_packet_ctx lp)) ETHER_TYPE_ARP
         @ arp_bytes ARP_OPCODE_REQUEST (pc_mac (lp_packet_ctx lp)) (pc_ip (lp_packet_ctx lp)) NONE_MAC ip) lp))"
  by (simp add: arp_get_mac_by_ip_def send_arp_request_def send_arp_ex_eq [OF assms] split: option.split)

lemma arp_set_inv [simp]: "lp_inv lp \<Longrightarrow> lp_inv (snd (arp_set E mac ip lp))"
  by (simp add: lp_inv_def arp_set_def Let_def arp_list_set_def split: option.split prod.split)

lemma arp_set_fields [simp]:
  "lp_pcap (snd (arp_set E mac ip lp)) = lp_pcap lp"
  "lp_pmtu (snd (arp_set E mac ip lp)) = lp_pmtu lp"
  "lp_frag_id (snd (arp_set E mac ip lp)) = lp_frag_id lp"
  "lp_frags (snd (arp_set E mac ip lp)) = lp_frags lp"
  "lp_server_addr (snd (arp_set E mac ip lp)) = lp_server_addr lp"
  "lp_gateway (snd (arp_set E mac ip lp)) = lp_gateway lp"
  "lp_udp_log (snd (arp_set E mac ip lp)) = lp_udp_log lp"
  "lp_username (snd (arp_set E mac ip lp)) = lp_username lp"
  "pc_ip (lp_packet_ctx (snd (arp_set E mac ip lp))) = pc_ip (lp_packet_ctx lp)"
  "pc_mac (lp_packet_ctx (snd (arp_set E mac ip lp))) = pc_mac (lp_packet_ctx lp)"
  "pc_subnet_net (lp_packet_ctx (snd (arp_set E mac ip lp))) = pc_subnet_net (lp_packet_ctx lp)"
  "pc_subnet_mask (lp_packet_ctx (snd (arp_set E mac ip lp))) = pc_subnet_mask (lp_packet_ctx lp)"
  "pc_arp_ttl (lp_packet_ctx (snd (arp_set E mac ip lp))) = pc_arp_ttl (lp_packet_ctx lp)"
  "pc_buffer (lp_packet_ctx (snd (arp_set E mac ip lp))) = pc_buffer (lp_packet_ctx lp)"
  by (simp_all add: arp_set_def Let_def split: prod.split)

lemma arp_set_list: "pc_arp_list (lp_packet_ctx (snd (arp_set E mac ip lp))) =
    snd (arp_list_set (pc_arp_ttl (lp_packet_ctx lp)) (clock E) mac ip (pc_arp_list (lp_packet_ctx lp)))"
  by (simp add: arp_set_def Let_def split: prod.split)

lemma only_ctx_arp_set: "only_ctx lp (snd (arp_set E mac ip lp))"
  by (auto simp: arp_set_def Let_def split: prod.split)

lemma arp_request_total:
  assumes "lp_inv lp"
  shows "\<exists>lp'. arp_request E arp lp = Inr (0, lp') \<and> lp_inv lp' \<and> only_ctx lp lp'"
  using assms by (auto simp: arp_request_def Let_def send_arp_def send_arp_ex_eq)

text \<open>An ARP packet that is there in full never faults.\<close>

lemma process_arp_total:
  assumes "lp_inv lp" and "28 \<le> length (ef_payload ether)"
  shows "\<exists>r lp'. process_arp E ether lp = Inr (r, lp') \<and> lp_inv lp' \<and> only_ctx lp lp'"
proof -
  obtain arp where "parse_arp ether = Inr arp"
    using assms(2) by (simp add: parse_arp_def arp_offsets mem_simps Let_def)
  then show ?thesis
    using assms(1) arp_request_total [of "snd (arp_set E (ar_sender_mac arp) (ar_sender_ip arp) lp)" E arp]
      only_ctx_arp_set [of lp E "ar_sender_mac arp" "ar_sender_ip arp"]
    by (auto simp: process_arp_def arp_reply_def case_prod_unfold Let_def intro: only_ctx_trans)
qed

text \<open>The client answers ARP requests for the absent hosts of its subnet. A well-formed
  request from a host with an address, for another address of the subnet that no live entry of
  the cache has, is answered by one frame to the requester: an ARP reply that says that the
  requested address is at the client's own hardware address.\<close>

theorem arp_request_answered:
  assumes "lp_inv lp" and "ef_payload ether = arp_bytes ARP_OPCODE_REQUEST sm si tm ti @ rest"
    and "IS_SUBNET ti (pc_subnet_net (lp_packet_ctx lp)) (pc_subnet_mask (lp_packet_ctx lp))"
    and "ti \<noteq> si" and "si \<noteq> NONE_IP" and "ti \<noteq> NONE_IP" and "\<not> arp_has_ip E ti lp"
  shows "process_arp E ether lp =
    Inr (0, frame_sent (ether_header sm (pc_mac (lp_packet_ctx lp)) ETHER_TYPE_ARP
       @ arp_bytes ARP_OPCODE_REPLY (pc_mac (lp_packet_ctx lp)) ti sm si) (snd (arp_set E sm si lp)))"
proof -
  let ?lp1 = "snd (arp_set E sm si lp)"
  have "\<not> arp_has_ip E ti ?lp1"
    using assms(4,6,7) arp_get_set_other [where u = "clock E" and t' = "clock E", OF _ assms(6,4) prod.collapse [symmetric]]
    by (simp add: arp_has_ip_def arp_set_list)
  then show ?thesis
    using assms
    by (simp add: process_arp_def parse_arp_bytes ARP_HARDTYPE_ETHER_def ARP_OPCODE_REQUEST_def
        case_prod_unfold arp_request_def Let_def send_arp_def send_arp_ex_eq)
qed

theorem arp_request_answered_witness:
  "process_arp example_env
     \<lparr>ef_raw = [], ef_raw_len = 0, ef_dst = BROADCAST_MAC, ef_src = MAC6 4 4 4 4 4 4, ef_type = ETHER_TYPE_ARP,
      ef_payload = arp_bytes ARP_OPCODE_REQUEST (MAC6 4 4 4 4 4 4) (IP4 10 13 0 2) NONE_MAC (IP4 10 13 0 7) @ []\<rparr> example_lp =
    Inr (0, frame_sent (ether_header (MAC6 4 4 4 4 4 4) (pc_mac (lp_packet_ctx example_lp)) ETHER_TYPE_ARP
       @ arp_bytes ARP_OPCODE_REPLY (pc_mac (lp_packet_ctx example_lp)) (IP4 10 13 0 7) (MAC6 4 4 4 4 4 4) (IP4 10 13 0 2))
       (snd (arp_set example_env (MAC6 4 4 4 4 4 4) (IP4 10 13 0 2) example_lp)))"
  by (rule arp_request_answered [where tm = NONE_MAC and rest = "[]"])
    (simp_all add: example_lp_inv arp_has_ip_def IS_SUBNET_bytes NONE_IP_def
      arp_get_init [unfolded NONE_IP_def])

section \<open>A concrete state with an entry\<close>

definition example_lp2 :: lan_play where
  "example_lp2 = snd (arp_set example_env (MAC6 4 4 4 4 4 4) (IP4 10 13 0 2) example_lp)"

lemma example_lp2_inv [simp]: "lp_inv example_lp2"
  by (simp add: example_lp2_def example_lp_inv)

lemma example_lp2_arp_list:
  "pc_arp_list (lp_packet_ctx example_lp2) =
     snd (arp_list_set 30 (clock example_env) (MAC6 4 4 4 4 4 4) (IP4 10 13 0 2) arp_list_init)"
  by (simp add: example_lp2_def arp_set_list)

lemma example_lp2_get [simp]:
  "arp_list_get (clock example_env) (IP4 10 13 0 2) (pc_arp_list (lp_packet_ctx example_lp2)) = Some (MAC6 4 4 4 4 4 4)"
proof -
  have "arp_list_set 30 (clock example_env) (MAC6 4 4 4 4 4 4) (IP4 10 13 0 2) arp_list_init =
      (True, snd (arp_list_set 30 (clock example_env) (MAC6 4 4 4 4 4 4) (IP4 10 13 0 2) arp_list_init))"
    by (simp add: arp_list_set_def arp_list_init_def ARP_CACHE_LEN_def numeral_eq_Suc arp_slot_def)
  from arp_get_set_same [OF arp_inv_init order_refl order_refl _ this] show ?thesis
    by (simp add: example_lp2_arp_list NONE_IP_def)
qed

lemma example_lp2_fields [simp]:
  "pc_ip (lp_packet_ctx example_lp2) = IP4 10 13 37 1"
  "pc_subnet_net (lp_packet_ctx example_lp2) = IP4 10 13 0 0"
  "pc_subnet_mask (lp_packet_ctx example_lp2) = IP4 255 255 0 0"
  "pc_mac (lp_packet_ctx example_lp2) = MAC6 2 0 0 0 0 1"
  "lp_frags example_lp2 = replicate LC_FRAG_COUNT empty_frag"
  "lp_pmtu example_lp2 = 0" "lp_udp_log example_lp2 = []"
  by (simp_all add: example_lp2_def)

end
