(* ===== verification/Checksum.thy ===== *)
theory Checksum
  imports Packet
begin

text \<open>
  The two Internet checksums of \<open>ipv4.c\<close>, over one buffer and over a chain of payloads, and
  their relation to the definition of RFC 1071: the complement of the one's complement sum of
  the 16-bit words of the data, an odd last byte being padded with a zero byte on its right.
\<close>

section \<open>The code\<close>

text \<open>The loop \<open>while (sum > 0xffff) sum -= 0xffff\<close>.\<close>

function fold_sum :: "u32 \<Rightarrow> u32" where
  "fold_sum s = (if s > 0xffff then fold_sum (s - 0xffff) else s)"
  by pat_completeness auto
termination
proof (relation "measure unat")
  fix s :: u32
  assume s: "0xffff < s"
  then have "unat (s - 0xffff) = unat s - 65535"
    by (simp add: unat_sub word_less_nat_alt less_imp_le)
  with s show "(s - 0xffff, s) \<in> measure unat"
    by (simp add: word_less_nat_alt)
qed simp

declare fold_sum.simps [simp del]

fun calc_checksum_loop :: "bytes \<Rightarrow> nat \<Rightarrow> u32 \<Rightarrow> u32 res" where
  "calc_checksum_loop buf len acc =
     (if len > 1 then
        rbind (ld16 buf 0) (\<lambda>w. calc_checksum_loop (drop 2 buf) (len - 2) (acc + ucast (ntohs w)))
      else if len \<noteq> 0 then rbind (rd buf 0) (\<lambda>b. Inr (acc + ucast b))
      else Inr acc)"

declare calc_checksum_loop.simps [simp del]

definition calc_checksum :: "bytes \<Rightarrow> nat \<Rightarrow> u16 res" where
  "calc_checksum buffer len =
     rbind (calc_checksum_loop buffer len 0) (\<lambda>acc. Inr (ucast (NOT (fold_sum acc))))"

text \<open>The inner loop over one part, from byte \<open>pos\<close>; \<open>len\<close> is a signed \<open>int\<close>.\<close>

function payload_words :: "bytes \<Rightarrow> nat \<Rightarrow> int \<Rightarrow> u32 \<Rightarrow> (nat \<times> int \<times> u32) res" where
  "payload_words ptr pos len acc =
     (if len > 1 then
        rbind (ld16 ptr pos) (\<lambda>w. payload_words ptr (pos + 2) (len - 2) (acc + ucast (ntohs w)))
      else Inr (pos, len, acc))"
  by pat_completeness auto
termination by (relation "measure (\<lambda>(_, _, len, _). nat len)") auto

declare payload_words.simps [simp del]

text \<open>The pointer \<open>(uint16_t *)part->ptr + offset\<close> advances by \<open>offset\<close> words.\<close>

fun payload_sum :: "payload list \<Rightarrow> nat \<Rightarrow> u32 \<Rightarrow> u32 res" where
  "payload_sum [] offset acc = Inr acc"
| "payload_sum (part # ps) offset acc =
     rbind (payload_words (pl_ptr part) (2 * offset) (int (unat (pl_len part)) - int offset) acc)
       (\<lambda>(pos, len, acc).
     if len \<noteq> 0 then
       rbind (READ_NET8 (pl_ptr part) pos) (\<lambda>b.
       rbind (case ps of
                q # _ \<Rightarrow> rbind (READ_NET8 (pl_ptr q) 0) (\<lambda>c. Inr (push_bit 8 (ucast b) OR ucast c))
              | [] \<Rightarrow> Inr (push_bit 8 (ucast b))) (\<lambda>w.
       payload_sum ps 1 (acc + w)))
     else payload_sum ps 0 acc)"

definition calc_payload_checksum :: "payload list \<Rightarrow> u16 res" where
  "calc_payload_checksum payload =
     rbind (payload_sum payload 0 0) (\<lambda>acc. Inr (ucast (NOT (fold_sum acc))))"

section \<open>RFC 1071\<close>

fun net_words :: "bytes \<Rightarrow> nat list" where
  "net_words [] = []"
| "net_words [a] = [256 * unat a]"
| "net_words (a # b # bs) = (256 * unat a + unat b) # net_words bs"

text \<open>One's complement addition of 16-bit words: the carry out of the top is added at the
  bottom.\<close>

definition oc_add :: "nat \<Rightarrow> nat \<Rightarrow> nat" where
  "oc_add x y = (if x + y > 65535 then x + y - 65535 else x + y)"

definition oc_sum :: "bytes \<Rightarrow> nat" where
  "oc_sum bs = fold oc_add (net_words bs) 0"

definition inet_checksum :: "bytes \<Rightarrow> u16" where
  "inet_checksum bs = of_nat (65535 - oc_sum bs)"

section \<open>The representative of a sum\<close>

text \<open>Both the loop and repeated one's complement addition compute the representative between 1
  and 65535 of the plain sum modulo 65535, and 0 for 0.\<close>

definition rep16 :: "nat \<Rightarrow> nat" where
  "rep16 n = (if n = 0 then 0 else (n - 1) mod 65535 + 1)"

lemma rep16_le: "rep16 n \<le> 65535"
proof -
  have "(n - 1) mod 65535 < 65535" by simp
  then have "(n - 1) mod 65535 + 1 \<le> 65535" by linarith
  then show ?thesis by (cases "n = 0") (simp_all only: rep16_def if_True if_False, simp)
qed

lemma rep16_small: "n \<le> 65535 \<Longrightarrow> rep16 n = n"
  by (simp add: rep16_def)

lemma rep16_step: "65535 < n \<Longrightarrow> rep16 (n - 65535) = rep16 n"
proof -
  assume n: "65535 < n"
  then have "(n - 65535 - 1) mod 65535 = (n - 1) mod 65535"
    using le_mod_geq [of 65535 "n - 1"] by simp
  with n show ?thesis by (simp add: rep16_def)
qed

lemma oc_add_commute: "oc_add x y = oc_add y x"
  by (simp add: oc_add_def add.commute)

lemma oc_add_rep16: "y \<le> 65535 \<Longrightarrow> oc_add (rep16 x) y = rep16 (x + y)"
proof (induction x rule: less_induct)
  case (less x)
  show ?case
  proof (cases "x \<le> 65535")
    case True
    with less.prems show ?thesis
      using rep16_step [of "x + y"] rep16_small [of "x + y - 65535"]
      by (auto simp: oc_add_def rep16_small)
  next
    case False
    have "oc_add (rep16 (x - 65535)) y = rep16 (x - 65535 + y)"
      using less False by simp
    moreover have "rep16 (x - 65535 + y) = rep16 (x + y)"
      using False rep16_step [of "x + y"] by simp
    moreover have "rep16 (x - 65535) = rep16 x" using False by (intro rep16_step) simp
    ultimately show ?thesis by (simp only:)
  qed
qed

lemma net_words_le: "w \<in> set (net_words bs) \<Longrightarrow> w \<le> 65535"
proof (induction bs rule: net_words.induct)
  case (2 a)
  have "unat a < 256" by simp
  then have "256 * unat a \<le> 65535" by linarith
  with 2 show ?case by simp
next
  case (3 a b bs)
  have "unat a < 256" "unat b < 256" by simp_all
  then have "256 * unat a + unat b \<le> 65535" by linarith
  with 3 show ?case by auto
qed simp

lemma fold_oc_add:
  "\<forall>w \<in> set ws. w \<le> 65535 \<Longrightarrow> fold oc_add ws (rep16 x) = rep16 (x + sum_list ws)"
  by (induction ws arbitrary: x) (simp_all add: oc_add_commute [of _ "rep16 _"] oc_add_rep16 add.assoc)

lemma oc_sum_rep16: "oc_sum bs = rep16 (sum_list (net_words bs))"
  using fold_oc_add [of "net_words bs" 0] net_words_le by (simp add: oc_sum_def rep16_small)

lemma fold_sum_rep16: "unat (fold_sum s) = rep16 (unat s)"
proof (induction s rule: fold_sum.induct)
  case (1 s)
  show ?case
  proof (cases "s > 0xffff")
    case True
    then have "unat (s - 0xffff) = unat s - 65535" "65535 < unat s"
      by (simp_all add: unat_sub word_less_nat_alt less_imp_le)
    with 1 True show ?thesis by (simp add: fold_sum.simps [of s] rep16_step)
  next
    case False
    then have "unat s \<le> 65535" by (simp add: word_less_nat_alt)
    with False show ?thesis by (simp add: fold_sum.simps [of s] rep16_small)
  qed
qed

lemma checksum_of_sum: "ucast (NOT (fold_sum s)) = (of_nat (65535 - rep16 (unat s)) :: u16)"
proof -
  let ?f = "fold_sum s"
  have le: "unat ?f \<le> 65535" by (simp add: fold_sum_rep16 rep16_le)
  have "(ucast (NOT ?f) :: u16) = NOT (ucast ?f)"
    by (rule bit_word_eqI) (simp add: bit_simps)
  also have "\<dots> = - 1 - ucast ?f" by (simp add: not_eq_complement)
  also have "\<dots> = of_nat 65535 - of_nat (unat ?f)" by simp
  also have "\<dots> = of_nat (65535 - unat ?f)" using le by (simp only: of_nat_diff)
  finally show ?thesis by (simp add: fold_sum_rep16)
qed

section \<open>What the loops add up\<close>

lemma unat_be16: "unat (ucast (be16 a b) :: u32) = 256 * unat a + unat b"
proof -
  have "be16 a b = put_byte 1 a + put_byte 0 b"
    unfolding be16_def
    by (rule disjunctive_add [symmetric]) (auto simp: put_byte_def bit_simps dest: bit_imp_le_length)
  also have "\<dots> = of_nat (256 * unat a + unat b)"
    by (simp add: put_byte_def push_bit_eq_mult)
  finally have eq: "be16 a b = of_nat (256 * unat a + unat b)" .
  have "unat a < 256" "unat b < 256" by simp_all
  then have "256 * unat a + unat b < 65536" by linarith
  then have "unat (be16 a b) = 256 * unat a + unat b" "256 * unat a + unat b < 2 ^ 32"
    unfolding eq by (simp_all only: unat_of_nat_u16) simp
  then show ?thesis by (simp add: unsigned_ucast_eq take_bit_nat_eq_self)
qed

lemma ld16_be16:
  "off + 1 < length p \<Longrightarrow> rbind (ld16 p off) (\<lambda>w. f (ntohs w)) = f (be16 (p ! off) (p ! (off + 1)))"
  using READ_NET16_eq [of off p] by (cases "ld16 p off") (auto simp: READ_NET16_def)

text \<open>The sum of \<open>calc_checksum\<close>: an odd last byte counts as the low byte of a word.\<close>

fun code_sum :: "bytes \<Rightarrow> nat" where
  "code_sum [] = 0"
| "code_sum [a] = unat a"
| "code_sum (a # b # bs) = 256 * unat a + unat b + code_sum bs"

lemma code_sum_le: "code_sum bs \<le> 65535 * length bs"
proof (induction bs rule: code_sum.induct)
  case (2 a)
  have "unat a < 256" by simp
  then have "256 * unat a \<le> 65535" "unat a \<le> 65535" by linarith+
  then show ?case by simp
next
  case (3 a b bs)
  have "unat a < 256" "unat b < 256" by simp_all
  then have "256 * unat a + unat b \<le> 131070" by linarith
  with 3 show ?case by simp
qed simp

lemma sum_net_words_le: "sum_list (net_words bs) \<le> 65535 * length bs"
proof (induction bs rule: net_words.induct)
  case (2 a)
  have "unat a < 256" by simp
  then have "256 * unat a \<le> 65535" "unat a \<le> 65535" by linarith+
  then show ?case by simp
next
  case (3 a b bs)
  have "unat a < 256" "unat b < 256" by simp_all
  then have "256 * unat a + unat b \<le> 131070" by linarith
  with 3 show ?case by simp
qed simp

lemma code_sum_even: "even (length bs) \<Longrightarrow> code_sum bs = sum_list (net_words bs)"
  by (induction bs rule: code_sum.induct) simp_all

lemma code_sum_odd: "even (length bs) \<Longrightarrow> code_sum (bs @ [b]) = sum_list (net_words (bs @ [0, b]))"
  by (induction bs rule: code_sum.induct) simp_all

lemma net_words_append: "even (length xs) \<Longrightarrow> net_words (xs @ ys) = net_words xs @ net_words ys"
  by (induction xs rule: net_words.induct) simp_all

lemma take_two: "2 \<le> n \<Longrightarrow> n \<le> length buf \<Longrightarrow>
    take n buf = buf ! 0 # buf ! 1 # take (n - 2) (drop 2 buf)"
  by (cases buf; cases "tl buf") (auto simp: numeral_2_eq_2 take_Cons' Suc_le_eq)

lemma unat_add_less: "unat (x :: u32) + unat y < 4294967296 \<Longrightarrow> unat (x + y) = unat x + unat y"
  by (simp add: unat_word_ariths(1) mod_less)

lemma calc_checksum_loop_eq:
  "len \<le> length buf \<Longrightarrow> unat acc + code_sum (take len buf) < 4294967296 \<Longrightarrow>
     \<exists>s. calc_checksum_loop buf len acc = Inr s \<and> unat s = unat acc + code_sum (take len buf)"
proof (induction buf len acc rule: calc_checksum_loop.induct)
  case (1 buf len acc)
  consider "len > 1" | "len = 1" | "len = 0" by linarith
  then show ?case
  proof cases
    case 1
    let ?w = "ucast (be16 (buf ! 0) (buf ! 1)) :: u32"
    have t: "take len buf = buf ! 0 # buf ! 1 # take (len - 2) (drop 2 buf)"
      using 1 "1.prems"(1) by (intro take_two) simp_all
    have w: "unat (acc + ?w) = unat acc + (256 * unat (buf ! 0) + unat (buf ! 1))"
      using "1.prems"(2) unfolding t by (simp add: unat_add_less unat_be16)
    have step: "calc_checksum_loop buf len acc = calc_checksum_loop (drop 2 buf) (len - 2) (acc + ?w)"
      using 1 "1.prems"(1) ld16_be16 [of 0 buf "\<lambda>v. calc_checksum_loop (drop 2 buf) (len - 2) (acc + ucast v)"]
      by (simp add: calc_checksum_loop.simps [of buf])
    have v: "ld16 buf 0 = Inr (htons (be16 (buf ! 0) (buf ! 1)))"
      using 1 "1.prems"(1) READ_NET16_eq [of 0 buf] htons_htons
      by (cases "ld16 buf 0") (simp_all add: READ_NET16_def, metis htons_htons)
    have "\<exists>s. calc_checksum_loop (drop 2 buf) (len - 2) (acc + ?w) = Inr s \<and>
        unat s = unat (acc + ?w) + code_sum (take (len - 2) (drop 2 buf))"
      using "1.IH" [OF 1 v] "1.prems" 1 t w by simp
    then show ?thesis using step w unfolding t by (simp add: add.assoc)
  next
    case 2
    have u: "unat (ucast (buf ! 0) :: u32) = unat (buf ! 0)" by (simp add: unsigned_ucast_eq take_bit_nat_eq_self less_trans [OF unat_u8_less])
    have t: "take len buf = [buf ! 0]" using 2 "1.prems"(1) by (cases buf) auto
    have "buf \<noteq> []" using 2 "1.prems"(1) by auto
    then show ?thesis
      using 2 "1.prems" u unfolding t
      by (simp add: calc_checksum_loop.simps [of buf] rd_def unat_add_less)
  next
    case 3
    then show ?thesis by (simp add: calc_checksum_loop.simps [of buf])
  qed
qed

lemma code_sum_less: "length bs \<le> 65536 \<Longrightarrow> code_sum bs < 4294967296"
  using code_sum_le [of bs] by simp

lemma sum_net_words_less: "length bs \<le> 65536 \<Longrightarrow> sum_list (net_words bs) < 4294967296"
  using sum_net_words_le [of bs] by simp

lemma calc_checksum_code_sum:
  assumes "len \<le> length buf" and "len \<le> 65536"
  shows "calc_checksum buf len = Inr (of_nat (65535 - rep16 (code_sum (take len buf))))"
  using calc_checksum_loop_eq [OF assms(1), of 0] code_sum_less [of "take len buf"] assms
  by (auto simp: calc_checksum_def checksum_of_sum)

text \<open>The bytes whose RFC 1071 checksum \<open>calc_checksum\<close> computes.\<close>

definition checksum_view :: "bytes \<Rightarrow> bytes" where
  "checksum_view bs = (if even (length bs) then bs else butlast bs @ [0, last bs])"

lemma code_sum_view: "code_sum bs = sum_list (net_words (checksum_view bs))"
proof (cases "even (length bs)")
  case False
  then have "bs \<noteq> []" by auto
  then have "butlast bs @ [last bs] = bs" "even (length (butlast bs))" using False by auto
  then show ?thesis using False code_sum_odd [of "butlast bs" "last bs"] by (simp add: checksum_view_def)
qed (simp add: checksum_view_def code_sum_even)

lemma calc_checksum_eq:
  assumes "len \<le> length buf" and "len \<le> 65536"
  shows "calc_checksum buf len = Inr (inet_checksum (checksum_view (take len buf)))"
  by (simp add: calc_checksum_code_sum [OF assms] inet_checksum_def oc_sum_rep16 code_sum_view)

text \<open>C25: On data of even length, \<open>calc_checksum\<close> computes the Internet checksum of RFC 1071: the
  complement of the one's complement sum of the 16-bit words. The repeated subtraction of 65535
  from a 32-bit sum agrees with end-around carry at every addition.\<close>

theorem calc_checksum_rfc1071:
  assumes "len \<le> length buf" and "len \<le> 65536" and "even len"
  shows "calc_checksum buf len = Inr (inet_checksum (take len buf))"
  using assms by (simp add: calc_checksum_eq checksum_view_def)

theorem calc_checksum_rfc1071_witness:
  "calc_checksum [0x45, 0, 0xff, 0xff, 0x12, 0x34, 9] 6 = Inr (inet_checksum (take 6 [0x45, 0, 0xff, 0xff, 0x12, 0x34, 9]))"
  by (rule calc_checksum_rfc1071) simp_all

text \<open>On data of odd length, \<open>calc_checksum\<close> adds the last byte as the low byte of a word,
  where RFC 1071 pads the data with a zero byte on the right: for a single byte, whatever its
  value is but zero, the result is not the Internet checksum.\<close>

theorem calc_checksum_odd_differs:
  assumes "b \<noteq> 0"
  shows "calc_checksum [b] 1 \<noteq> Inr (inet_checksum [b])"
proof -
  have b: "0 < unat b" using assms by (simp add: unat_gt_0)
  have lt: "unat b < 256" by simp
  have "calc_checksum [b] 1 = Inr (of_nat (65535 - rep16 (unat b)))"
    using calc_checksum_code_sum [of 1 "[b]"] by simp
  moreover have "rep16 (unat b) = unat b" "rep16 (256 * unat b) = 256 * unat b"
    using lt by (simp_all add: rep16_small del: unat_u8_less)
  moreover have "(of_nat (65535 - unat b) :: u16) \<noteq> of_nat (65535 - 256 * unat b)"
  proof
    assume "(of_nat (65535 - unat b) :: u16) = of_nat (65535 - 256 * unat b)"
    then have "unat (of_nat (65535 - unat b) :: u16) = unat (of_nat (65535 - 256 * unat b) :: u16)" by simp
    moreover have "unat (of_nat (65535 - n) :: u16) = 65535 - n" for n
      by (rule unat_of_nat_u16) simp
    ultimately have "65535 - unat b = 65535 - 256 * unat b" by (simp only:)
    then show False using b lt by linarith
  qed
  ultimately show ?thesis by (simp add: inet_checksum_def oc_sum_rep16)
qed

theorem calc_checksum_odd_differs_witness:
  "calc_checksum [8] 1 \<noteq> Inr (inet_checksum [8])"
  by (rule calc_checksum_odd_differs) simp

section \<open>Chains\<close>

lemma payload_words_eq:
  "pos + n \<le> length ptr \<Longrightarrow> unat acc + sum_list (net_words (take (2 * (n div 2)) (drop pos ptr))) < 4294967296 \<Longrightarrow>
   \<exists>s. payload_words ptr pos (int n) acc = Inr (pos + 2 * (n div 2), int (n mod 2), s) \<and>
     unat s = unat acc + sum_list (net_words (take (2 * (n div 2)) (drop pos ptr)))"
proof (induction n arbitrary: pos acc rule: less_induct)
  case (less n)
  show ?case
  proof (cases "n > 1")
    case True
    let ?w = "ucast (be16 (ptr ! pos) (ptr ! (pos + 1))) :: u32" and ?m = "n - 2"
    have n: "n div 2 = Suc (?m div 2)" "n mod 2 = ?m mod 2"
      using True by (simp_all add: le_div_geq le_mod_geq)
    have "take (2 * (n div 2)) (drop pos ptr) = drop pos ptr ! 0 # drop pos ptr ! 1 #
        take (2 * (n div 2) - 2) (drop 2 (drop pos ptr))"
      using less.prems(1) True n by (intro take_two) simp_all
    then have t: "take (2 * (n div 2)) (drop pos ptr) = ptr ! pos # ptr ! (pos + 1) #
        take (2 * (?m div 2)) (drop (pos + 2) ptr)"
      using less.prems(1) True n by (simp add: add.commute)
    have w: "unat (acc + ?w) = unat acc + (256 * unat (ptr ! pos) + unat (ptr ! (pos + 1)))"
      using less.prems(2) unfolding t by (simp add: unat_add_less unat_be16)
    have step: "payload_words ptr pos (int n) acc = payload_words ptr (pos + 2) (int ?m) (acc + ?w)"
      using True less.prems(1)
        ld16_be16 [of pos ptr "\<lambda>v. payload_words ptr (pos + 2) (int n - 2) (acc + ucast v)"]
      by (simp add: payload_words.simps [of ptr pos] of_nat_diff)
    have "\<exists>s. payload_words ptr (pos + 2) (int ?m) (acc + ?w) = Inr (pos + 2 + 2 * (?m div 2), int (?m mod 2), s) \<and>
        unat s = unat (acc + ?w) + sum_list (net_words (take (2 * (?m div 2)) (drop (pos + 2) ptr)))"
      using less.prems True w unfolding t by (intro less.IH) simp_all
    then show ?thesis using step w n unfolding t by (auto simp: add.assoc)
  next
    case False
    then have "n div 2 = 0" "n mod 2 = n" "\<not> int n > 1" by simp_all
    then show ?thesis by (simp add: payload_words.simps [of ptr pos "int n"])
  qed
qed

text \<open>A chain in which only the last part may have an odd length is summed as RFC 1071 sums the
  concatenation of its parts.\<close>

definition even_but_last :: "payload list \<Rightarrow> bool" where
  "even_but_last ps \<longleftrightarrow> list_all (\<lambda>p. even (unat (pl_len p))) (butlast ps)"

lemma unat_shift8: "unat (push_bit 8 (ucast (b :: u8)) :: u32) = 256 * unat b"
proof -
  have "unat b < 256" by simp
  moreover have "(2 :: nat) ^ 32 = 4294967296" by simp
  ultimately have lt: "256 * unat b < 2 ^ 32" by linarith
  have "(push_bit 8 (ucast b) :: u32) = of_nat (256 * unat b)"
    by (simp add: push_bit_eq_mult)
  then show ?thesis using lt by (simp only: unat_of_nat) simp
qed

lemma net_words_snoc: "even (length xs) \<Longrightarrow> sum_list (net_words (xs @ [b])) = sum_list (net_words xs) + 256 * unat b"
  by (simp add: net_words_append)

lemma payload_sum_eq:
  "list_all payload_ok ps \<Longrightarrow> even_but_last ps \<Longrightarrow>
   unat acc + sum_list (net_words (chain_bytes ps)) < 4294967296 \<Longrightarrow>
   \<exists>s. payload_sum ps 0 acc = Inr s \<and> unat s = unat acc + sum_list (net_words (chain_bytes ps))"
proof (induction ps arbitrary: acc)
  case (Cons p ps)
  let ?n = "unat (pl_len p)" and ?q = "pl_ptr p"
  have ok: "?n \<le> length ?q" using Cons.prems(1) by (simp add: payload_ok_def)
  show ?case
  proof (cases "even ?n")
    case True
    then have n: "2 * (?n div 2) = ?n" "?n mod 2 = 0" by simp_all
    have even: "even (length (payload_bytes p))" using Cons.prems(1) True by simp
    have sum: "sum_list (net_words (chain_bytes (p # ps))) =
        sum_list (net_words (payload_bytes p)) + sum_list (net_words (chain_bytes ps))"
      by (simp add: net_words_append [OF even])
    obtain s where s: "payload_words ?q 0 (int ?n) acc = Inr (?n, 0, s)"
      "unat s = unat acc + sum_list (net_words (payload_bytes p))"
      using payload_words_eq [of 0 ?n ?q acc] ok n Cons.prems(3) sum by (auto simp: payload_bytes_def)
    have "\<exists>s'. payload_sum ps 0 s = Inr s' \<and> unat s' = unat s + sum_list (net_words (chain_bytes ps))"
      using Cons.prems s(2) sum
      by (intro Cons.IH) (auto simp: even_but_last_def split: if_splits)
    then show ?thesis using s sum by auto
  next
    case False
    then have last: "ps = []" using Cons.prems(2) by (auto simp: even_but_last_def split: if_splits)
    let ?m = "2 * (?n div 2)"
    have n: "?n = Suc ?m" "?n mod 2 = 1" using False by (simp_all add: odd_iff_mod_2_eq_one minus_mod_eq_mult_div [symmetric])
    have split: "payload_bytes p = take ?m ?q @ [?q ! ?m]"
      unfolding payload_bytes_def using n ok by (metis Suc_le_eq take_Suc_conv_app_nth)
    have sum: "sum_list (net_words (chain_bytes (p # ps))) = sum_list (net_words (take ?m ?q)) + 256 * unat (?q ! ?m)"
      using n ok by (simp add: last split net_words_append)
    obtain s where s: "payload_words ?q 0 (int ?n) acc = Inr (?m, 1, s)"
      "unat s = unat acc + sum_list (net_words (take ?m ?q))"
      using payload_words_eq [of 0 ?n ?q acc] ok n Cons.prems(3) sum by auto
    have "unat (s + push_bit 8 (ucast (?q ! ?m))) = unat s + 256 * unat (?q ! ?m)"
      using s(2) Cons.prems(3) sum by (simp add: unat_add_less unat_shift8)
    then show ?thesis using s sum last n ok by (simp add: READ_NET8_def rd_def)
  qed
qed simp

lemma calc_payload_checksum_eq:
  assumes "list_all payload_ok ps" and "even_but_last ps" and "length (chain_bytes ps) \<le> 65536"
  shows "calc_payload_checksum ps = Inr (inet_checksum (chain_bytes ps))"
  using payload_sum_eq [OF assms(1,2), of 0] sum_net_words_less [OF assms(3)]
  by (auto simp: calc_payload_checksum_def checksum_of_sum inet_checksum_def oc_sum_rep16)

section \<open>Data that carries its checksum\<close>

lemma rep16_decomp: "\<exists>k. n = rep16 n + 65535 * k"
proof (cases "n = 0")
  case False
  have "n - 1 = (n - 1) mod 65535 + 65535 * ((n - 1) div 65535)" by simp
  then have "n = rep16 n + 65535 * ((n - 1) div 65535)" using False by (simp add: rep16_def)
  then show ?thesis by blast
qed (simp add: rep16_def)

lemma rep16_multiple: "rep16 (65535 * Suc k) = 65535"
proof (induction k)
  case (Suc k)
  then show ?case using rep16_step [of "65535 * Suc (Suc k)"] by simp
qed (simp add: rep16_small)

lemma rep16_complement: "rep16 (n + (65535 - rep16 n)) = 65535"
proof -
  obtain k where k: "n = rep16 n + 65535 * k" using rep16_decomp by blast
  have "n + (65535 - rep16 n) = 65535 * Suc k"
    using rep16_le [of n] k unfolding mult_Suc_right by linarith
  then show ?thesis by (simp only: rep16_multiple)
qed

lemma unat_hi_lo: "256 * unat (hi8 c) + unat (lo8 c) = unat c"
proof -
  have "unat (ucast c :: u32) = unat c"
    by (simp add: unsigned_ucast_eq take_bit_nat_eq_self less_trans [OF unat_u16_less])
  then show ?thesis using unat_be16 [of "hi8 c" "lo8 c"] by simp
qed

text \<open>Putting the checksum of the data in a word of the data that was zero makes the checksum of
  the data zero, which is what a receiver tests.\<close>

lemma inet_checksum_verifies:
  assumes "even (length xs)" and "c = inet_checksum (xs @ [0, 0] @ ys)"
  shows "inet_checksum (xs @ [hi8 c, lo8 c] @ ys) = 0"
proof -
  let ?n = "sum_list (net_words (xs @ [0, 0] @ ys))"
  have n: "sum_list (net_words (xs @ [a, b] @ ys)) =
      sum_list (net_words xs) + (256 * unat a + unat b) + sum_list (net_words ys)" for a b
    using assms(1) by (simp add: net_words_append)
  have "unat c = 65535 - rep16 ?n"
    unfolding assms(2) inet_checksum_def oc_sum_rep16 by (rule unat_of_nat_u16) simp
  then have "sum_list (net_words (xs @ [hi8 c, lo8 c] @ ys)) = ?n + (65535 - rep16 ?n)"
    unfolding n unat_hi_lo by simp
  then show ?thesis by (simp add: inet_checksum_def oc_sum_rep16 rep16_complement)
qed

end
