(* ===== verification/Ipv4.thy ===== *)
theory Ipv4
  imports Arp Checksum
begin

text \<open>
  The packets of \<open>ipv4/ipv4.c\<close>, \<open>ipv4/udp.c\<close> and \<open>ipv4/icmp.c\<close>: taking them apart, building
  and sending them, and the answer to ICMP packets addressed to the client.
\<close>

section \<open>The code\<close>

definition IPV4_HEADER_LEN :: nat where "IPV4_HEADER_LEN = 20"

definition send_ipv4_ex :: "env \<Rightarrow> ip4 \<Rightarrow> ip4 \<Rightarrow> u8 \<Rightarrow> payload list \<Rightarrow> int op" where
  "send_ipv4_ex E src dst protocol payload lp =
     (let buf = stack_array IPV4_HEADER_LEN;
          buf = WRITE_NET8 buf IPV4_OFF_VER_LEN 0x45;
          buf = WRITE_NET8 buf IPV4_OFF_DSCP_ECN 0x00;
          buf = WRITE_NET16 buf IPV4_OFF_TOTAL_LEN (of_nat IPV4_HEADER_LEN + payload_total_len payload);
          buf = WRITE_NET16 buf IPV4_OFF_ID (pc_identification (lp_packet_ctx lp));
          lp = ctx_map (\<lambda>c. c\<lparr>pc_identification := pc_identification c + 1\<rparr>) lp;
          buf = WRITE_NET16 buf IPV4_OFF_FLAGS_FRAG_OFFSET 0;
          buf = WRITE_NET8 buf IPV4_OFF_TTL 128;
          buf = WRITE_NET8 buf IPV4_OFF_PROTOCOL protocol;
          buf = WRITE_NET16 buf IPV4_OFF_CHECKSUM 0x0000;
          buf = PUT_IPV4 buf IPV4_OFF_SRC src;
          buf = PUT_IPV4 buf IPV4_OFF_DST dst
      in rbind (calc_checksum buf IPV4_HEADER_LEN) (\<lambda>checksum.
         let buf = WRITE_NET16 buf IPV4_OFF_CHECKSUM checksum;
             part = \<lparr>pl_ptr = buf, pl_len = of_nat IPV4_HEADER_LEN\<rparr>
         in rbind (arp_get_mac_by_ip E dst lp) (\<lambda>(found, lp1).
            case found of
              None \<Rightarrow> Inr (0, lp1)
            | Some dst_mac \<Rightarrow> send_ether E dst_mac ETHER_TYPE_IPV4 (part # payload) lp1)))"

definition send_ipv4 :: "env \<Rightarrow> ip4 \<Rightarrow> u8 \<Rightarrow> payload list \<Rightarrow> int op" where
  "send_ipv4 E dst protocol payload lp =
     send_ipv4_ex E (pc_ip (lp_packet_ctx lp)) dst protocol payload lp"

text \<open>The field \<open>checksum\<close> is read at the offset of the protocol, as the source has it.\<close>

definition parse_ipv4 :: "ether_frame \<Rightarrow> ipv4 res" where
  "parse_ipv4 ether =
     (let packet = ef_payload ether in
      rbind (READ_NET8 packet IPV4_OFF_VER_LEN) (\<lambda>t.
      rbind (READ_NET8 packet IPV4_OFF_DSCP_ECN) (\<lambda>t2.
      rbind (READ_NET16 packet IPV4_OFF_TOTAL_LEN) (\<lambda>total_len.
      rbind (READ_NET16 packet IPV4_OFF_ID) (\<lambda>identification.
      rbind (READ_NET16 packet IPV4_OFF_FLAGS_FRAG_OFFSET) (\<lambda>tt.
      rbind (READ_NET8 packet IPV4_OFF_TTL) (\<lambda>ttl.
      rbind (READ_NET8 packet IPV4_OFF_PROTOCOL) (\<lambda>protocol.
      rbind (READ_NET16 packet IPV4_OFF_PROTOCOL) (\<lambda>checksum.
      rbind (CPY_IPV4 packet IPV4_OFF_SRC) (\<lambda>src.
      rbind (CPY_IPV4 packet IPV4_OFF_DST) (\<lambda>dst.
      let header_len = (t AND 0xF) * 4 in
      Inr \<lparr>v4_ether = ether, v4_version = drop_bit 4 t, v4_header_len = header_len,
           v4_dscp = drop_bit 2 t2, v4_ecn = t2 AND 3, v4_total_len = total_len,
           v4_identification = identification, v4_flags = ucast (drop_bit 13 tt),
           v4_fragment_offset = tt AND 0x1fff, v4_ttl = ttl, v4_protocol = protocol,
           v4_checksum = checksum, v4_src = src, v4_dst = dst,
           v4_payload = drop (unat header_len) packet\<rparr>)))))))))))"

definition parse_udp :: "ipv4 \<Rightarrow> udp res" where
  "parse_udp ipv4 =
     (let packet = v4_payload ipv4 in
      rbind (READ_NET16 packet UDP_OFF_SRCPORT) (\<lambda>srcport.
      rbind (READ_NET16 packet UDP_OFF_DSTPORT) (\<lambda>dstport.
      rbind (READ_NET16 packet UDP_OFF_LENGTH) (\<lambda>len.
      rbind (READ_NET16 packet UDP_OFF_CHECKSUM) (\<lambda>checksum.
      Inr \<lparr>ud_ipv4 = ipv4, ud_srcport = srcport, ud_dstport = dstport, ud_length = len,
           ud_checksum = checksum, ud_payload = drop UDP_OFF_END packet\<rparr>)))))"

definition IPV4P_OFF_SRC :: nat where "IPV4P_OFF_SRC = 0"
definition IPV4P_OFF_DST :: nat where "IPV4P_OFF_DST = 4"
definition IPV4P_OFF_ZERO :: nat where "IPV4P_OFF_ZERO = 8"
definition IPV4P_OFF_PROTOCOL :: nat where "IPV4P_OFF_PROTOCOL = 9"
definition IPV4P_OFF_LENGTH :: nat where "IPV4P_OFF_LENGTH = 10"
definition IPV4P_OFF_END :: nat where "IPV4P_OFF_END = 12"

lemmas pseudo_offsets = IPV4P_OFF_SRC_def IPV4P_OFF_DST_def IPV4P_OFF_ZERO_def
  IPV4P_OFF_PROTOCOL_def IPV4P_OFF_LENGTH_def IPV4P_OFF_END_def

definition send_udp_ex :: "env \<Rightarrow> ip4 \<Rightarrow> u16 \<Rightarrow> ip4 \<Rightarrow> u16 \<Rightarrow> payload list \<Rightarrow> int op" where
  "send_udp_ex E src srcport dst dstport payload lp =
     (let udp_length = of_nat UDP_OFF_END + payload_total_len payload;
          buf = stack_array UDP_OFF_END;
          buf = WRITE_NET16 buf UDP_OFF_SRCPORT srcport;
          buf = WRITE_NET16 buf UDP_OFF_DSTPORT dstport;
          buf = WRITE_NET16 buf UDP_OFF_LENGTH udp_length;
          buf = WRITE_NET16 buf UDP_OFF_CHECKSUM 0;
          part = \<lparr>pl_ptr = buf, pl_len = of_nat UDP_OFF_END\<rparr>;
          pseudo_header = stack_array IPV4P_OFF_END;
          pseudo_header = PUT_IPV4 pseudo_header IPV4P_OFF_SRC src;
          pseudo_header = PUT_IPV4 pseudo_header IPV4P_OFF_DST dst;
          pseudo_header = WRITE_NET8 pseudo_header IPV4P_OFF_ZERO 0;
          pseudo_header = WRITE_NET8 pseudo_header IPV4P_OFF_PROTOCOL IPV4_PROTOCOL_UDP;
          pseudo_header = WRITE_NET16 pseudo_header IPV4P_OFF_LENGTH udp_length;
          pseudo_header_part = \<lparr>pl_ptr = pseudo_header, pl_len = of_nat IPV4P_OFF_END\<rparr>
      in rbind (calc_payload_checksum (pseudo_header_part # part # payload)) (\<lambda>checksum.
         let buf = WRITE_NET16 buf UDP_OFF_CHECKSUM checksum in
         send_ipv4_ex E src dst IPV4_PROTOCOL_UDP (part\<lparr>pl_ptr := buf\<rparr> # payload) lp))"

text \<open>The array \<open>payload\<close> has \<open>BUFFER_SIZE\<close> bytes. A negative \<open>icmp_len\<close> is a length beyond any
  object when \<open>memcpy\<close> takes it.\<close>

definition process_icmp :: "env \<Rightarrow> ipv4 \<Rightarrow> int op" where
  "process_icmp E ipv4 lp =
     (let icmp_len = int (unat (v4_total_len ipv4)) - int (unat (v4_header_len ipv4)) in
      if icmp_len < 0 then Inl Out_of_bounds
      else
        rbind (rdn (v4_payload ipv4) 0 (nat icmp_len)) (\<lambda>s.
        rbind (wrn (stack_array BUFFER_SIZE) 0 s) (\<lambda>payload.
        let payload = WRITE_NET8 payload 0 0;
            payload = WRITE_NET16 payload 2 0x0000 in
        rbind (calc_checksum payload (nat icmp_len)) (\<lambda>checksum.
        let payload = WRITE_NET16 payload 2 checksum;
            part = \<lparr>pl_ptr = payload, pl_len = of_int icmp_len\<rparr> in
        rbind (send_ipv4 E (v4_src ipv4) IPV4_PROTOCOL_ICMP [part] lp) (\<lambda>(_, lp').
        Inr (0, lp'))))))"

section \<open>Headers\<close>

definition ipv4_header :: "u16 \<Rightarrow> u16 \<Rightarrow> u8 \<Rightarrow> u16 \<Rightarrow> ip4 \<Rightarrow> ip4 \<Rightarrow> bytes" where
  "ipv4_header total_len ident protocol checksum src dst =
     ([0x45, 0, hi8 total_len, lo8 total_len, hi8 ident, lo8 ident, 0, 0, 128, protocol]
       @ [hi8 checksum, lo8 checksum] @ (ip_bytes src @ ip_bytes dst))"

lemma length_ipv4_header [simp]: "length (ipv4_header n i pr ck s d) = 20"
  by (simp add: ipv4_header_def)

definition ipv4_header_checksum :: "u16 \<Rightarrow> u16 \<Rightarrow> u8 \<Rightarrow> ip4 \<Rightarrow> ip4 \<Rightarrow> u16" where
  "ipv4_header_checksum total_len ident protocol src dst =
     inet_checksum (ipv4_header total_len ident protocol 0 src dst)"

lemma hi8_0 [simp]: "hi8 0 = 0" and lo8_0 [simp]: "lo8 0 = 0"
  by (simp_all add: hi8_def lo8_def byte_of_def)

lemma ipv4_header_verifies:
  "inet_checksum (ipv4_header n i pr (ipv4_header_checksum n i pr s d) s d) = 0"
  unfolding ipv4_header_checksum_def ipv4_header_def
  by (rule inet_checksum_verifies) simp_all

lemma ipv4_header_built:
  "PUT_IPV4 (PUT_IPV4 (WRITE_NET16 (WRITE_NET8 (WRITE_NET8 (WRITE_NET16 (WRITE_NET16 (WRITE_NET16
     (WRITE_NET8 (WRITE_NET8 (stack_array IPV4_HEADER_LEN) IPV4_OFF_VER_LEN 0x45) IPV4_OFF_DSCP_ECN 0)
     IPV4_OFF_TOTAL_LEN n) IPV4_OFF_ID i) IPV4_OFF_FLAGS_FRAG_OFFSET 0) IPV4_OFF_TTL 128)
     IPV4_OFF_PROTOCOL pr) IPV4_OFF_CHECKSUM 0) IPV4_OFF_SRC s) IPV4_OFF_DST d = ipv4_header n i pr 0 s d"
  by (cases s; cases d)
    (simp add: ipv4_offsets IPV4_HEADER_LEN_def stack_array_def WRITE_NET16_eq WRITE_NET8_def
      ipv4_header_def numeral_eq_Suc)

lemma ipv4_header_set_checksum:
  "WRITE_NET16 (ipv4_header n i pr c s d) IPV4_OFF_CHECKSUM c' = ipv4_header n i pr c' s d"
  by (simp add: ipv4_header_def IPV4_OFF_CHECKSUM_def WRITE_NET16_eq numeral_eq_Suc)

lemma ipv4_header_calc:
  "calc_checksum (ipv4_header n i pr 0 s d) IPV4_HEADER_LEN = Inr (ipv4_header_checksum n i pr s d)"
  by (simp add: calc_checksum_eq checksum_view_def IPV4_HEADER_LEN_def ipv4_header_checksum_def)

section \<open>Sending\<close>

text \<open>The state in which the identification has been used.\<close>

definition next_ident :: "lan_play \<Rightarrow> lan_play" where
  "next_ident lp = ctx_map (\<lambda>c. c\<lparr>pc_identification := pc_identification c + 1\<rparr>) lp"

lemma next_ident_fields [simp]:
  "lp_inv (next_ident lp) = lp_inv lp"
  "pc_arp_list (lp_packet_ctx (next_ident lp)) = pc_arp_list (lp_packet_ctx lp)"
  "pc_mac (lp_packet_ctx (next_ident lp)) = pc_mac (lp_packet_ctx lp)"
  "pc_ip (lp_packet_ctx (next_ident lp)) = pc_ip (lp_packet_ctx lp)"
  by (simp_all add: next_ident_def lp_inv_def)

text \<open>The IPv4 packet built for a chain of payloads.\<close>

definition ipv4_packet :: "lan_play \<Rightarrow> ip4 \<Rightarrow> ip4 \<Rightarrow> u8 \<Rightarrow> bytes \<Rightarrow> bytes" where
  "ipv4_packet lp src dst protocol data =
     (let n = of_nat (20 + length data); i = pc_identification (lp_packet_ctx lp) in
      ipv4_header n i protocol (ipv4_header_checksum n i protocol src dst) src dst @ data)"

lemma send_ipv4_ex_eq:
  assumes "lp_inv lp" and "list_all payload_ok ps" and "34 + length (chain_bytes ps) < 2048"
  shows "send_ipv4_ex E src dst pr ps lp =
    (case arp_list_get (clock E) dst (pc_arp_list (lp_packet_ctx lp)) of
       Some mac \<Rightarrow> Inr (0, frame_sent (ether_header mac (pc_mac (lp_packet_ctx lp)) ETHER_TYPE_IPV4
          @ ipv4_packet lp src dst pr (chain_bytes ps)) (next_ident lp))
     | None \<Rightarrow> Inr (0, frame_sent (ether_header BROADCAST_MAC (pc_mac (lp_packet_ctx lp)) ETHER_TYPE_ARP
          @ arp_bytes ARP_OPCODE_REQUEST (pc_mac (lp_packet_ctx lp)) (pc_ip (lp_packet_ctx lp)) NONE_MAC dst)
          (next_ident lp)))"
proof -
  let ?n = "of_nat IPV4_HEADER_LEN + payload_total_len ps" and ?i = "pc_identification (lp_packet_ctx lp)"
  let ?h = "ipv4_header ?n ?i pr (ipv4_header_checksum ?n ?i pr src dst) src dst"
  let ?part = "\<lparr>pl_ptr = ?h, pl_len = of_nat IPV4_HEADER_LEN\<rparr>"
  have part: "payload_ok ?part" "payload_bytes ?part = ?h"
    by (simp_all add: payload_ok_def payload_bytes_def IPV4_HEADER_LEN_def)
  have inv: "lp_inv (next_ident lp)" using assms(1) by simp
  have send: "send_ether E mac ETHER_TYPE_IPV4 (?part # ps) (next_ident lp) =
      Inr (0, frame_sent (ether_header mac (pc_mac (lp_packet_ctx lp)) ETHER_TYPE_IPV4
        @ ipv4_packet lp src dst pr (chain_bytes ps)) (next_ident lp))" for mac
    using send_ether_eq [OF inv, of "?part # ps" E mac ETHER_TYPE_IPV4] assms part
    by (simp add: ipv4_packet_def Let_def IPV4_HEADER_LEN_def payload_total_len_chain)
  show ?thesis
    unfolding send_ipv4_ex_def Let_def ipv4_header_built ipv4_header_calc ipv4_header_set_checksum
      rbind_Inr next_ident_def [symmetric] arp_get_mac_eq [OF inv]
    by (simp add: send split: option.split)
qed

lemma only_ctx_next_ident: "only_ctx lp (next_ident lp)"
  by (auto simp: next_ident_def)

lemma send_ipv4_ex_total:
  assumes "lp_inv lp" and "list_all payload_ok ps" and "34 + length (chain_bytes ps) < 2048"
  shows "\<exists>lp'. send_ipv4_ex E src dst pr ps lp = Inr (0, lp') \<and> lp_inv lp' \<and> only_ctx lp lp'"
  using assms
  by (auto simp: send_ipv4_ex_eq ipv4_packet_def Let_def split: option.split
      intro!: lp_inv_frame_sent only_ctx_trans [OF only_ctx_next_ident only_ctxI(2)])



section \<open>UDP\<close>

definition udp_header :: "u16 \<Rightarrow> u16 \<Rightarrow> u16 \<Rightarrow> u16 \<Rightarrow> bytes" where
  "udp_header srcport dstport len checksum =
     [hi8 srcport, lo8 srcport, hi8 dstport, lo8 dstport, hi8 len, lo8 len, hi8 checksum, lo8 checksum]"

lemma length_udp_header [simp]: "length (udp_header sp dp n c) = 8"
  by (simp add: udp_header_def)

text \<open>The pseudo header of RFC 768.\<close>

definition udp_pseudo :: "ip4 \<Rightarrow> ip4 \<Rightarrow> u16 \<Rightarrow> bytes" where
  "udp_pseudo src dst len = ip_bytes src @ ip_bytes dst @ [0, 17, hi8 len, lo8 len]"

lemma length_udp_pseudo [simp]: "length (udp_pseudo s d n) = 12"
  by (simp add: udp_pseudo_def)

lemma udp_header_built:
  "WRITE_NET16 (WRITE_NET16 (WRITE_NET16 (WRITE_NET16 (stack_array UDP_OFF_END) UDP_OFF_SRCPORT sp)
     UDP_OFF_DSTPORT dp) UDP_OFF_LENGTH n) UDP_OFF_CHECKSUM 0 = udp_header sp dp n 0"
  by (simp add: udp_offsets stack_array_def WRITE_NET16_eq udp_header_def numeral_eq_Suc)

lemma udp_header_set_checksum:
  "WRITE_NET16 (udp_header sp dp n c) UDP_OFF_CHECKSUM c' = udp_header sp dp n c'"
  by (simp add: udp_header_def UDP_OFF_CHECKSUM_def WRITE_NET16_eq numeral_eq_Suc)

lemma udp_pseudo_built:
  "WRITE_NET16 (WRITE_NET8 (WRITE_NET8 (PUT_IPV4 (PUT_IPV4 (stack_array IPV4P_OFF_END) IPV4P_OFF_SRC s)
     IPV4P_OFF_DST d) IPV4P_OFF_ZERO 0) IPV4P_OFF_PROTOCOL IPV4_PROTOCOL_UDP) IPV4P_OFF_LENGTH n = udp_pseudo s d n"
  by (cases s; cases d)
    (simp add: pseudo_offsets stack_array_def WRITE_NET16_eq WRITE_NET8_def IPV4_PROTOCOL_UDP_def
      udp_pseudo_def numeral_eq_Suc)

definition udp_checksum :: "ip4 \<Rightarrow> u16 \<Rightarrow> ip4 \<Rightarrow> u16 \<Rightarrow> bytes \<Rightarrow> u16" where
  "udp_checksum src srcport dst dstport data =
     (let n = of_nat (8 + length data)
      in inet_checksum (udp_pseudo src dst n @ udp_header srcport dstport n 0 @ data))"

lemma udp_checksum_verifies:
  assumes "n = of_nat (8 + length data)"
  shows "inet_checksum (udp_pseudo s d n @ udp_header sp dp n (udp_checksum s sp d dp data) @ data) = 0"
proof -
  let ?x = "udp_pseudo s d n @ [hi8 sp, lo8 sp, hi8 dp, lo8 dp, hi8 n, lo8 n]"
  have "udp_checksum s sp d dp data = inet_checksum (?x @ [0, 0] @ data)"
    by (simp add: udp_checksum_def udp_header_def Let_def assms)
  from inet_checksum_verifies [OF _ this] show ?thesis by (simp add: udp_header_def)
qed

text \<open>For one payload, of any length, the datagram has the checksum of RFC 768.\<close>

lemma send_udp_ex_eq:
  assumes "payload_ok p" and "42 + unat (pl_len p) < 2048"
  shows "send_udp_ex E src srcport dst dstport [p] lp =
    send_ipv4_ex E src dst 17
      [\<lparr>pl_ptr = udp_header srcport dstport (of_nat (8 + unat (pl_len p)))
          (udp_checksum src srcport dst dstport (payload_bytes p)), pl_len = 8\<rparr>, p] lp"
proof -
  let ?n = "of_nat UDP_OFF_END + payload_total_len [p]"
  have n: "?n = of_nat (8 + unat (pl_len p))" by (simp add: UDP_OFF_END_def)
  let ?ph = "\<lparr>pl_ptr = udp_pseudo src dst ?n, pl_len = of_nat IPV4P_OFF_END\<rparr>"
  let ?uh = "\<lparr>pl_ptr = udp_header srcport dstport ?n 0, pl_len = of_nat UDP_OFF_END\<rparr>"
  have ok: "list_all payload_ok [?ph, ?uh, p]" "even_but_last [?ph, ?uh, p]"
    using assms(1) by (simp_all add: payload_ok_def even_but_last_def IPV4P_OFF_END_def UDP_OFF_END_def)
  have bytes: "chain_bytes [?ph, ?uh, p] = udp_pseudo src dst ?n @ udp_header srcport dstport ?n 0 @ payload_bytes p"
    by (simp add: payload_bytes_def IPV4P_OFF_END_def UDP_OFF_END_def)
  have "calc_payload_checksum [?ph, ?uh, p] = Inr (udp_checksum src srcport dst dstport (payload_bytes p))"
    using calc_payload_checksum_eq [OF ok] assms n
    unfolding bytes by (simp add: udp_checksum_def Let_def)
  then show ?thesis
    unfolding send_udp_ex_def Let_def udp_header_built udp_pseudo_built
    by (simp add: udp_header_set_checksum IPV4_PROTOCOL_UDP_def UDP_OFF_END_def)
qed

text \<open>C22: A datagram relayed back to the console is a correct UDP packet. For any payload that fits
  the send buffer and a destination in the ARP cache, one frame leaves to its hardware address;
  the UDP checksum, over the pseudo header, the header and the data, is one a receiver accepts,
  for payloads of even and of odd length alike.\<close>

theorem send_udp_valid:
  assumes "lp_inv lp" and "payload_ok p" and "42 + unat (pl_len p) < 2048"
    and "arp_list_get (clock E) dst (pc_arp_list (lp_packet_ctx lp)) = Some mac"
  shows "\<exists>c. send_udp_ex E src srcport dst dstport [p] lp =
      Inr (0, frame_sent (ether_header mac (pc_mac (lp_packet_ctx lp)) ETHER_TYPE_IPV4
        @ ipv4_packet lp src dst 17 (udp_header srcport dstport (of_nat (8 + unat (pl_len p))) c @ payload_bytes p))
        (next_ident lp)) \<and>
    inet_checksum (udp_pseudo src dst (of_nat (8 + unat (pl_len p)))
      @ udp_header srcport dstport (of_nat (8 + unat (pl_len p))) c @ payload_bytes p) = 0"
proof -
  let ?c = "udp_checksum src srcport dst dstport (payload_bytes p)"
  let ?u = "\<lparr>pl_ptr = udp_header srcport dstport (of_nat (8 + unat (pl_len p))) ?c, pl_len = 8\<rparr>"
  have u: "payload_ok ?u" "payload_bytes ?u = pl_ptr ?u" "unat (pl_len ?u) = 8"
    by (simp_all add: payload_ok_def payload_bytes_def)
  have "send_udp_ex E src srcport dst dstport [p] lp =
      Inr (0, frame_sent (ether_header mac (pc_mac (lp_packet_ctx lp)) ETHER_TYPE_IPV4
        @ ipv4_packet lp src dst 17 (pl_ptr ?u @ payload_bytes p)) (next_ident lp))"
    unfolding send_udp_ex_eq [OF assms(2,3)]
    using send_ipv4_ex_eq [OF assms(1), of "[?u, p]" E src dst 17] assms u by simp
  moreover have "inet_checksum (udp_pseudo src dst (of_nat (8 + unat (pl_len p))) @ pl_ptr ?u @ payload_bytes p) = 0"
    using udp_checksum_verifies [of "of_nat (8 + unat (pl_len p))" "payload_bytes p"] assms(2) by simp
  ultimately show ?thesis by (intro exI [of _ ?c]) simp
qed

theorem send_udp_valid_witness:
  "\<exists>c. send_udp_ex example_env (IP4 8 8 8 8) 53 (IP4 10 13 0 2) 5000 [\<lparr>pl_ptr = [7, 8, 9], pl_len = 3\<rparr>] example_lp2 =
      Inr (0, frame_sent (ether_header (MAC6 4 4 4 4 4 4) (MAC6 2 0 0 0 0 1) ETHER_TYPE_IPV4
        @ ipv4_packet example_lp2 (IP4 8 8 8 8) (IP4 10 13 0 2) 17 (udp_header 53 5000 11 c @ [7, 8, 9])) (next_ident example_lp2)) \<and>
    inet_checksum (udp_pseudo (IP4 8 8 8 8) (IP4 10 13 0 2) 11 @ udp_header 53 5000 11 c @ [7, 8, 9]) = 0"
  using send_udp_valid [of example_lp2 "\<lparr>pl_ptr = [7, 8, 9], pl_len = 3\<rparr>" example_env "IP4 10 13 0 2" "MAC6 4 4 4 4 4 4"
      "IP4 8 8 8 8" 53 5000]
  by (simp add: payload_ok_def payload_bytes_def)

section \<open>ICMP\<close>

text \<open>The answer to an ICMP packet: type 0, the rest of the request with a new checksum.\<close>

definition icmp_reply :: "bytes \<Rightarrow> u16 \<Rightarrow> bytes" where
  "icmp_reply req c = [0, req ! 1, hi8 c, lo8 c] @ drop 4 req"

lemma icmp_buffer:
  assumes "4 \<le> length req"
  shows "WRITE_NET16 (WRITE_NET8 (req @ rest) 0 0) 2 c = icmp_reply req c @ rest"
proof -
  obtain a b d e s where "req = a # b # d # e # s"
    using assms by (auto simp: numeral_eq_Suc Suc_le_length_iff)
  then show ?thesis by (simp add: icmp_reply_def WRITE_NET16_eq WRITE_NET8_def numeral_eq_Suc)
qed

lemma icmp_buffer_again:
  "4 \<le> length req \<Longrightarrow> WRITE_NET16 (icmp_reply req c @ rest) 2 c' = icmp_reply req c' @ rest"
  by (simp add: icmp_reply_def WRITE_NET16_eq numeral_eq_Suc)

lemma length_icmp_reply [simp]: "4 \<le> length req \<Longrightarrow> length (icmp_reply req c) = length req"
  by (simp add: icmp_reply_def)

definition icmp_len :: "ipv4 \<Rightarrow> nat" where
  "icmp_len ip = unat (v4_total_len ip) - unat (v4_header_len ip)"

lemma process_icmp_total:
  assumes "lp_inv lp" and "unat (v4_header_len ip) \<le> unat (v4_total_len ip)"
    and "icmp_len ip \<le> length (v4_payload ip)" and "34 + icmp_len ip < 2048"
  shows "\<exists>lp'. process_icmp E ip lp = Inr (0, lp') \<and> lp_inv lp' \<and> only_ctx lp lp'"
proof -
  let ?n = "icmp_len ip" and ?s = "take (icmp_len ip) (v4_payload ip)"
  have n: "int (unat (v4_total_len ip)) - int (unat (v4_header_len ip)) = int ?n"
    using assms(2) by (simp add: icmp_len_def)
  let ?b = "WRITE_NET16 (WRITE_NET8 (?s @ drop ?n (stack_array BUFFER_SIZE)) 0 0) 2 0"
  have lens: "length ?b = 2048" using assms(3,4) by (simp add: stack_array_def BUFFER_SIZE_def)
  have wr: "wrn (stack_array BUFFER_SIZE) 0 ?s = Inr (?s @ drop ?n (stack_array BUFFER_SIZE))"
    using assms(3,4) by (simp add: wrn_def stack_array_def BUFFER_SIZE_def)
  obtain c where c: "calc_checksum ?b ?n = Inr c"
    using calc_checksum_eq [of ?n ?b] lens assms(4) by auto
  let ?p = "\<lparr>pl_ptr = WRITE_NET16 ?b 2 c, pl_len = of_nat ?n\<rparr>"
  have u: "unat (of_nat ?n :: u16) = ?n" using assms(4) by (simp add: unat_of_nat_u16)
  have p: "payload_ok ?p" "length (payload_bytes ?p) = ?n"
    using u lens assms(4) by (simp_all add: payload_ok_def payload_bytes_def)
  obtain lp' where "send_ipv4 E (v4_src ip) IPV4_PROTOCOL_ICMP [?p] lp = Inr (0, lp')" "lp_inv lp'" "only_ctx lp lp'"
    using send_ipv4_ex_total [OF assms(1), of "[?p]" E] p assms(4) unfolding send_ipv4_def by fastforce
  then show ?thesis
    unfolding process_icmp_def Let_def n
    using assms(3) wr c by (simp add: rdn_def)
qed

text \<open>C23: The client answers pings. An ICMP packet of even length to the client's address, from a
  host in the ARP cache, is answered by one IPv4 packet back to that host from the client's
  address: its ICMP part has type 0, repeats the request from the fifth byte on (identifier,
  sequence number and data) and carries a checksum that a receiver accepts.\<close>

theorem icmp_echo_reply:
  assumes "lp_inv lp" and "v4_payload ip = req @ rest"
    and "unat (v4_total_len ip) = unat (v4_header_len ip) + length req"
    and "4 \<le> length req" and "even (length req)" and "34 + length req < 2048"
    and "arp_list_get (clock E) (v4_src ip) (pc_arp_list (lp_packet_ctx lp)) = Some mac"
  shows "\<exists>c. process_icmp E ip lp =
      Inr (0, frame_sent (ether_header mac (pc_mac (lp_packet_ctx lp)) ETHER_TYPE_IPV4
        @ ipv4_packet lp (pc_ip (lp_packet_ctx lp)) (v4_src ip) 1 (icmp_reply req c)) (next_ident lp)) \<and>
    inet_checksum (icmp_reply req c) = 0"
proof -
  let ?z = "drop (length req) (stack_array BUFFER_SIZE)" and ?c = "inet_checksum (icmp_reply req 0)"
  let ?p = "\<lparr>pl_ptr = icmp_reply req ?c @ ?z, pl_len = of_nat (length req)\<rparr>"
  have n: "int (unat (v4_total_len ip)) - int (unat (v4_header_len ip)) = int (length req)"
    using assms(3) by simp
  have wr: "wrn (stack_array BUFFER_SIZE) 0 req = Inr (req @ ?z)"
    using assms(6) by (simp add: wrn_def stack_array_def BUFFER_SIZE_def)
  have c: "calc_checksum (icmp_reply req 0 @ ?z) (length req) = Inr ?c"
    using assms(4-6) calc_checksum_eq [of "length req" "icmp_reply req 0 @ ?z"] by (simp add: checksum_view_def)
  have u: "unat (of_nat (length req) :: u16) = length req" using assms(6) by (simp add: unat_of_nat_u16)
  have p: "payload_ok ?p" "payload_bytes ?p = icmp_reply req ?c"
    using u assms(4) by (simp_all add: payload_ok_def payload_bytes_def)
  have "inet_checksum ([0, req ! 1] @ [hi8 ?c, lo8 ?c] @ drop 4 req) = 0"
    by (rule inet_checksum_verifies) (simp_all add: icmp_reply_def)
  then have valid: "inet_checksum (icmp_reply req ?c) = 0" by (simp add: icmp_reply_def)
  have "process_icmp E ip lp = rbind (send_ipv4 E (v4_src ip) IPV4_PROTOCOL_ICMP [?p] lp) (\<lambda>(_, lp'). Inr (0, lp'))"
    unfolding process_icmp_def Let_def n
    using assms(2,4) wr c by (simp add: rdn_def icmp_buffer icmp_buffer_again)
  also have "\<dots> = Inr (0, frame_sent (ether_header mac (pc_mac (lp_packet_ctx lp)) ETHER_TYPE_IPV4
        @ ipv4_packet lp (pc_ip (lp_packet_ctx lp)) (v4_src ip) 1 (icmp_reply req ?c)) (next_ident lp))"
    using send_ipv4_ex_eq [OF assms(1), of "[?p]" E "pc_ip (lp_packet_ctx lp)" "v4_src ip" 1] p assms(4,6,7)
    unfolding send_ipv4_def IPV4_PROTOCOL_ICMP_def by simp
  finally show ?thesis using valid by blast
qed

text \<open>What parsing a packet with a header of at least 20 bytes gives.\<close>

lemma parse_ipv4_total:
  assumes "20 \<le> length (ef_payload ether)"
  shows "\<exists>ip. parse_ipv4 ether = Inr ip \<and> v4_ether ip = ether \<and>
    v4_total_len ip = be16 (ef_payload ether ! 2) (ef_payload ether ! 3) \<and>
    v4_header_len ip = (ef_payload ether ! 0 AND 0xF) * 4 \<and>
    v4_protocol ip = ef_payload ether ! 9 \<and>
    v4_src ip = pkt_src (ef_payload ether) \<and> v4_dst ip = pkt_dst (ef_payload ether) \<and>
    v4_payload ip = drop (unat ((ef_payload ether ! 0 AND 0xF) * 4)) (ef_payload ether)"
proof -
  have "ef_payload ether \<noteq> []" using assms by auto
  with assms show ?thesis
    by (simp add: parse_ipv4_def ipv4_offsets mem_simps Let_def pkt_src_def pkt_dst_def)
qed

text \<open>\<open>parse_ipv4\<close> reads the header checksum at the offset of the protocol field: for every
  packet with a full header, the field it fills is the protocol and the first byte of the
  checksum, not the checksum.\<close>

theorem parse_ipv4_checksum_field:
  assumes "20 \<le> length (ef_payload ether)"
  shows "\<exists>ip. parse_ipv4 ether = Inr ip \<and>
    v4_checksum ip = be16 (ef_payload ether ! 9) (ef_payload ether ! 10)"
proof -
  have "ef_payload ether \<noteq> []" using assms by auto
  with assms show ?thesis by (simp add: parse_ipv4_def ipv4_offsets mem_simps Let_def)
qed

theorem parse_ipv4_checksum_field_witness:
  "\<exists>ip. parse_ipv4 \<lparr>ef_raw = [], ef_raw_len = 0, ef_dst = NONE_MAC, ef_src = NONE_MAC, ef_type = 0,
       ef_payload = example_udp_packet\<rparr> = Inr ip \<and>
    v4_checksum ip = be16 (example_udp_packet ! 9) (example_udp_packet ! 10)"
  using parse_ipv4_checksum_field [of "\<lparr>ef_raw = [], ef_raw_len = 0, ef_dst = NONE_MAC, ef_src = NONE_MAC, ef_type = 0,
       ef_payload = example_udp_packet\<rparr>"]
  by (simp add: example_udp_packet_def)

definition example_ping :: ipv4 where
  "example_ping =
     \<lparr>v4_ether = \<lparr>ef_raw = [], ef_raw_len = 0, ef_dst = NONE_MAC, ef_src = NONE_MAC, ef_type = 0, ef_payload = []\<rparr>,
      v4_version = 4, v4_header_len = 20, v4_dscp = 0, v4_ecn = 0, v4_total_len = 30, v4_identification = 0,
      v4_flags = 0, v4_fragment_offset = 0, v4_ttl = 64, v4_protocol = 1, v4_checksum = 0,
      v4_src = IP4 10 13 0 2, v4_dst = IP4 10 13 37 1, v4_payload = [8, 0, 0, 0, 1, 2, 0, 1, 65, 66]\<rparr>"

theorem icmp_echo_reply_witness:
  "\<exists>c. process_icmp example_env example_ping example_lp2 =
      Inr (0, frame_sent (ether_header (MAC6 4 4 4 4 4 4) (pc_mac (lp_packet_ctx example_lp2)) ETHER_TYPE_IPV4
        @ ipv4_packet example_lp2 (pc_ip (lp_packet_ctx example_lp2)) (v4_src example_ping) 1
            (icmp_reply [8, 0, 0, 0, 1, 2, 0, 1, 65, 66] c)) (next_ident example_lp2)) \<and>
    inet_checksum (icmp_reply [8, 0, 0, 0, 1, 2, 0, 1, 65, 66] c) = 0"
  by (rule icmp_echo_reply [where rest = "[]"]) (simp_all add: example_ping_def)

end
