(* ===== verification/Sha1.thy ===== *)
theory Sha1
  imports Helper
begin

text \<open>
  \<open>sha1.c\<close>: the incremental hash the client uses for the login at the relay. The unrolled rounds
  of \<open>SHA1Transform\<close> rename the five working variables instead of moving them; a round here
  moves them, which is the same after a multiple of five rounds. The reference is the definition
  of FIPS 180-4, with the message schedule as a list of 80 words.
\<close>

section \<open>The code\<close>

type_synonym sha_state = "u32 \<times> u32 \<times> u32 \<times> u32 \<times> u32"

record sha1_ctx =
  sha_st :: sha_state
  sha_count0 :: u32
  sha_count1 :: u32
  sha_buffer :: bytes

definition rol :: "u32 \<Rightarrow> nat \<Rightarrow> u32" where
  "rol v n = push_bit n v OR drop_bit (32 - n) v"

text \<open>The words of the union \<open>CHAR64LONG16\<close> on a little-endian machine.\<close>

definition le_word :: "bytes \<Rightarrow> nat \<Rightarrow> u32" where
  "le_word b i = put_byte 0 (b ! (4 * i)) OR put_byte 1 (b ! (4 * i + 1)) OR
     put_byte 2 (b ! (4 * i + 2)) OR put_byte 3 (b ! (4 * i + 3))"

definition blk0 :: "nat \<Rightarrow> u32 list \<Rightarrow> u32 \<times> u32 list" where
  "blk0 i l =
     (let v = (rol (l ! i) 24 AND 0xFF00FF00) OR (rol (l ! i) 8 AND 0x00FF00FF) in (v, l[i := v]))"

definition blk :: "nat \<Rightarrow> u32 list \<Rightarrow> u32 \<times> u32 list" where
  "blk i l =
     (let v = rol (l ! ((i + 13) mod 16) XOR l ! ((i + 8) mod 16) XOR l ! ((i + 2) mod 16) XOR l ! (i mod 16)) 1
      in (v, l[i mod 16 := v]))"

text \<open>One of \<open>R0\<close> to \<open>R4\<close>, on the variables in the order of its arguments; the result is in the
  order of the arguments of the next round.\<close>

definition sha_round :: "nat \<Rightarrow> sha_state \<times> u32 list \<Rightarrow> sha_state \<times> u32 list" where
  "sha_round i s =
     (case s of ((v, w, x, y, z), l) \<Rightarrow>
        let (b, l') = (if i < 16 then blk0 i l else blk i l);
            z' = z + (if i < 20 then ((w AND (x XOR y)) XOR y) + b + 0x5A827999 + rol v 5
                      else if i < 40 then (w XOR x XOR y) + b + 0x6ED9EBA1 + rol v 5
                      else if i < 60 then (((w OR x) AND y) OR (w AND x)) + b + 0x8F1BBCDC + rol v 5
                      else (w XOR x XOR y) + b + 0xCA62C1D6 + rol v 5)
        in ((z', v, rol w 30, x, y), l'))"

definition add_state :: "sha_state \<Rightarrow> sha_state \<Rightarrow> sha_state" where
  "add_state s t =
     (case (s, t) of ((a, b, c, d, e), (a', b', c', d', e')) \<Rightarrow> (a + a', b + b', c + c', d + d', e + e'))"

definition SHA1Transform :: "sha_state \<Rightarrow> bytes \<Rightarrow> sha_state" where
  "SHA1Transform state buffer =
     add_state state (fst (fold sha_round [0..<80] (state, map (le_word buffer) [0..<16])))"

definition SHA1Init :: sha1_ctx where
  "SHA1Init = \<lparr>sha_st = (0x67452301, 0xEFCDAB89, 0x98BADCFE, 0x10325476, 0xC3D2E1F0),
     sha_count0 = 0, sha_count1 = 0, sha_buffer = replicate 64 0\<rparr>"

text \<open>The loop over the whole blocks of the data from index \<open>i\<close>, with the index it stops at. The
  lengths are far below the range of \<open>uint32_t\<close>, so the index is a natural number.\<close>

function sha_blocks :: "bytes \<Rightarrow> nat \<Rightarrow> nat \<Rightarrow> sha_state \<Rightarrow> (nat \<times> sha_state) res" where
  "sha_blocks data len i st =
     (if i + 63 < len then
        rbind (rdn data i 64) (\<lambda>b. sha_blocks data len (i + 64) (SHA1Transform st b))
      else Inr (i, st))"
  by pat_completeness auto
termination by (relation "measure (\<lambda>(_, len, i, _). len - i)") auto

declare sha_blocks.simps [simp del]

definition SHA1Update :: "sha1_ctx \<Rightarrow> bytes \<Rightarrow> nat \<Rightarrow> sha1_ctx res" where
  "SHA1Update context data len =
     (let j = sha_count0 context;
          count0 = j + push_bit 3 (of_nat len);
          count1 = (if count0 < j then sha_count1 context + 1 else sha_count1 context);
          count1 = count1 + drop_bit 29 (of_nat len);
          context = context\<lparr>sha_count0 := count0, sha_count1 := count1\<rparr>;
          j = unat (drop_bit 3 j AND 63)
      in if j + len > 63 then
           let i = 64 - j in
           rbind (rdn data 0 i) (\<lambda>s.
           rbind (wrn (sha_buffer context) j s) (\<lambda>buffer.
           rbind (sha_blocks data len i (SHA1Transform (sha_st context) buffer)) (\<lambda>(i, st).
           rbind (rdn data i (len - i)) (\<lambda>s.
           rbind (wrn buffer 0 s) (\<lambda>buffer.
           Inr (context\<lparr>sha_st := st, sha_buffer := buffer\<rparr>))))))
         else
           rbind (rdn data 0 len) (\<lambda>s.
           rbind (wrn (sha_buffer context) j s) (\<lambda>buffer.
           Inr (context\<lparr>sha_buffer := buffer\<rparr>))))"

lemma SHA1Update_count0: "SHA1Update ctx data len = Inr ctx' \<Longrightarrow> sha_count0 ctx' = sha_count0 ctx + push_bit 3 (of_nat len)"
  by (auto simp: SHA1Update_def Let_def rbind_eq_Inr split: if_splits)

lemma and_504: "unat (x AND 504 :: u32) = unat x div 8 mod 64 * 8"
proof -
  have "x AND 504 = push_bit 3 (take_bit 6 (drop_bit 3 x))"
  proof (rule bit_word_eqI)
    fix n assume "n < LENGTH(32)"
    then consider "n < 3" | "n = 3" | "n = 4" | "n = 5" | "n = 6" | "n = 7" | "n = 8" | "9 \<le> n" by fastforce
    then show "bit (x AND 504) n = bit (push_bit 3 (take_bit 6 (drop_bit 3 x))) n"
    proof cases
      case 1
      then have "n = 0 \<or> n = 1 \<or> n = 2" by auto
      then show ?thesis by (auto simp: bit_simps)
    next
      case 8
      then have "\<not> bit (504 :: u32) n"
        using bit_take_bit_iff [of 9 "504 :: u32" n] by (simp add: take_bit_eq_mod)
      with 8 show ?thesis by (auto simp: bit_simps)
    qed (simp_all add: bit_simps)
  qed
  then have "x AND 504 = (x div 8 mod 64) * 8"
    by (simp add: take_bit_eq_mod drop_bit_eq_div push_bit_eq_mult)
  moreover have y: "unat (x div 8 mod 64) = unat x div 8 mod 64" by (simp add: unat_mod unat_div)
  moreover have "unat (x div 8 mod 64) * unat (8 :: u32) < 2 ^ LENGTH(32)"
    unfolding y using mod_less_divisor [of 64 "unat x div 8"] by simp
  then have "unat ((x div 8 mod 64) * 8) = unat (x div 8 mod 64) * unat (8 :: u32)"
    by (rule unat_mult_lem [THEN iffD1])
  ultimately show ?thesis by simp
qed

text \<open>The loop that pads with zero bytes: it ends because the number of buffered bytes runs through
  all residues modulo 64.\<close>

definition pad_left :: "u32 \<Rightarrow> nat" where
  "pad_left c = (120 - unat c div 8 mod 64) mod 64"

lemma pad_left_step:
  assumes "(c :: u32) AND 504 \<noteq> 448"
  shows "pad_left (c + 8) < pad_left c"
proof -
  let ?k = "unat c div 8 mod 64"
  have "unat (c AND 504) \<noteq> unat (448 :: u32)" using assms by (simp only: word_unat_eq_iff not_False_eq_True)
  then have k: "?k \<noteq> 56" "?k < 64" by (simp_all add: and_504)
  have "unat (c + 8) = (unat c + 8) mod 4294967296" by (simp add: unat_word_ariths)
  then have "unat (c + 8) div 8 mod 64 = (unat c + 8) div 8 mod 64"
    using mod_mult2_eq [of "unat c + 8" 8 536870912] by (simp add: mod_mod_cancel)
  also have "(unat c + 8) div 8 = Suc (unat c div 8)" by simp
  also have "Suc (unat c div 8) mod 64 = Suc ?k mod 64" by (rule mod_Suc_eq [symmetric])
  finally have s: "unat (c + 8) div 8 mod 64 = Suc ?k mod 64" .
  have "(120 - Suc k mod 64) mod 64 < (120 - k) mod 64" if k: "k < 64" "k \<noteq> 56" for k :: nat
  proof -
    consider "k < 56" | "57 \<le> k" "k < 63" | "k = 63" using k by linarith
    then show ?thesis
    proof cases
      case 1
      then have "120 - k = 56 - k + 64" "120 - Suc k = 55 - k + 64" "Suc k mod 64 = Suc k" by simp_all
      moreover have "(56 - k + 64) mod 64 = 56 - k" "(55 - k + 64) mod 64 = 55 - k"
        by (simp_all only: mod_add_self2) simp_all
      ultimately show ?thesis using 1 by simp
    qed simp_all
  qed
  with k show ?thesis unfolding pad_left_def s by blast
qed

function sha_pad :: "sha1_ctx \<Rightarrow> sha1_ctx res" where
  "sha_pad ctx =
     (if sha_count0 ctx AND 504 \<noteq> 448 then rbind (SHA1Update ctx [0] 1) sha_pad else Inr ctx)"
  by pat_completeness auto
termination
  by (relation "measure (\<lambda>ctx. pad_left (sha_count0 ctx))")
    (auto dest!: SHA1Update_count0 intro: pad_left_step)

declare sha_pad.simps [simp del]

definition be_bytes :: "u32 \<Rightarrow> bytes" where
  "be_bytes w = [byte_of 3 w, byte_of 2 w, byte_of 1 w, byte_of 0 w]"

definition SHA1Final :: "sha1_ctx \<Rightarrow> bytes res" where
  "SHA1Final ctx =
     (let finalcount = be_bytes (sha_count1 ctx) @ be_bytes (sha_count0 ctx) in
      rbind (SHA1Update ctx [0x80] 1) (\<lambda>ctx.
      rbind (sha_pad ctx) (\<lambda>ctx.
      rbind (SHA1Update ctx finalcount 8) (\<lambda>ctx.
      case sha_st ctx of (a, b, c, d, e) \<Rightarrow>
        Inr (be_bytes a @ be_bytes b @ be_bytes c @ be_bytes d @ be_bytes e)))))"

section \<open>FIPS 180-4\<close>

definition Ch :: "u32 \<Rightarrow> u32 \<Rightarrow> u32 \<Rightarrow> u32" where
  "Ch x y z = (x AND y) XOR (NOT x AND z)"

definition Parity :: "u32 \<Rightarrow> u32 \<Rightarrow> u32 \<Rightarrow> u32" where
  "Parity x y z = x XOR y XOR z"

definition Maj :: "u32 \<Rightarrow> u32 \<Rightarrow> u32 \<Rightarrow> u32" where
  "Maj x y z = (x AND y) XOR (x AND z) XOR (y AND z)"

definition fips_f :: "nat \<Rightarrow> u32 \<Rightarrow> u32 \<Rightarrow> u32 \<Rightarrow> u32" where
  "fips_f t = (if t < 20 then Ch else if t < 40 then Parity else if t < 60 then Maj else Parity)"

definition fips_K :: "nat \<Rightarrow> u32" where
  "fips_K t = (if t < 20 then 0x5A827999 else if t < 40 then 0x6ED9EBA1
     else if t < 60 then 0x8F1BBCDC else 0xCA62C1D6)"

definition be_word :: "bytes \<Rightarrow> nat \<Rightarrow> u32" where
  "be_word b i = put_byte 3 (b ! (4 * i)) OR put_byte 2 (b ! (4 * i + 1)) OR
     put_byte 1 (b ! (4 * i + 2)) OR put_byte 0 (b ! (4 * i + 3))"

text \<open>The first \<open>16 + n\<close> words of the message schedule.\<close>

fun fips_W :: "nat \<Rightarrow> bytes \<Rightarrow> u32 list" where
  "fips_W 0 M = map (be_word M) [0..<16]"
| "fips_W (Suc n) M =
     (let W = fips_W n M; t = 16 + n
      in W @ [rol (W ! (t - 3) XOR W ! (t - 8) XOR W ! (t - 14) XOR W ! (t - 16)) 1])"

definition fips_round :: "u32 list \<Rightarrow> nat \<Rightarrow> sha_state \<Rightarrow> sha_state" where
  "fips_round W t s =
     (case s of (a, b, c, d, e) \<Rightarrow>
        (rol a 5 + fips_f t b c d + e + fips_K t + W ! t, a, rol b 30, c, d))"

definition fips_block :: "sha_state \<Rightarrow> bytes \<Rightarrow> sha_state" where
  "fips_block H M = add_state H (fold (fips_round (fips_W 64 M)) [0..<80] H)"

function blocks :: "bytes \<Rightarrow> bytes list" where
  "blocks m = (if 64 \<le> length m then take 64 m # blocks (drop 64 m) else [])"
  by pat_completeness auto
termination by (relation "measure length") auto

declare blocks.simps [simp del]

definition hash_blocks :: "sha_state \<Rightarrow> bytes \<Rightarrow> sha_state" where
  "hash_blocks H m = foldl fips_block H (blocks m)"

text \<open>The padded message: a one bit, zeros, and the length in bits as a 64-bit number.\<close>

definition fips_pad :: "bytes \<Rightarrow> bytes" where
  "fips_pad m = m @ [0x80] @ replicate ((119 - length m mod 64) mod 64) 0
     @ be_bytes (of_nat (8 * length m div 2 ^ 32)) @ be_bytes (of_nat (8 * length m))"

definition sha1 :: "bytes \<Rightarrow> bytes" where
  "sha1 m =
     (case hash_blocks (0x67452301, 0xEFCDAB89, 0x98BADCFE, 0x10325476, 0xC3D2E1F0) (fips_pad m) of
        (a, b, c, d, e) \<Rightarrow> be_bytes a @ be_bytes b @ be_bytes c @ be_bytes d @ be_bytes e)"

section \<open>The rounds compute the hash of a block\<close>

lemma bit_rol:
  "0 < m \<Longrightarrow> m < 32 \<Longrightarrow> n < 32 \<Longrightarrow> bit (rol x m) n \<longleftrightarrow> (if m \<le> n then bit x (n - m) else bit x (n + (32 - m)))"
  by (auto simp: rol_def bit_simps add.commute dest: bit_imp_le_length)

lemma bit_255: "bit (255 :: u8) n \<longleftrightarrow> n < 8"
proof -
  have "(255 :: u8) = - 1" by simp
  then show ?thesis by (simp only: bit_simps) simp
qed

lemma swap_masks:
  "0xFF00FF00 = (put_byte 1 255 OR put_byte 3 255 :: u32)"
  "0x00FF00FF = (put_byte 0 255 OR put_byte 2 255 :: u32)"
  by (simp_all add: put_byte_def)

lemma bit_put_byte: "bit (put_byte k b :: u32) n \<longleftrightarrow> n < 32 \<and> 8 * k \<le> n \<and> bit b (n - 8 * k)"
  by (auto simp: put_byte_def bit_simps dest: bit_imp_le_length)

lemma bit_put_255: "bit (put_byte k 255 :: u32) n \<longleftrightarrow> n < 32 \<and> 8 * k \<le> n \<and> n < 8 * k + 8"
  unfolding bit_put_byte bit_255 by auto

lemma swap_reverse: "(rol x 24 AND 0xFF00FF00) OR (rol x 8 AND 0x00FF00FF) = badvpn_reverse32 x"
proof (rule bit_word_eqI)
  fix n assume "n < LENGTH(32)"
  then consider "n < 8" | "8 \<le> n" "n < 16" | "16 \<le> n" "n < 24" | "24 \<le> n" "n < 32"
    by fastforce
  then show "bit ((rol x 24 AND 0xFF00FF00) OR (rol x 8 AND 0x00FF00FF)) n = bit (badvpn_reverse32 x) n"
  proof cases
    case 2
    then have "16 + (n - 8) = n + 8" by simp
    with 2 show ?thesis unfolding swap_masks badvpn_reverse32_def
      by (simp add: add.commute bit_or_iff bit_and_iff bit_rol bit_put_255 put_byte_byte_of_bit)
  next
    case 3
    then have "8 + (n - 16) = n - 8" by simp
    with 3 show ?thesis unfolding swap_masks badvpn_reverse32_def
      by (simp add: bit_or_iff bit_and_iff bit_rol bit_put_255 put_byte_byte_of_bit)
  qed (simp_all add: swap_masks badvpn_reverse32_def bit_or_iff bit_and_iff bit_rol bit_put_255
      put_byte_byte_of_bit add.commute)
qed

lemma be_word_reverse: "be_word b i = badvpn_reverse32 (le_word b i)"
  unfolding badvpn_reverse32_def be_word_def le_word_def byte_of_or
  by (rule u32_eqI) (simp_all add: byte_of_or)

lemma blk0_eq: "l ! i = le_word b i \<Longrightarrow> blk0 i l = (be_word b i, l[i := be_word b i])"
  by (simp add: blk0_def Let_def swap_reverse be_word_reverse)

lemma Ch_eq: "((w AND (x XOR y)) XOR y) = Ch w x y"
  by (rule bit_word_eqI) (auto simp: Ch_def bit_simps)

lemma Maj_eq: "((w OR x) AND y) OR (w AND x) = Maj w x y"
  by (rule bit_word_eqI) (auto simp: Maj_def bit_simps)

lemma length_fips_W [simp]: "length (fips_W n M) = 16 + n"
  by (induction n) (simp_all add: Let_def)

lemma fips_W_stable: "n \<le> m \<Longrightarrow> t < 16 + n \<Longrightarrow> fips_W m M ! t = fips_W n M ! t"
proof (induction m)
  case (Suc m)
  then show ?case by (cases "n \<le> m") (auto simp: Let_def nth_append le_Suc_eq)
qed simp

lemma fips_W_first: "t < 16 \<Longrightarrow> fips_W n M ! t = be_word M t"
  using fips_W_stable [of 0 n t M] by simp

lemma fips_W_step:
  assumes "16 \<le> t" and "t < 16 + n"
  shows "fips_W n M ! t = rol (fips_W n M ! (t - 3) XOR fips_W n M ! (t - 8) XOR fips_W n M ! (t - 14)
    XOR fips_W n M ! (t - 16)) 1"
proof -
  obtain k where k: "t = 16 + k" "Suc k \<le> n" using assms by (metis add_less_cancel_left le_Suc_ex Suc_leI)
  have "fips_W n M ! t = fips_W (Suc k) M ! t" using k by (intro fips_W_stable) simp_all
  also have "\<dots> = rol (fips_W k M ! (t - 3) XOR fips_W k M ! (t - 8) XOR fips_W k M ! (t - 14)
      XOR fips_W k M ! (t - 16)) 1"
    using k by (simp add: Let_def nth_append)
  finally have "fips_W n M ! t = rol (fips_W k M ! (t - 3) XOR fips_W k M ! (t - 8) XOR fips_W k M ! (t - 14)
      XOR fips_W k M ! (t - 16)) 1" .
  moreover have "fips_W k M ! s = fips_W n M ! s" if "s < 16 + k" for s
    using that k by (intro fips_W_stable [symmetric]) simp_all
  ultimately show ?thesis using k by simp
qed

text \<open>After \<open>i\<close> rounds the circular buffer holds the last sixteen words of the schedule.\<close>

definition ring_ok :: "bytes \<Rightarrow> u32 list \<Rightarrow> nat \<Rightarrow> u32 list \<Rightarrow> bool" where
  "ring_ok M W i l \<longleftrightarrow> length l = 16 \<and>
     (\<forall>t. t < i \<and> i \<le> t + 16 \<longrightarrow> l ! (t mod 16) = W ! t) \<and>
     (\<forall>j. i \<le> j \<and> j < 16 \<longrightarrow> l ! j = le_word M j)"

lemma ring_neq: "t < i \<Longrightarrow> i < t + 16 \<Longrightarrow> t mod 16 \<noteq> i mod (16 :: nat)"
proof
  assume "t < i" "i < t + 16" "t mod 16 = i mod 16"
  then have "16 dvd i - t" "0 < i - t" "i - t < 16" using mod_eq_dvd_iff_nat [of t i 16] by auto
  then show False using dvd_imp_le by fastforce
qed

lemma ring_put: "ring_ok M W i l \<Longrightarrow> ring_ok M W (Suc i) (l[i mod 16 := W ! i])"
  by (auto simp: ring_ok_def nth_list_update less_Suc_eq ring_neq [symmetric])

lemma round_word:
  assumes "ring_ok M (fips_W 64 M) i l" and "i < 80"
  shows "(if i < 16 then blk0 i l else blk i l) = (fips_W 64 M ! i, l[i mod 16 := fips_W 64 M ! i])"
proof (cases "i < 16")
  case True
  with assms show ?thesis by (simp add: ring_ok_def blk0_eq fips_W_first)
next
  case False
  let ?W = "fips_W 64 M"
  have r: "l ! (t mod 16) = ?W ! t" if "t < i" "i \<le> t + 16" for t
    using assms(1) that by (simp add: ring_ok_def)
  have m: "(i + 13) mod 16 = (i - 3) mod 16" "(i + 8) mod 16 = (i - 8) mod 16"
    "(i + 2) mod 16 = (i - 14) mod 16" "i mod 16 = (i - 16) mod 16"
    using False mod_add_self2 [of "i - 3" 16] mod_add_self2 [of "i - 8" 16] mod_add_self2 [of "i - 14" 16]
      mod_add_self2 [of "i - 16" 16] by (simp_all add: add.commute del: mod_add_self2)
  have "l ! ((i + 13) mod 16) = ?W ! (i - 3)" "l ! ((i + 8) mod 16) = ?W ! (i - 8)"
    "l ! ((i + 2) mod 16) = ?W ! (i - 14)" "l ! (i mod 16) = ?W ! (i - 16)"
    unfolding m using False by (auto intro: r)
  then show ?thesis
    using False fips_W_step [of i 64 M] assms(2) by (simp add: blk_def Let_def)
qed

lemma rounds_eq:
  "i \<le> 80 \<Longrightarrow> \<exists>l. fold sha_round [0..<i] (H, map (le_word M) [0..<16]) =
     (fold (fips_round (fips_W 64 M)) [0..<i] H, l) \<and> ring_ok M (fips_W 64 M) i l"
proof (induction i)
  case 0
  show ?case by (simp add: ring_ok_def)
next
  case (Suc i)
  then obtain l where l: "fold sha_round [0..<i] (H, map (le_word M) [0..<16]) =
     (fold (fips_round (fips_W 64 M)) [0..<i] H, l)" "ring_ok M (fips_W 64 M) i l" by auto
  obtain a b c d e where st: "fold (fips_round (fips_W 64 M)) [0..<i] H = (a, b, c, d, e)"
    by (metis prod_cases5)
  have "sha_round i ((a, b, c, d, e), l) =
      (fips_round (fips_W 64 M) i (a, b, c, d, e), l[i mod 16 := fips_W 64 M ! i])"
    using Suc.prems
    by (simp add: sha_round_def fips_round_def round_word [OF l(2)] Ch_eq Maj_eq fips_f_def fips_K_def
        Parity_def add.assoc add.commute add.left_commute)
  then show ?case using l st ring_put [OF l(2)] by simp
qed

lemma SHA1Transform_eq: "SHA1Transform H M = fips_block H M"
  using rounds_eq [of 80 H M] by (auto simp: SHA1Transform_def fips_block_def)

section \<open>The incremental hash\<close>

lemma blocks_append: "64 dvd length xs \<Longrightarrow> blocks (xs @ ys) = blocks xs @ blocks ys"
proof (induction xs rule: blocks.induct)
  case (1 xs)
  show ?case
  proof (cases "64 \<le> length xs")
    case True
    then have "blocks (drop 64 xs @ ys) = blocks (drop 64 xs) @ blocks ys"
      using 1 by (simp add: dvd_minus_self)
    with True show ?thesis by (simp add: blocks.simps [of "xs @ ys"] blocks.simps [of xs])
  next
    case False
    with 1(2) have "xs = []" using dvd_imp_le [of 64 "length xs"] by fastforce
    then show ?thesis by (simp add: blocks.simps [of "[]"])
  qed
qed

lemma blocks_short: "length xs < 64 \<Longrightarrow> blocks xs = []"
  by (simp add: blocks.simps [of xs])

lemma hash_append: "64 dvd length xs \<Longrightarrow> hash_blocks H (xs @ ys) = hash_blocks (hash_blocks H xs) ys"
  by (simp add: hash_blocks_def blocks_append)

lemma hash_one: "length b = 64 \<Longrightarrow> hash_blocks H (b @ ys) = hash_blocks (fips_block H b) ys"
proof -
  assume b: "length b = 64"
  then have "blocks b = [b]" by (simp add: blocks.simps [of b] blocks.simps [of "[]"])
  with b show ?thesis by (simp add: hash_blocks_def blocks_append)
qed

lemma hash_short [simp]: "length xs < 64 \<Longrightarrow> hash_blocks H xs = H"
  by (simp add: hash_blocks_def blocks_short)

lemma sha_blocks_eq:
  "i \<le> len \<Longrightarrow> len \<le> length data \<Longrightarrow>
   sha_blocks data len i st =
     Inr (len - (len - i) mod 64, hash_blocks st (take (len - i) (drop i data)))"
proof (induction data len i st rule: sha_blocks.induct)
  case (1 data len i st)
  show ?case
  proof (cases "i + 63 < len")
    case True
    let ?b = "take 64 (drop i data)"
    have split: "take (len - i) (drop i data) = ?b @ take (len - (i + 64)) (drop (i + 64) data)"
    proof -
      have "len - i = 64 + (len - (i + 64))" using True by simp
      then show ?thesis by (metis add.commute drop_drop take_add)
    qed
    have "(len - (i + 64)) mod 64 = (len - i) mod 64"
      using True le_mod_geq [of 64 "len - i"] by simp
    moreover have "rdn data i 64 = Inr ?b" using True "1.prems" by (simp add: rdn_def)
    ultimately show ?thesis
      using True "1.prems" "1.IH" [OF True, of ?b] unfolding split
      by (simp add: sha_blocks.simps [of data len i] hash_one SHA1Transform_eq)
  next
    case False
    with "1.prems" show ?thesis by (simp add: sha_blocks.simps [of data len i])
  qed
qed

text \<open>A context that has taken in a message: the whole blocks are hashed, the rest is buffered,
  the length is counted in bits.\<close>

definition sha_H0 :: sha_state where
  "sha_H0 = (0x67452301, 0xEFCDAB89, 0x98BADCFE, 0x10325476, 0xC3D2E1F0)"

definition sha_rest :: "bytes \<Rightarrow> bytes" where
  "sha_rest m = drop (64 * (length m div 64)) m"

definition absorbed :: "sha1_ctx \<Rightarrow> bytes \<Rightarrow> bool" where
  "absorbed ctx m \<longleftrightarrow>
     sha_st ctx = hash_blocks sha_H0 m \<and>
     length (sha_buffer ctx) = 64 \<and> take (length m mod 64) (sha_buffer ctx) = sha_rest m \<and>
     sha_count0 ctx = of_nat (8 * length m) \<and> sha_count1 ctx = of_nat (8 * length m div 4294967296)"

lemma length_sha_rest: "length (sha_rest m) = length m mod 64"
  by (simp add: sha_rest_def minus_mult_div_eq_mod)

lemma sha_rest_split: "take (64 * (length m div 64)) m @ sha_rest m = m"
  by (simp add: sha_rest_def)

lemma hash_split: "hash_blocks H (m @ d) = hash_blocks (hash_blocks H m) (sha_rest m @ d)"
proof -
  let ?f = "take (64 * (length m div 64)) m"
  have dvd: "64 dvd length ?f" by simp
  have "hash_blocks H (m @ d) = hash_blocks H (?f @ (sha_rest m @ d))"
    using sha_rest_split [of m] by (metis append.assoc)
  also have "\<dots> = hash_blocks (hash_blocks H ?f) (sha_rest m @ d)" by (rule hash_append [OF dvd])
  also have "hash_blocks H ?f = hash_blocks H m"
    using hash_append [OF dvd, of H "sha_rest m"] length_sha_rest [of m] sha_rest_split [of m] by simp
  finally show ?thesis .
qed

lemma unat_of_nat_u32: "unat (of_nat n :: u32) = n mod 4294967296"
  by (simp add: unat_of_nat take_bit_eq_mod)

lemma buffered_count: "unat (drop_bit 3 (of_nat (8 * n) :: u32) AND 63) = n mod 64"
proof -
  have "(63 :: u32) = mask 6" by (simp add: mask_eq_exp_minus_1)
  then have "drop_bit 3 (of_nat (8 * n) :: u32) AND 63 = take_bit 6 (drop_bit 3 (of_nat (8 * n)))"
    by (simp only: take_bit_eq_mask)
  also have "unat \<dots> = unat (of_nat (8 * n) :: u32) div 8 mod 64"
    by (simp add: take_bit_eq_mod drop_bit_eq_div unat_mod unat_div)
  also have "\<dots> = (8 * n) mod 4294967296 div 8 mod 64" by (simp only: unat_of_nat_u32)
  also have "\<dots> = n mod 64"
    using mod_mult_mult1 [of 8 n 536870912] by (simp add: mod_mod_cancel)
  finally show ?thesis .
qed

lemma carry_iff:
  fixes a b M :: nat
  assumes "a < M" and "b < M"
  shows "(a + b) mod M < a \<longleftrightarrow> (a + b) div M = 1" and "(a + b) div M \<le> 1"
proof -
  show "(a + b) mod M < a \<longleftrightarrow> (a + b) div M = 1"
  proof (cases "a + b < M")
    case False
    then have "(a + b) div M = 1" "(a + b) mod M = a + b - M"
      using assms by (simp_all add: div_nat_eqI le_mod_geq)
    then show ?thesis using assms False by linarith
  qed simp
  show "(a + b) div M \<le> 1"
    using assms by (simp add: less_Suc_eq_le [symmetric] div_less_iff_less_mult)
qed

lemma count_update:
  assumes "c0 = (of_nat (8 * n) :: u32)" and "c1 = (of_nat (8 * n div 4294967296) :: u32)" and "len < 4294967296"
  shows "c0 + push_bit 3 (of_nat len) = of_nat (8 * (n + len))"
    and "(if c0 + push_bit 3 (of_nat len) < c0 then c1 + 1 else c1) + drop_bit 29 (of_nat len) =
      (of_nat (8 * (n + len) div 4294967296) :: u32)"
proof -
  let ?M = "4294967296 :: nat"
  let ?a = "8 * n mod ?M" and ?b = "8 * len mod ?M"
  have s: "push_bit 3 (of_nat len :: u32) = of_nat (8 * len)" by (simp add: push_bit_eq_mult)
  show sum: "c0 + push_bit 3 (of_nat len) = of_nat (8 * (n + len))"
    by (simp add: assms(1) s algebra_simps)
  have less: "c0 + push_bit 3 (of_nat len) < c0 \<longleftrightarrow> (?a + ?b) mod ?M < ?a"
  proof -
    have "unat (c0 + push_bit 3 (of_nat len)) = (?a + ?b) mod ?M"
      unfolding sum unat_of_nat_u32 by (simp add: distrib_left mod_add_eq)
    moreover have "unat c0 = ?a" unfolding assms(1) by (rule unat_of_nat_u32)
    ultimately show ?thesis by (simp only: word_less_nat_alt)
  qed
  have carry: "(?a + ?b) mod ?M < ?a \<longleftrightarrow> (?a + ?b) div ?M = 1" "(?a + ?b) div ?M \<le> 1"
    by (rule carry_iff; simp)+
  have total: "8 * (n + len) div ?M = 8 * n div ?M + 8 * len div ?M + (?a + ?b) div ?M"
    by (simp add: distrib_left div_add1_eq [of "8 * n" "8 * len"])
  have "drop_bit 29 (of_nat len :: u32) = of_nat (8 * len div ?M)"
  proof (rule word_unat_eq_iff [THEN iffD2])
    have "unat (drop_bit 29 (of_nat len :: u32)) = len div 536870912"
      using assms(3) by (simp add: drop_bit_eq_div unat_div unat_of_nat_u32)
    moreover have "8 * len div ?M = len div 536870912"
      using div_mult_mult1 [of 8 len 536870912] by simp
    moreover have "len div 536870912 < ?M" using assms(3) by (simp add: div_less_iff_less_mult less_trans)
    ultimately show "unat (drop_bit 29 (of_nat len :: u32)) = unat (of_nat (8 * len div ?M) :: u32)"
      by (simp add: unat_of_nat_u32)
  qed
  moreover have "(if c0 + push_bit 3 (of_nat len) < c0 then c1 + 1 else c1) = of_nat (8 * n div ?M + (?a + ?b) div ?M)"
    unfolding less carry(1) assms(2) using carry(2)
    by (cases "(?a + ?b) div ?M = 1") (auto simp: le_Suc_eq)
  ultimately show "(if c0 + push_bit 3 (of_nat len) < c0 then c1 + 1 else c1) + drop_bit 29 (of_nat len) =
      (of_nat (8 * (n + len) div ?M) :: u32)"
    unfolding total by simp
qed

text \<open>Taking in more data.\<close>

lemma sha_rest_append_short:
  assumes "length m mod 64 + length d \<le> 63"
  shows "sha_rest (m @ d) = sha_rest m @ d"
proof -
  have "length (m @ d) div 64 = length m div 64"
  proof (rule div_nat_eqI)
    have m: "length m = 64 * (length m div 64) + length m mod 64" by simp
    show "64 * (length m div 64) \<le> length (m @ d)" by (simp add: trans_le_add1)
    show "length (m @ d) < 64 * Suc (length m div 64)"
      using m assms unfolding length_append mult_Suc_right by linarith
  qed
  then show ?thesis by (simp add: sha_rest_def)
qed

lemma rest_arith:
  fixes q j D k s :: nat
  assumes "j < 64" and "63 < j + D" and "D - (64 - j) = 64 * k + s" and "s < 64"
  shows "(64 * q + j + D) div 64 = q + 1 + k" and "64 * (q + 1 + k) - (64 * q + j) = D - s"
    and "64 * q + j \<le> 64 * (q + 1 + k)"
proof -
  have "64 - j \<le> D" using assms(1,2) by linarith
  then have "D = 64 * k + s + (64 - j)" using assms(3) by (metis le_add_diff_inverse2)
  then have "D + j = 64 * k + s + 64" using assms(1) by linarith
  then have D: "64 * q + j + D = 64 * (q + 1 + k) + s" by simp
  show "(64 * q + j + D) div 64 = q + 1 + k" unfolding D using assms(4) by simp
  show "64 * (q + 1 + k) - (64 * q + j) = D - s" using D by linarith
  show "64 * q + j \<le> 64 * (q + 1 + k)" using assms(1) by simp
qed

lemma sha_rest_append_long:
  assumes "63 < length m mod 64 + length d"
  shows "sha_rest (m @ d) = drop (length d - (length d - (64 - length m mod 64)) mod 64) d"
proof -
  obtain q j where m: "length m = 64 * q + j" "length m mod 64 = j" "j < 64"
    by (metis mod_less_divisor mult_div_mod_eq zero_less_numeral)
  obtain k s where r: "length d - (64 - j) = 64 * k + s" "(length d - (64 - j)) mod 64 = s" "s < 64"
    by (metis mod_less_divisor mult_div_mod_eq zero_less_numeral)
  have "63 < j + length d" using assms m by simp
  note arith = rest_arith [OF m(3) this r(1,3), of q]
  show ?thesis
    unfolding sha_rest_def length_append drop_append m(2) r(2)
    unfolding m(1) arith using arith(3) m(1) by simp
qed

lemma wrn_0: "length s \<le> length b \<Longrightarrow> wrn b 0 s = Inr (s @ drop (length s) b)"
  by (simp add: wrn_def)

text \<open>The two branches of \<open>SHA1Update\<close>, with the number \<open>j\<close> of buffered bytes.\<close>

definition sha_counted :: "sha1_ctx \<Rightarrow> nat \<Rightarrow> sha1_ctx" where
  "sha_counted ctx len = ctx
     \<lparr>sha_count0 := sha_count0 ctx + push_bit 3 (of_nat len),
      sha_count1 := (if sha_count0 ctx + push_bit 3 (of_nat len) < sha_count0 ctx then sha_count1 ctx + 1
          else sha_count1 ctx) + drop_bit 29 (of_nat len)\<rparr>"

lemma SHA1Update_short:
  assumes "unat (drop_bit 3 (sha_count0 ctx) AND 63) = j" and "j + len \<le> 63"
    and "len \<le> length data" and "length (sha_buffer ctx) = 64"
  shows "SHA1Update ctx data len = Inr ((sha_counted ctx len)
    \<lparr>sha_buffer := take j (sha_buffer ctx) @ take len data @ drop (j + len) (sha_buffer ctx)\<rparr>)"
  using assms(2-4) unfolding SHA1Update_def Let_def assms(1)
  by (simp add: rdn_def wrn_def sha_counted_def)

lemma SHA1Update_long:
  assumes "unat (drop_bit 3 (sha_count0 ctx) AND 63) = j" and "j + i = 64" and "i \<le> len"
    and "len \<le> length data" and "length (sha_buffer ctx) = 64"
    and "b = take j (sha_buffer ctx) @ take i data" and "e = len - (len - i) mod 64" and "s = drop e (take len data)"
  shows "SHA1Update ctx data len = Inr ((sha_counted ctx len)
    \<lparr>sha_st := hash_blocks (fips_block (sha_st ctx) b) (drop i (take len data)),
     sha_buffer := s @ drop (length s) b\<rparr>)"
proof -
  have gt: "j + len > 63" and i: "64 - j = i" "j < 64 \<or> i = 0" using assms(2,3) by linarith+
  have b: "wrn (sha_buffer ctx) j (take i data) = Inr b" "length b = 64"
    using assms(2-6) by (simp_all add: wrn_def)
  have loop: "sha_blocks data len i (SHA1Transform (sha_st ctx) b) =
      Inr (e, hash_blocks (fips_block (sha_st ctx) b) (drop i (take len data)))"
    using sha_blocks_eq [OF assms(3,4)] by (simp add: SHA1Transform_eq drop_take assms(7))
  have "(len - i) mod 64 \<le> len" "(len - i) mod 64 \<le> 63"
    using mod_less_eq_dividend [of "len - i" 64] mod_less_divisor [of 64 "len - i"] by linarith+
  then have e: "e \<le> len" "len - e \<le> 63" unfolding assms(7) by linarith+
  have s: "rdn data e (len - e) = Inr s" "length s \<le> length b"
    using assms(4) e b(2) by (simp_all add: rdn_def drop_take assms(8))
  have "rdn data 0 i = Inr (take i data)" using assms(3,4) by (simp add: rdn_def)
  then show ?thesis
    using gt b(1) loop s(1) wrn_0 [OF s(2)]
    unfolding SHA1Update_def Let_def assms(1) i(1) by (simp add: sha_counted_def)
qed

lemma SHA1Update_absorbed:
  assumes "absorbed ctx m" and "len \<le> length data" and "len < 4294967296"
  shows "\<exists>ctx'. SHA1Update ctx data len = Inr ctx' \<and> absorbed ctx' (m @ take len data)"
proof -
  define j where "j = length m mod 64"
  let ?d = "take len data" and ?buf = "sha_buffer ctx"
  note abs = assms(1) [unfolded absorbed_def, folded j_def]
  have j: "unat (drop_bit 3 (sha_count0 ctx) AND 63) = j" "j < 64"
    using abs buffered_count unfolding j_def by (metis, simp)
  have cnt: "sha_count0 (sha_counted ctx len) = of_nat (8 * (length m + len))"
    "sha_count1 (sha_counted ctx len) = of_nat (8 * (length m + len) div 4294967296)"
    "sha_st (sha_counted ctx len) = sha_st ctx"
    using count_update [of "sha_count0 ctx" "length m" "sha_count1 ctx" len] abs assms(3)
    by (simp_all add: sha_counted_def)
  have lend: "length ?d = len" using assms(2) by simp
  have lenr: "length (sha_rest m) = j" by (simp add: length_sha_rest j_def)
  show ?thesis
  proof (cases "j + len > 63")
    case False
    have "(length m + len) mod 64 = j + len"
      using False mod_add_left_eq [of "length m" 64 len, symmetric] by (simp add: j_def)
    moreover have "hash_blocks sha_H0 (m @ ?d) = hash_blocks sha_H0 m"
      using False hash_split [of sha_H0 m ?d] lend lenr by simp
    moreover have "sha_rest (m @ ?d) = sha_rest m @ ?d"
      using False lend sha_rest_append_short [of m ?d] by (simp add: j_def)
    ultimately show ?thesis
      using SHA1Update_short [OF j(1) _ assms(2)] False abs cnt lend lenr by (simp add: absorbed_def)
  next
    case True
    define i b e s where "i = 64 - j" and "b = take j ?buf @ take i data"
      and "e = len - (len - i) mod 64" and "s = drop e ?d"
    have i: "j + i = 64" "i \<le> len" using True j(2) unfolding i_def by linarith+
    have b: "b = sha_rest m @ take i ?d" "length b = 64"
      using abs lenr i assms(2) by (simp_all add: b_def min_absorb1)
    have "sha_rest m @ ?d = b @ drop i ?d" unfolding b(1) by (metis append.assoc append_take_drop_id)
    then have hash: "hash_blocks sha_H0 (m @ ?d) = hash_blocks (fips_block (sha_st ctx) b) (drop i ?d)"
      using hash_split [of sha_H0 m ?d] hash_one [OF b(2)] abs by simp
    have rest: "sha_rest (m @ ?d) = s"
      using sha_rest_append_long [of m ?d] True lend by (simp add: s_def e_def i_def j_def)
    have lens: "length s = (length m + len) mod 64" using length_sha_rest [of "m @ ?d"] rest lend by simp
    have "length s \<le> 64" unfolding lens by (simp add: less_imp_le)
    then show ?thesis
      using SHA1Update_long [OF j(1) i assms(2) _ b_def e_def s_def] abs cnt lend hash rest lens b(2)
      by (simp add: absorbed_def)
  qed
qed

lemma absorbed_init: "absorbed SHA1Init []"
  by (simp add: absorbed_def SHA1Init_def sha_H0_def sha_rest_def)

text \<open>Padding: zero bytes until eight bytes are free in the block.\<close>

lemma pad_arith: "k < 64 \<Longrightarrow> k \<noteq> 56 \<Longrightarrow> (120 - k) mod 64 = Suc ((120 - Suc k mod 64) mod (64 :: nat))"
proof -
  assume k: "k < 64" "k \<noteq> 56"
  consider "k < 56" | "57 \<le> k" "k < 63" | "k = 63" using k by linarith
  then show ?thesis
  proof cases
    case 1
    then have "120 - k = 56 - k + 64" "120 - Suc k = 55 - k + 64" "Suc k mod 64 = Suc k" by simp_all
    moreover have "(56 - k + 64) mod 64 = 56 - k" "(55 - k + 64) mod 64 = 55 - k"
      by (simp_all only: mod_add_self2) simp_all
    ultimately show ?thesis using 1 by simp
  qed simp_all
qed

lemma sha_pad_absorbed:
  "absorbed ctx m \<Longrightarrow> \<exists>ctx'. sha_pad ctx = Inr ctx' \<and> absorbed ctx' (m @ replicate ((120 - length m mod 64) mod 64) 0)"
proof (induction ctx arbitrary: m rule: sha_pad.induct)
  case (1 ctx)
  let ?k = "length m mod 64"
  have cnt: "sha_count0 ctx = of_nat (8 * length m)" using "1.prems" by (simp add: absorbed_def)
  have k: "unat (sha_count0 ctx AND 504) = ?k * 8"
  proof -
    have "unat (sha_count0 ctx) div 8 mod 64 = ?k"
      unfolding cnt unat_of_nat_u32 using mod_mult_mult1 [of 8 "length m" 536870912]
      by (simp add: mod_mod_cancel)
    then show ?thesis by (simp only: and_504)
  qed
  show ?case
  proof (cases "sha_count0 ctx AND 504 = 448")
    case True
    then have "?k * 8 = 448" using k by simp
    then have "?k = 56" by simp
    then show ?thesis using True "1.prems" by (simp add: sha_pad.simps [of ctx])
  next
    case False
    then have "unat (sha_count0 ctx AND 504) \<noteq> unat (448 :: u32)" by (simp only: word_unat_eq_iff not_False_eq_True)
    then have "?k * 8 \<noteq> 448" unfolding k by simp
    then have k56: "?k \<noteq> 56" by simp
    obtain ctx1 where c1: "SHA1Update ctx [0] 1 = Inr ctx1" "absorbed ctx1 (m @ [0])"
      using SHA1Update_absorbed [OF "1.prems", of 1 "[0]"] by auto
    obtain ctx' where c: "sha_pad ctx1 = Inr ctx'"
      "absorbed ctx' ((m @ [0]) @ replicate ((120 - length (m @ [0]) mod 64) mod 64) 0)"
      using "1.IH" [OF False c1] by blast
    have "length (m @ [0]) mod 64 = Suc ?k mod 64" by (simp only: length_append_singleton mod_Suc_eq)
    then have "(120 - ?k) mod 64 = Suc ((120 - length (m @ [0]) mod 64) mod 64)"
      using pad_arith [OF _ k56] by simp
    then have "(m @ [0]) @ replicate ((120 - length (m @ [0]) mod 64) mod 64) 0 = m @ replicate ((120 - ?k) mod 64) 0"
      by simp
    then show ?thesis using c c1 False by (simp add: sha_pad.simps [of ctx])
  qed
qed

lemma SHA1Final_eq:
  assumes "absorbed ctx m" and "8 * length m < 2 ^ 64"
  shows "SHA1Final ctx = Inr (sha1 m)"
proof -
  obtain c1 where c1: "SHA1Update ctx [0x80] 1 = Inr c1" "absorbed c1 (m @ [0x80])"
    using SHA1Update_absorbed [OF assms(1), of 1 "[0x80]"] by auto
  let ?z = "replicate ((119 - length m mod 64) mod 64) (0 :: u8)"
  have z: "(120 - length (m @ [0x80 :: u8]) mod 64) mod 64 = (119 - length m mod 64) mod 64"
  proof -
    have "length m mod 64 < 64" by simp
    then consider "length m mod 64 = 63" | "length m mod 64 < 63" by linarith
    then show ?thesis by cases (simp_all add: mod_Suc)
  qed
  obtain c2 where c2: "sha_pad c1 = Inr c2" "absorbed c2 ((m @ [0x80]) @ ?z)"
    using sha_pad_absorbed [OF c1(2)] unfolding z by blast
  let ?f = "be_bytes (sha_count1 ctx) @ be_bytes (sha_count0 ctx)"
  obtain c3 where c3: "SHA1Update c2 ?f 8 = Inr c3" "absorbed c3 (((m @ [0x80]) @ ?z) @ ?f)"
    using SHA1Update_absorbed [OF c2(2), of 8 ?f] by (auto simp: be_bytes_def)
  have "((m @ [0x80]) @ ?z) @ ?f = fips_pad m"
    using assms(1) by (simp add: fips_pad_def absorbed_def)
  then have "sha_st c3 = hash_blocks sha_H0 (fips_pad m)" using c3(2) by (simp add: absorbed_def)
  then show ?thesis
    using c1 c2 c3 unfolding SHA1Final_def Let_def by (simp add: sha1_def sha_H0_def split: prod.split)
qed

text \<open>A message given in pieces.\<close>

fun SHA1Updates :: "sha1_ctx \<Rightarrow> bytes list \<Rightarrow> sha1_ctx res" where
  "SHA1Updates ctx [] = Inr ctx"
| "SHA1Updates ctx (d # ds) = rbind (SHA1Update ctx d (length d)) (\<lambda>ctx'. SHA1Updates ctx' ds)"

lemma SHA1Updates_absorbed:
  "absorbed ctx m \<Longrightarrow> \<forall>d \<in> set ds. length d < 4294967296 \<Longrightarrow>
     \<exists>ctx'. SHA1Updates ctx ds = Inr ctx' \<and> absorbed ctx' (m @ concat ds)"
proof (induction ds arbitrary: ctx m)
  case (Cons d ds)
  obtain c where c: "SHA1Update ctx d (length d) = Inr c" "absorbed c (m @ d)"
    using SHA1Update_absorbed [OF Cons.prems(1), of "length d" d] Cons.prems(2) by auto
  then show ?case using Cons.IH [OF c(2)] Cons.prems(2) by simp
qed simp



end
