(* ===== verification/Lan_Client.thy ===== *)
theory Lan_Client
  imports Ipv4 Sha1
begin

text \<open>
  \<open>lan-client.c\<close>: the datagrams exchanged with the relay server. A packet from the console is
  sent in one datagram, or in fragments when a path MTU is configured; a datagram from the relay
  is an IPv4 packet for the console, a fragment of one, or a login challenge. The receive buffer
  \<open>client_buf\<close> keeps the bytes of earlier datagrams behind a shorter later one, and the handlers
  can read them.
\<close>

section \<open>Constants\<close>

definition LC_FRAG_SRC :: nat where "LC_FRAG_SRC = 0"
definition LC_FRAG_DST :: nat where "LC_FRAG_DST = 4"
definition LC_FRAG_ID :: nat where "LC_FRAG_ID = 8"
definition LC_FRAG_PART :: nat where "LC_FRAG_PART = 10"
definition LC_FRAG_TOTAL_PART :: nat where "LC_FRAG_TOTAL_PART = 11"
definition LC_FRAG_LEN :: nat where "LC_FRAG_LEN = 12"
definition LC_FRAG_PMTU :: nat where "LC_FRAG_PMTU = 14"
definition LC_FRAG_HEADER_LEN :: nat where "LC_FRAG_HEADER_LEN = 16"

lemmas frag_offsets = LC_FRAG_SRC_def LC_FRAG_DST_def LC_FRAG_ID_def LC_FRAG_PART_def
  LC_FRAG_TOTAL_PART_def LC_FRAG_LEN_def LC_FRAG_PMTU_def LC_FRAG_HEADER_LEN_def

definition LAN_CLIENT_TYPE_KEEPALIVE :: u8 where "LAN_CLIENT_TYPE_KEEPALIVE = 0x00"
definition LAN_CLIENT_TYPE_IPV4 :: u8 where "LAN_CLIENT_TYPE_IPV4 = 0x01"
definition LAN_CLIENT_TYPE_PING :: u8 where "LAN_CLIENT_TYPE_PING = 0x02"
definition LAN_CLIENT_TYPE_IPV4_FRAG :: u8 where "LAN_CLIENT_TYPE_IPV4_FRAG = 0x03"
definition LAN_CLIENT_TYPE_AUTH_ME :: u8 where "LAN_CLIENT_TYPE_AUTH_ME = 0x04"
definition LAN_CLIENT_TYPE_INFO :: u8 where "LAN_CLIENT_TYPE_INFO = 0x10"

lemmas client_types = LAN_CLIENT_TYPE_KEEPALIVE_def LAN_CLIENT_TYPE_IPV4_def LAN_CLIENT_TYPE_PING_def
  LAN_CLIENT_TYPE_IPV4_FRAG_def LAN_CLIENT_TYPE_AUTH_ME_def LAN_CLIENT_TYPE_INFO_def

section \<open>Sending to the relay\<close>

text \<open>A \<open>uv_buf_t\<close>: base pointer and length.\<close>

type_synonym uv_buf = "bytes \<times> nat"

fun gather :: "uv_buf list \<Rightarrow> bytes res" where
  "gather [] = Inr []"
| "gather ((base, len) # bufs) = rbind (rdn base 0 len) (\<lambda>s. rbind (gather bufs) (\<lambda>r. Inr (s @ r)))"

definition lan_client_send_raw :: "env \<Rightarrow> uv_buf list \<Rightarrow> int op" where
  "lan_client_send_raw E bufs lp =
     (let total_len = sum_list (map snd bufs) in
      if total_len = 0 then Inr (0, lp)
      else
        rbind (gather bufs) (\<lambda>packet.
        let ret = udp_send_rc E (length (lp_udp_log lp)) in
        Inr (ret, lp\<lparr>lp_udp_log := lp_udp_log lp @ [(lp_server_addr lp, packet)],
                     lp_upload_packet := lp_upload_packet lp + 1,
                     lp_upload_byte := lp_upload_byte lp + of_nat total_len\<rparr>)))"

text \<open>The loop over the fragments, with \<open>pos < len\<close> as its condition. The path MTU is positive
  here.\<close>

function send_frags ::
  "env \<Rightarrow> nat \<Rightarrow> nat \<Rightarrow> int \<Rightarrow> bytes \<Rightarrow> bytes \<Rightarrow> nat \<Rightarrow> nat \<Rightarrow> int op" where
  "send_frags E pmtu len frag_id header packet i pos lp =
     (if pos < len \<and> 0 < pmtu then
        let part_len = min pmtu (len - pos);
            header = WRITE_NET16 header LC_FRAG_ID (of_int frag_id);
            header = WRITE_NET8 header LC_FRAG_PART (of_nat i);
            header = WRITE_NET16 header LC_FRAG_LEN (of_nat part_len) in
        rbind (lan_client_send_raw E
          [([LAN_CLIENT_TYPE_IPV4_FRAG], 1), (header, LC_FRAG_HEADER_LEN), (drop pos packet, part_len)] lp)
          (\<lambda>(ret, lp1).
        if ret \<noteq> 0 then Inr (ret, lp1)
        else send_frags E pmtu len frag_id header packet (i + 1) (pos + part_len) lp1)
      else Inr (0, lp))"
  by pat_completeness auto
termination by (relation "measure (\<lambda>(_, _, len, _, _, _, _, pos, _). len - pos)") auto

declare send_frags.simps [simp del]

definition lan_client_send :: "env \<Rightarrow> u8 \<Rightarrow> bytes \<Rightarrow> u16 \<Rightarrow> int op" where
  "lan_client_send E type packet len lp =
     (let pmtu = lp_pmtu lp;
          plain = lan_client_send_raw E [([type], 1), (packet, unat len)] lp in
      if type = LAN_CLIENT_TYPE_IPV4 \<and> pmtu > 0 then
        let total_part = int (unat len) div pmtu;
            total_part = (if pmtu * total_part < int (unat len) then total_part + 1 else total_part) in
        if total_part > 1 then
          if lp_frag_id lp = INT_MAX then Inl Int_overflow
          else
            let frag_id = lp_frag_id lp;
                lp1 = lp\<lparr>lp_frag_id := frag_id + 1\<rparr> in
            rbind (CPY_IPV4 packet IPV4_OFF_SRC) (\<lambda>src.
            rbind (CPY_IPV4 packet IPV4_OFF_DST) (\<lambda>dst.
            let header = stack_array LC_FRAG_HEADER_LEN;
                header = PUT_IPV4 header LC_FRAG_SRC src;
                header = PUT_IPV4 header LC_FRAG_DST dst;
                header = WRITE_NET8 header LC_FRAG_TOTAL_PART (of_int total_part);
                header = WRITE_NET16 header LC_FRAG_PMTU (of_int pmtu) in
            send_frags E (nat pmtu) (unat len) frag_id header packet 0 0 lp1))
        else plain
      else plain)"

definition lan_client_send_keepalive :: "env \<Rightarrow> int op" where
  "lan_client_send_keepalive E = lan_client_send E LAN_CLIENT_TYPE_KEEPALIVE [] 0"

definition lan_client_send_ipv4 :: "env \<Rightarrow> ip4 \<Rightarrow> bytes \<Rightarrow> u16 \<Rightarrow> int op" where
  "lan_client_send_ipv4 E dst_ip packet len = lan_client_send E LAN_CLIENT_TYPE_IPV4 packet len"

definition lan_client_send_auth_me :: "env \<Rightarrow> bytes \<Rightarrow> u16 \<Rightarrow> int op" where
  "lan_client_send_auth_me E packet len = lan_client_send E LAN_CLIENT_TYPE_AUTH_ME packet len"

section \<open>Delivering packets to the console\<close>

definition lan_client_arp_for_each_cb :: "env \<Rightarrow> bytes \<Rightarrow> u16 \<Rightarrow> arp_item \<Rightarrow> int op" where
  "lan_client_arp_for_each_cb E packet len item lp =
     rbind (send_ether E (ai_mac item) ETHER_TYPE_IPV4 [\<lparr>pl_ptr = packet, pl_len = len\<rparr>] lp) (\<lambda>(_, lp').
     Inr (0, lp'))"

definition lan_client_on_broadcast :: "env \<Rightarrow> bytes \<Rightarrow> u16 \<Rightarrow> int op" where
  "lan_client_on_broadcast E packet len lp =
     (if lp_next_real_broadcast lp then
        send_ether E BROADCAST_MAC ETHER_TYPE_IPV4 [\<lparr>pl_ptr = packet, pl_len = len\<rparr>]
          (lp\<lparr>lp_next_real_broadcast := False\<rparr>)
      else
        rbind (arp_for_each E (lan_client_arp_for_each_cb E packet len) lp) (\<lambda>lp'. Inr (0, lp')))"

definition lan_client_process :: "env \<Rightarrow> bytes \<Rightarrow> u16 \<Rightarrow> int op" where
  "lan_client_process E packet len lp =
     (if len = 0 then Inr (0, lp)
      else
        rbind (CPY_IPV4 packet IPV4_OFF_DST) (\<lambda>dst.
        if IS_BROADCAST dst (pc_subnet_net (lp_packet_ctx lp)) (pc_subnet_mask (lp_packet_ctx lp)) then
          lan_client_on_broadcast E packet len lp
        else
          rbind (arp_get_mac_by_ip E dst lp) (\<lambda>(found, lp1).
          case found of
            None \<Rightarrow> Inr (0, lp1)
          | Some dst_mac \<Rightarrow> send_ether E dst_mac ETHER_TYPE_IPV4 [\<lparr>pl_ptr = packet, pl_len = len\<rparr>] lp1)))"

section \<open>Fragments from the relay\<close>

record lan_client_fragment_header =
  fh_src :: ip4
  fh_dst :: ip4
  fh_id :: u16
  fh_part :: u8
  fh_total_part :: u8
  fh_len :: u16
  fh_pmtu :: u16

definition read_frag_header :: "bytes \<Rightarrow> lan_client_fragment_header res" where
  "read_frag_header packet =
     rbind (CPY_IPV4 packet LC_FRAG_SRC) (\<lambda>src.
     rbind (CPY_IPV4 packet LC_FRAG_DST) (\<lambda>dst.
     rbind (READ_NET16 packet LC_FRAG_ID) (\<lambda>frag_id.
     rbind (READ_NET8 packet LC_FRAG_PART) (\<lambda>part.
     rbind (READ_NET8 packet LC_FRAG_TOTAL_PART) (\<lambda>total_part.
     rbind (READ_NET16 packet LC_FRAG_LEN) (\<lambda>len.
     rbind (READ_NET16 packet LC_FRAG_PMTU) (\<lambda>pmtu.
     Inr \<lparr>fh_src = src, fh_dst = dst, fh_id = frag_id, fh_part = part, fh_total_part = total_part,
          fh_len = len, fh_pmtu = pmtu\<rparr>)))))))"

text \<open>The slot of the table that takes the fragments of a packet: the one that already has some,
  else a free one, else, when the oldest is older than the size of the table, that one.\<close>

definition frag_match :: "lan_client_fragment_header \<Rightarrow> lan_client_fragment \<Rightarrow> bool" where
  "frag_match h f \<longleftrightarrow> fr_used f \<noteq> 0 \<and> fr_id f = fh_id h \<and> CMP_IPV4 (fr_src f) (fh_src h)"

fun frag_oldest :: "int \<Rightarrow> lan_client_fragment list \<Rightarrow> nat \<Rightarrow> int \<Rightarrow> nat option \<Rightarrow> int \<times> nat option" where
  "frag_oldest local_id [] i max_dif to_delete = (max_dif, to_delete)"
| "frag_oldest local_id (f # fs) i max_dif to_delete =
     (let dif = \<bar>int (unat (fr_local_id f)) - local_id\<bar> in
      if fr_used f \<noteq> 0 \<and> dif > max_dif then frag_oldest local_id fs (i + 1) dif (Some i)
      else frag_oldest local_id fs (i + 1) max_dif to_delete)"

text \<open>Taking a slot for a new packet, which uses up a local id.\<close>

definition frag_open :: "lan_client_fragment_header \<Rightarrow> nat \<Rightarrow> lan_play \<Rightarrow> lan_play res" where
  "frag_open h i lp =
     (if lp_local_id lp = INT_MAX then Inl Int_overflow
      else Inr (lp\<lparr>lp_frags := (lp_frags lp)[i := (lp_frags lp ! i)
                     \<lparr>fr_used := 1, fr_id := fh_id h, fr_local_id := of_int (lp_local_id lp),
                      fr_src := fh_src h, fr_part := 0\<rparr>],
                   lp_local_id := lp_local_id lp + 1\<rparr>))"

definition frag_slot :: "lan_client_fragment_header \<Rightarrow> lan_play \<Rightarrow> (nat option \<times> lan_play) res" where
  "frag_slot h lp =
     (case find_index (frag_match h) (lp_frags lp) of
        Some i \<Rightarrow> Inr (Some i, lp)
      | None \<Rightarrow>
          (case find_index (\<lambda>f. fr_used f = 0) (lp_frags lp) of
             Some i \<Rightarrow> rbind (frag_open h i lp) (\<lambda>lp'. Inr (Some i, lp'))
           | None \<Rightarrow>
               (case frag_oldest (lp_local_id lp) (lp_frags lp) 0 0 None of
                  (max_dif, Some i) \<Rightarrow>
                    if max_dif > int LC_FRAG_COUNT then rbind (frag_open h i lp) (\<lambda>lp'. Inr (Some i, lp'))
                    else Inr (None, lp)
                | (max_dif, None) \<Rightarrow> Inr (None, lp))))"

text \<open>Putting a fragment in its slot; \<open>1 << part\<close> and \<open>~0 << total_part\<close> are shifts of \<open>int\<close>.\<close>

definition frag_store :: "lan_client_fragment_header \<Rightarrow> bytes \<Rightarrow> lan_client_fragment \<Rightarrow> lan_client_fragment res" where
  "frag_store h packet f =
     (if unat (fh_part h) \<ge> 32 then Inl Bad_shift
      else
        let f1 = f\<lparr>fr_part := fr_part f OR push_bit (unat (fh_part h)) 1\<rparr> in
        rbind (rdn packet LC_FRAG_HEADER_LEN (unat (fh_len h))) (\<lambda>s.
        rbind (wrn (fr_buffer f1) (unat (fh_pmtu h) * unat (fh_part h)) s) (\<lambda>buffer.
        let f2 = f1\<lparr>fr_buffer := buffer\<rparr> in
        Inr (if int (unat (fh_part h)) = int (unat (fh_total_part h)) - 1
             then f2\<lparr>fr_total_len := of_int ((int (unat (fh_total_part h)) - 1) * int (unat (fh_pmtu h))
                       + int (unat (fh_len h)))\<rparr>
             else f2))))"

definition frag_complete :: "lan_client_fragment_header \<Rightarrow> lan_client_fragment \<Rightarrow> bool res" where
  "frag_complete h f =
     (if unat (fh_total_part h) \<ge> 32 then Inl Bad_shift
      else Inr (2 ^ unat (fh_total_part h) - 1 = int (unat (fr_part f))))"

definition lan_client_process_frag :: "env \<Rightarrow> bytes \<Rightarrow> u16 \<Rightarrow> int op" where
  "lan_client_process_frag E packet len lp =
     rbind (read_frag_header packet) (\<lambda>h.
     rbind (frag_slot h lp) (\<lambda>(slot, lp1).
     case slot of
       None \<Rightarrow> Inr (0, lp1)
     | Some i \<Rightarrow>
         rbind (frag_store h packet (lp_frags lp1 ! i)) (\<lambda>f.
         rbind (frag_complete h f) (\<lambda>complete.
         if complete then
           lan_client_process E (fr_buffer f) (fr_total_len f)
             (lp1\<lparr>lp_frags := (lp_frags lp1)[i := f\<lparr>fr_used := 0\<rparr>]\<rparr>)
         else Inr (0, lp1\<lparr>lp_frags := (lp_frags lp1)[i := f]\<rparr>)))))"

section \<open>Timers and login\<close>

definition lan_client_real_broadcast_timer :: "lan_play \<Rightarrow> lan_play" where
  "lan_client_real_broadcast_timer lp = lp\<lparr>lp_next_real_broadcast := True\<rparr>"

definition lan_client_keepalive_timer :: "env \<Rightarrow> lan_play \<Rightarrow> lan_play res" where
  "lan_client_keepalive_timer E lp = rbind (lan_client_send_keepalive E lp) (\<lambda>(_, lp'). Inr lp')"

text \<open>The lengths are \<open>uint16_t\<close>, the block for the response is what \<open>malloc\<close> returned for one.\<close>

definition lan_client_process_auth_me :: "env \<Rightarrow> bytes \<Rightarrow> u16 \<Rightarrow> lan_play \<Rightarrow> lan_play res" where
  "lan_client_process_auth_me E packet len lp =
     (case lp_username lp of
        None \<Rightarrow> Inr lp
      | Some username \<Rightarrow>
          rbind (rd packet 0) (\<lambda>auth_type.
          if auth_type = 0 then
            let challenge_len = len - 1;
                username_len = of_nat (length username) :: u16;
                response_len = 20 + username_len;
                response = stack_array (unat response_len) in
            rbind (SHA1Update SHA1Init (lp_key lp) 20) (\<lambda>ctx.
            rbind (SHA1Update ctx (drop 1 packet) (unat challenge_len)) (\<lambda>ctx.
            rbind (SHA1Final ctx) (\<lambda>digest.
            rbind (wrn response 0 digest) (\<lambda>response.
            rbind (rdn username 0 (unat username_len)) (\<lambda>name.
            rbind (wrn response 20 name) (\<lambda>response.
            rbind (lan_client_send_auth_me E response response_len lp) (\<lambda>(_, lp').
            Inr lp')))))))
          else Inr lp))"

section \<open>Receiving\<close>

text \<open>The callback of libuv, with the datagram already in \<open>client_buf\<close>.\<close>

definition lan_client_on_recv :: "env \<Rightarrow> int \<Rightarrow> lan_play \<Rightarrow> lan_play res" where
  "lan_client_on_recv E nread lp =
     (if nread \<le> 0 then Inr lp
      else
        let recv_len = of_int nread :: u16;
            buffer = lp_client_buf lp in
        rbind (rd buffer 0) (\<lambda>b.
        let type = b AND 0x7f;
            lp = lp\<lparr>lp_download_packet := lp_download_packet lp + 1,
                    lp_download_byte := lp_download_byte lp + ucast recv_len\<rparr> in
        if type = LAN_CLIENT_TYPE_IPV4 then
          rbind (lan_client_process E (drop 1 buffer) (recv_len - 1) lp) (\<lambda>(_, lp'). Inr lp')
        else if type = LAN_CLIENT_TYPE_IPV4_FRAG then
          rbind (lan_client_process_frag E (drop 1 buffer) (recv_len - 1) lp) (\<lambda>(_, lp'). Inr lp')
        else if type = LAN_CLIENT_TYPE_AUTH_ME then
          lan_client_process_auth_me E (drop 1 buffer) (recv_len - 1) lp
        else Inr lp))"

text \<open>A datagram arrives: libuv fills the buffer that \<open>lan_client_alloc_cb\<close> gave it, cutting the
  datagram at its size, and calls back.\<close>

definition recv_datagram :: "env \<Rightarrow> bytes \<Rightarrow> lan_play \<Rightarrow> lan_play res" where
  "recv_datagram E d lp =
     (let d = take (length (lp_client_buf lp)) d;
          lp = lp\<lparr>lp_client_buf := d @ drop (length d) (lp_client_buf lp)\<rparr>
      in lan_client_on_recv E (int (length d)) lp)"

section \<open>What delivering a packet does\<close>

text \<open>One frame per hardware address, in order.\<close>

fun send_each :: "mac6 list \<Rightarrow> bytes \<Rightarrow> lan_play \<Rightarrow> lan_play" where
  "send_each [] data lp = lp"
| "send_each (m # ms) data lp =
     send_each ms data (frame_sent (ether_header m (pc_mac (lp_packet_ctx lp)) ETHER_TYPE_IPV4 @ data) lp)"

definition live_macs :: "env \<Rightarrow> lan_play \<Rightarrow> mac6 list" where
  "live_macs E lp =
     map ai_mac (filter (\<lambda>item. ai_expire_at item > clock E) (pc_arp_list (lp_packet_ctx lp)))"

lemma send_each_fields [simp]:
  "lp_frags (send_each ms data lp) = lp_frags lp"
  "lp_gateway (send_each ms data lp) = lp_gateway lp"
  "lp_udp_log (send_each ms data lp) = lp_udp_log lp"
  "lp_frag_id (send_each ms data lp) = lp_frag_id lp"
  "lp_local_id (send_each ms data lp) = lp_local_id lp"
  "lp_pmtu (send_each ms data lp) = lp_pmtu lp"
  by (induction ms arbitrary: lp) simp_all

lemma send_each_inv: "lp_inv lp \<Longrightarrow> 14 + length data < 2048 \<Longrightarrow> lp_inv (send_each ms data lp)"
  by (induction ms arbitrary: lp) simp_all

text \<open>The packet as payload of a frame.\<close>

lemma send_packet_eq:
  assumes "lp_inv lp" and "unat len \<le> length packet" and "14 + unat len < 2048"
  shows "send_ether E dst ETHER_TYPE_IPV4 [\<lparr>pl_ptr = packet, pl_len = len\<rparr>] lp =
    Inr (0, frame_sent (ether_header dst (pc_mac (lp_packet_ctx lp)) ETHER_TYPE_IPV4 @ take (unat len) packet) lp)"
  using send_ether_eq [OF assms(1), of "[\<lparr>pl_ptr = packet, pl_len = len\<rparr>]"] assms(2,3)
  by (simp add: payload_ok_def payload_bytes_def)

lemma for_each_loop_eq:
  assumes "lp_inv lp" and "\<forall>i \<in> set is. i < 100" and "unat len \<le> length packet" and "14 + unat len < 2048"
  shows "arp_for_each_loop E (lan_client_arp_for_each_cb E packet len) is lp =
    Inr (send_each (map ai_mac (filter (\<lambda>item. ai_expire_at item > clock E)
      (map ((!) (pc_arp_list (lp_packet_ctx lp))) is))) (take (unat len) packet) lp)"
  using assms(1,2)
proof (induction "is" arbitrary: lp)
  case (Cons i "is")
  let ?lp' = "frame_sent (ether_header (ai_mac (pc_arp_list (lp_packet_ctx lp) ! i)) (pc_mac (lp_packet_ctx lp))
    ETHER_TYPE_IPV4 @ take (unat len) packet) lp"
  have "lp_inv ?lp'" using Cons.prems(1) assms(3,4) by simp
  from Cons.IH [OF this] Cons.IH [OF Cons.prems(1)] Cons.prems lp_invD(5) [OF Cons.prems(1)]
  show ?case
    by (simp add: lan_client_arp_for_each_cb_def send_packet_eq [OF Cons.prems(1) assms(3,4)])
qed simp

lemma for_each_eq:
  assumes "lp_inv lp" and "unat len \<le> length packet" and "14 + unat len < 2048"
  shows "arp_for_each E (lan_client_arp_for_each_cb E packet len) lp =
    Inr (send_each (live_macs E lp) (take (unat len) packet) lp)"
proof -
  have "map ((!) (pc_arp_list (lp_packet_ctx lp))) [0..<ARP_CACHE_LEN] = pc_arp_list (lp_packet_ctx lp)"
    using lp_invD(5) [OF assms(1)] map_nth [of "pc_arp_list (lp_packet_ctx lp)"] by (simp add: ARP_CACHE_LEN_def)
  then show ?thesis
    using for_each_loop_eq [OF assms(1) _ assms(2,3), of "[0..<ARP_CACHE_LEN]" E]
    by (simp add: arp_for_each_def live_macs_def ARP_CACHE_LEN_def)
qed

text \<open>The delivery of a packet to an address of the subnet.\<close>

definition deliver :: "env \<Rightarrow> ip4 \<Rightarrow> bytes \<Rightarrow> lan_play \<Rightarrow> lan_play" where
  "deliver E dst data lp =
     (if IS_BROADCAST dst (pc_subnet_net (lp_packet_ctx lp)) (pc_subnet_mask (lp_packet_ctx lp)) then
        if lp_next_real_broadcast lp
        then frame_sent (ether_header BROADCAST_MAC (pc_mac (lp_packet_ctx lp)) ETHER_TYPE_IPV4 @ data)
               (lp\<lparr>lp_next_real_broadcast := False\<rparr>)
        else send_each (live_macs E lp) data lp
      else
        case arp_list_get (clock E) dst (pc_arp_list (lp_packet_ctx lp)) of
          Some mac \<Rightarrow> frame_sent (ether_header mac (pc_mac (lp_packet_ctx lp)) ETHER_TYPE_IPV4 @ data) lp
        | None \<Rightarrow> frame_sent (ether_header BROADCAST_MAC (pc_mac (lp_packet_ctx lp)) ETHER_TYPE_ARP
            @ arp_bytes ARP_OPCODE_REQUEST (pc_mac (lp_packet_ctx lp)) (pc_ip (lp_packet_ctx lp)) NONE_MAC dst) lp)"

lemma deliver_inv: "lp_inv lp \<Longrightarrow> 14 + length data < 2048 \<Longrightarrow> lp_inv (deliver E dst data lp)"
proof -
  assume a: "lp_inv lp" "14 + length data < 2048"
  moreover have "lp_inv (lp\<lparr>lp_next_real_broadcast := False\<rparr>)" using a(1) by (simp add: lp_inv_def)
  ultimately show ?thesis by (auto simp: deliver_def send_each_inv split: option.split)
qed

lemma lan_client_process_eq:
  assumes "lp_inv lp" and "20 \<le> length packet" and "unat len \<le> length packet" and "14 + unat len < 2048"
    and "len \<noteq> 0"
  shows "lan_client_process E packet len lp = Inr (0, deliver E (pkt_dst packet) (take (unat len) packet) lp)"
proof -
  have "CPY_IPV4 packet IPV4_OFF_DST = Inr (pkt_dst packet)"
    using assms(2) by (simp add: IPV4_OFF_DST_def CPY_IPV4_eq pkt_dst_def)
  moreover have "lp_inv (lp\<lparr>lp_next_real_broadcast := False\<rparr>)" using assms(1) by (simp add: lp_inv_def)
  note send_packet_eq [OF this assms(3,4)]
  ultimately show ?thesis
    using assms(5)
    by (simp add: lan_client_process_def lan_client_on_broadcast_def for_each_eq [OF assms(1,3,4)]
        arp_get_mac_eq [OF assms(1)] send_packet_eq [OF assms(1,3,4)] deliver_def split: option.split)
qed

section \<open>What sending to the relay does\<close>

fun relay_sent :: "bytes list \<Rightarrow> lan_play \<Rightarrow> lan_play" where
  "relay_sent [] lp = lp"
| "relay_sent (d # ds) lp =
     relay_sent ds (lp\<lparr>lp_udp_log := lp_udp_log lp @ [(lp_server_addr lp, d)],
                       lp_upload_packet := lp_upload_packet lp + 1,
                       lp_upload_byte := lp_upload_byte lp + of_nat (length d)\<rparr>)"

lemma relay_sent_fields [simp]:
  "lp_server_addr (relay_sent ds lp) = lp_server_addr lp"
  "lp_frag_id (relay_sent ds lp) = lp_frag_id lp"
  "lp_local_id (relay_sent ds lp) = lp_local_id lp"
  "lp_frags (relay_sent ds lp) = lp_frags lp"
  "lp_packet_ctx (relay_sent ds lp) = lp_packet_ctx lp"
  "lp_pcap (relay_sent ds lp) = lp_pcap lp"
  "lp_gateway (relay_sent ds lp) = lp_gateway lp"
  "lp_pmtu (relay_sent ds lp) = lp_pmtu lp"
  "lp_client_buf (relay_sent ds lp) = lp_client_buf lp"
  "lp_key (relay_sent ds lp) = lp_key lp"
  "lp_username (relay_sent ds lp) = lp_username lp"
  "lp_next_real_broadcast (relay_sent ds lp) = lp_next_real_broadcast lp"
  by (induction ds arbitrary: lp) simp_all

lemma lp_inv_relay_sent [simp]: "lp_inv (relay_sent ds lp) = lp_inv lp"
  by (simp add: lp_inv_def)

lemma relay_sent_log: "lp_udp_log (relay_sent ds lp) = lp_udp_log lp @ map (Pair (lp_server_addr lp)) ds"
  by (induction ds arbitrary: lp) simp_all

lemma send_raw_eq:
  assumes "gather bufs = Inr d" and "d \<noteq> []"
  shows "lan_client_send_raw E bufs lp = Inr (udp_send_rc E (length (lp_udp_log lp)), relay_sent [d] lp)"
proof -
  have "sum_list (map snd bufs) = length d"
    using assms(1) by (induction bufs arbitrary: d rule: gather.induct) (auto simp: rbind_eq_Inr dest: rdn_length)
  then show ?thesis using assms by (simp add: lan_client_send_raw_def Let_def)
qed

lemma send_plain_eq:
  assumes "unat len \<le> length packet" and "type \<noteq> LAN_CLIENT_TYPE_IPV4 \<or> lp_pmtu lp \<le> 0 \<or> int (unat len) \<le> lp_pmtu lp"
  shows "lan_client_send E type packet len lp =
    Inr (udp_send_rc E (length (lp_udp_log lp)), relay_sent [type # take (unat len) packet] lp)"
proof -
  let ?n = "int (unat len)" and ?p = "lp_pmtu lp"
  have "gather [([type], 1), (packet, unat len)] = Inr (type # take (unat len) packet)"
    using assms(1) by (simp add: rdn_def)
  note raw = send_raw_eq [OF this]
  have "(if ?p * (?n div ?p) < ?n then ?n div ?p + 1 else ?n div ?p) \<le> 1" if "0 < ?p" "?n \<le> ?p"
    using that by (cases "?n = ?p") simp_all
  then show ?thesis
    using assms(2) raw by (auto simp: lan_client_send_def Let_def)
qed

section \<open>Fragments\<close>

definition frag_header :: "ip4 \<Rightarrow> ip4 \<Rightarrow> u16 \<Rightarrow> u8 \<Rightarrow> u8 \<Rightarrow> u16 \<Rightarrow> u16 \<Rightarrow> bytes" where
  "frag_header src dst frag_id part total_part len pmtu =
     ip_bytes src @ ip_bytes dst @
     [hi8 frag_id, lo8 frag_id, part, total_part, hi8 len, lo8 len, hi8 pmtu, lo8 pmtu]"

lemma length_frag_header [simp]: "length (frag_header s d i k n l p) = 16"
  by (simp add: frag_header_def)

text \<open>The number of fragments, and the k-th piece of a packet.\<close>

definition frag_count :: "nat \<Rightarrow> nat \<Rightarrow> nat" where
  "frag_count pmtu len = (if pmtu * (len div pmtu) < len then len div pmtu + 1 else len div pmtu)"

definition frag_piece :: "nat \<Rightarrow> bytes \<Rightarrow> nat \<Rightarrow> bytes" where
  "frag_piece pmtu data k = take pmtu (drop (k * pmtu) data)"

definition frag_bytes :: "u16 \<Rightarrow> nat \<Rightarrow> bytes \<Rightarrow> nat \<Rightarrow> bytes" where
  "frag_bytes frag_id pmtu data k =
     frag_header (pkt_src data) (pkt_dst data) frag_id (of_nat k) (of_nat (frag_count pmtu (length data)))
       (of_nat (length (frag_piece pmtu data k))) (of_nat pmtu) @ frag_piece pmtu data k"

lemma frag_count_iff: "0 < pmtu \<Longrightarrow> k < frag_count pmtu len \<longleftrightarrow> k * pmtu < len"
proof -
  assume p: "0 < pmtu"
  let ?q = "len div pmtu" and ?r = "len mod pmtu"
  have len: "len = pmtu * ?q + ?r" by simp
  have r: "?r < pmtu" using p by simp
  show ?thesis
  proof (cases "?r = 0")
    case True
    then have "frag_count pmtu len = ?q" "len = ?q * pmtu" using len by (simp_all add: frag_count_def mult.commute)
    then show ?thesis using p by (metis mult_less_cancel2)
  next
    case False
    then have "pmtu * ?q < len" using len by linarith
    then have c: "frag_count pmtu len = Suc ?q" by (simp add: frag_count_def)
    show ?thesis
    proof (cases "k \<le> ?q")
      case True
      then have "k * pmtu \<le> pmtu * ?q" by (simp add: mult.commute)
      then show ?thesis using c True False len by linarith
    next
      case k: False
      then have "Suc ?q * pmtu \<le> k * pmtu" by (intro mult_le_mono1) simp
      then have "pmtu + pmtu * ?q \<le> k * pmtu" by (simp add: mult.commute)
      then have "len < k * pmtu" using len r by linarith
      then show ?thesis using c k by simp
    qed
  qed
qed

lemma frag_header_set:
  "WRITE_NET16 (WRITE_NET8 (WRITE_NET16 (frag_header s d i k n l p) LC_FRAG_ID i') LC_FRAG_PART k') LC_FRAG_LEN l' =
     frag_header s d i' k' n l' p"
  by (cases s; cases d) (simp add: frag_header_def frag_offsets WRITE_NET16_eq WRITE_NET8_def numeral_eq_Suc)

lemma frag_header_init:
  "WRITE_NET16 (WRITE_NET8 (PUT_IPV4 (PUT_IPV4 (stack_array LC_FRAG_HEADER_LEN) LC_FRAG_SRC s) LC_FRAG_DST d)
     LC_FRAG_TOTAL_PART n) LC_FRAG_PMTU p = frag_header s d 0 0 n 0 p"
  by (cases s; cases d)
    (simp add: frag_header_def frag_offsets stack_array_def WRITE_NET16_eq WRITE_NET8_def numeral_eq_Suc)

lemma length_frag_piece: "length (frag_piece pmtu data k) = min pmtu (length data - k * pmtu)"
  by (simp add: frag_piece_def)

lemma min_step: "a < n \<Longrightarrow> a + min p (n - a) = min (p + a) n" for a n p :: nat
  by arith

lemma send_frags_eq:
  assumes "0 < pmtu" and "\<And>n. udp_send_rc E n = 0" and "len = length data" and "packet = data @ rest"
    and "n = of_nat (frag_count pmtu len)" and "p = of_nat pmtu"
  shows "pos = min (i * pmtu) len \<Longrightarrow>
    send_frags E pmtu len frag_id (frag_header (pkt_src data) (pkt_dst data) i0 k0 n l0 p) packet i pos lp =
      Inr (0, relay_sent (map (\<lambda>k. LAN_CLIENT_TYPE_IPV4_FRAG # frag_bytes (of_int frag_id) pmtu data k)
        [i..<frag_count pmtu len]) lp)"
proof (induction "frag_count pmtu len - i" arbitrary: i pos i0 k0 l0 lp)
  case 0
  then have "\<not> i < frag_count pmtu len" by simp
  then have "len \<le> i * pmtu" using frag_count_iff [OF assms(1)] by (meson not_less)
  then show ?case using 0 by (simp add: send_frags.simps)
next
  case (Suc m)
  then have i: "i < frag_count pmtu len" by simp
  then have lt: "i * pmtu < len" using frag_count_iff [OF assms(1)] by blast
  then have pos: "pos = i * pmtu" using Suc.prems by simp
  let ?l = "min pmtu (len - pos)" and ?piece = "frag_piece pmtu data i"
  let ?h = "frag_header (pkt_src data) (pkt_dst data) (of_int frag_id) (of_nat i) n (of_nat ?l) p"
  let ?d = "LAN_CLIENT_TYPE_IPV4_FRAG # frag_bytes (of_int frag_id) pmtu data i"
  have l: "?l = length ?piece" by (simp add: length_frag_piece pos assms(3))
  have read: "rdn (drop pos packet) 0 ?l = Inr ?piece"
    using lt assms(3,4) pos by (auto simp: rdn_def frag_piece_def min_def)
  have g: "gather [([LAN_CLIENT_TYPE_IPV4_FRAG], 1), (?h, LC_FRAG_HEADER_LEN), (drop pos packet, ?l)] = Inr ?d"
    unfolding gather.simps read
    by (simp add: mem_simps LC_FRAG_HEADER_LEN_def frag_bytes_def assms(3,5,6) l [unfolded assms(3)])
  have next_pos: "pos + ?l = min (Suc i * pmtu) len" 
    using min_step [OF lt, of pmtu] pos by simp
  have rec: "send_frags E pmtu len frag_id ?h packet (Suc i) (pos + ?l) (relay_sent [?d] lp) =
      Inr (0, relay_sent (map (\<lambda>k. LAN_CLIENT_TYPE_IPV4_FRAG # frag_bytes (of_int frag_id) pmtu data k)
        [Suc i..<frag_count pmtu len]) (relay_sent [?d] lp))"
    using Suc.hyps(2) next_pos by (intro Suc.hyps(1)) simp_all
  have "[i..<frag_count pmtu len] = i # [Suc i..<frag_count pmtu len]" using i by (rule upt_conv_Cons)
  then show ?case
    using rec lt pos assms(1,2) send_raw_eq [OF g, of E lp]
    by (simp add: send_frags.simps [of E pmtu len frag_id _ packet i] frag_header_set Let_def)
qed

lemma lan_client_send_frags_eq:
  assumes "lp_pmtu lp = int pmtu" and "0 < pmtu" and "pmtu < unat len" and "packet = data @ rest"
    and "unat len = length data" and "20 \<le> length data" and "lp_frag_id lp < INT_MAX" and "\<And>n. udp_send_rc E n = 0"
  shows "lan_client_send E LAN_CLIENT_TYPE_IPV4 packet len lp =
    Inr (0, relay_sent (map (\<lambda>k. LAN_CLIENT_TYPE_IPV4_FRAG # frag_bytes (of_int (lp_frag_id lp)) pmtu data k)
      [0..<frag_count pmtu (length data)]) (lp\<lparr>lp_frag_id := lp_frag_id lp + 1\<rparr>))"
proof -
  let ?n = "frag_count pmtu (length data)"
  have total: "(if int pmtu * (int (unat len) div int pmtu) < int (unat len)
      then int (unat len) div int pmtu + 1 else int (unat len) div int pmtu) = int ?n"
    unfolding frag_count_def assms(5)
    by (simp only: zdiv_int [symmetric] of_nat_mult [symmetric] of_nat_less_iff) simp
  have gt: "int ?n > 1" using frag_count_iff [OF assms(2), of 1 "length data"] assms(3,5) by simp
  have hdr: "CPY_IPV4 packet IPV4_OFF_SRC = Inr (pkt_src data)" "CPY_IPV4 packet IPV4_OFF_DST = Inr (pkt_dst data)"
    using assms(4,6) by (simp_all add: ipv4_offsets CPY_IPV4_eq pkt_src_def pkt_dst_def nth_append)
  have frags: "send_frags E pmtu (unat len) (lp_frag_id lp)
      (frag_header (pkt_src data) (pkt_dst data) 0 0 (of_nat ?n) 0 (of_nat pmtu)) packet 0 0
      (lp\<lparr>lp_frag_id := lp_frag_id lp + 1\<rparr>) =
    Inr (0, relay_sent (map (\<lambda>k. LAN_CLIENT_TYPE_IPV4_FRAG # frag_bytes (of_int (lp_frag_id lp)) pmtu data k)
      [0..<?n]) (lp\<lparr>lp_frag_id := lp_frag_id lp + 1\<rparr>))"
    using send_frags_eq [OF assms(2,8), of "unat len" data packet rest "of_nat ?n" "of_nat pmtu" 0 0] assms(4,5)
    by simp
  show ?thesis
    unfolding lan_client_send_def Let_def assms(1) total frag_header_init
    using gt hdr frags assms(2,7) by (simp add: frag_header_init)
qed

lemma find_index_update:
  assumes "\<forall>x \<in> set xs. \<not> P x" and "i < length xs" and "P y"
  shows "find_index P (xs[i := y]) = Some i"
  using assms by (intro find_index_SomeI) auto

text \<open>A fragment as the receiver reads it.\<close>

definition frag_hdr :: "u16 \<Rightarrow> nat \<Rightarrow> bytes \<Rightarrow> nat \<Rightarrow> lan_client_fragment_header" where
  "frag_hdr frag_id pmtu data k =
     \<lparr>fh_src = pkt_src data, fh_dst = pkt_dst data, fh_id = frag_id, fh_part = of_nat k,
      fh_total_part = of_nat (frag_count pmtu (length data)),
      fh_len = of_nat (length (frag_piece pmtu data k)), fh_pmtu = of_nat pmtu\<rparr>"

lemma read_frag_header_eq: "read_frag_header (frag_bytes frag_id pmtu data k @ rest) = Inr (frag_hdr frag_id pmtu data k)"
proof -
  obtain s0 s1 s2 s3 where s: "pkt_src data = IP4 s0 s1 s2 s3" by (cases "pkt_src data")
  obtain d0 d1 d2 d3 where d: "pkt_dst data = IP4 d0 d1 d2 d3" by (cases "pkt_dst data")
  show ?thesis
    by (simp add: read_frag_header_def frag_bytes_def frag_hdr_def frag_header_def s d frag_offsets
        CPY_IPV4_eq READ_NET16_eq READ_NET8_def rd_def nth_append numeral_eq_Suc)
qed

text \<open>A packet that fragmentation handles: more than one and at most eight pieces, and it fits the buffer.\<close>

definition frag_ok :: "nat \<Rightarrow> bytes \<Rightarrow> bool" where
  "frag_ok pmtu data \<longleftrightarrow> 0 < pmtu \<and> pmtu < length data \<and> length data \<le> 1500 \<and> 20 \<le> length data
     \<and> frag_count pmtu (length data) \<le> 8"

lemma frag_okD:
  assumes "frag_ok pmtu data" and "k < frag_count pmtu (length data)"
  shows "0 < pmtu" and "k < 8" and "pmtu < 1500" and "k * pmtu < length data"
    and "unat (of_nat k :: u8) = k" and "unat (of_nat (frag_count pmtu (length data)) :: u8) = frag_count pmtu (length data)"
    and "unat (of_nat pmtu :: u16) = pmtu"
    and "unat (of_nat (length (frag_piece pmtu data k)) :: u16) = length (frag_piece pmtu data k)"
    and "k * pmtu + length (frag_piece pmtu data k) \<le> length data"
proof -
  show p: "0 < pmtu" "k < 8" "pmtu < 1500" using assms by (auto simp: frag_ok_def)
  show k: "k * pmtu < length data" using assms frag_count_iff [OF p(1)] by blast
  show "unat (of_nat k :: u8) = k" using p by (intro unat_of_nat_u8) simp
  show "unat (of_nat (frag_count pmtu (length data)) :: u8) = frag_count pmtu (length data)"
    using assms by (intro unat_of_nat_u8) (simp add: frag_ok_def)
  show "unat (of_nat pmtu :: u16) = pmtu" using p by (intro unat_of_nat_u16) simp
  show "unat (of_nat (length (frag_piece pmtu data k)) :: u16) = length (frag_piece pmtu data k)"
    using p by (intro unat_of_nat_u16) (simp add: length_frag_piece)
  show "k * pmtu + length (frag_piece pmtu data k) \<le> length data"
    using min_step [OF k, of pmtu] by (simp add: length_frag_piece)
qed

lemma last_frag:
  assumes "frag_ok pmtu data" and "n = frag_count pmtu (length data)"
  shows "(n - 1) * pmtu + length (frag_piece pmtu data (n - 1)) = length data" and "1 < n"
proof -
  have p: "0 < pmtu" "pmtu < length data" using assms(1) by (auto simp: frag_ok_def)
  show n: "1 < n" using frag_count_iff [OF p(1), of 1 "length data"] assms(2) p(2) by simp
  have "(n - 1) * pmtu < length data" using frag_count_iff [OF p(1), of "n - 1" "length data"] assms(2) n by simp
  moreover have "length data \<le> n * pmtu" using frag_count_iff [OF p(1), of n "length data"] assms(2) by simp
  moreover have "n * pmtu = (n - 1) * pmtu + pmtu" using n by (metis Suc_diff_1 less_trans mult_Suc add.commute zero_less_one)
  ultimately show "(n - 1) * pmtu + length (frag_piece pmtu data (n - 1)) = length data"
    using min_step [of "(n - 1) * pmtu" "length data" pmtu] by (simp add: length_frag_piece)
qed

text \<open>A slot that holds the pieces \<open>S\<close> of a packet.\<close>

definition holds_pieces :: "u16 \<Rightarrow> nat \<Rightarrow> bytes \<Rightarrow> nat set \<Rightarrow> lan_client_fragment \<Rightarrow> bool" where
  "holds_pieces frag_id pmtu data S f \<longleftrightarrow>
     fr_used f = 1 \<and> fr_id f = frag_id \<and> fr_src f = pkt_src data \<and> length (fr_buffer f) = 1500
     \<and> (\<forall>j. bit (fr_part f) j \<longleftrightarrow> j \<in> S) \<and> S \<subseteq> {..<frag_count pmtu (length data)}
     \<and> (\<forall>p < length data. p div pmtu \<in> S \<longrightarrow> fr_buffer f ! p = data ! p)
     \<and> (frag_count pmtu (length data) - 1 \<in> S \<longrightarrow> unat (fr_total_len f) = length data)"

lemma holds_match: "holds_pieces frag_id pmtu data S f \<Longrightarrow> frag_match (frag_hdr frag_id pmtu data k) f"
  by (simp add: holds_pieces_def frag_match_def frag_hdr_def CMP_IPV4_def)

lemma frag_store_eq:
  assumes ok: "frag_ok pmtu data" and k: "k < frag_count pmtu (length data)"
    and f: "holds_pieces frag_id pmtu data S f"
  shows "\<exists>f'. frag_store (frag_hdr frag_id pmtu data k) (frag_bytes frag_id pmtu data k @ rest) f = Inr f'
    \<and> holds_pieces frag_id pmtu data (insert k S) f'"
proof -
  let ?n = "frag_count pmtu (length data)" and ?s = "frag_piece pmtu data k"
  note d = frag_okD [OF ok k]
  have len: "length data \<le> 1500" using ok by (simp add: frag_ok_def)
  have fb: "length (fr_buffer f) = 1500" using f by (simp add: holds_pieces_def)
  have r: "rdn (frag_bytes frag_id pmtu data k @ rest) LC_FRAG_HEADER_LEN (length ?s) = Inr ?s"
    by (simp add: rdn_def frag_bytes_def LC_FRAG_HEADER_LEN_def)
  have bound: "pmtu * k + length ?s \<le> length (fr_buffer f)" using d(9) len fb by (simp add: mult.commute)
  then obtain b where b: "wrn (fr_buffer f) (pmtu * k) ?s = Inr b" by (simp add: wrn_ok)
  define f2 where "f2 = f\<lparr>fr_part := fr_part f OR push_bit k 1, fr_buffer := b\<rparr>"
  define f' where "f' = (if k = ?n - 1 then f2\<lparr>fr_total_len := of_nat (length data)\<rparr> else f2)"
  have bytes: "b ! p = data ! p" if p: "p < length data" "p div pmtu \<in> insert k S" for p
  proof (cases "p div pmtu = k")
    case True
    then have "k * pmtu \<le> p" "p < k * pmtu + pmtu"
      using d(1) dividend_less_div_times [of pmtu p] div_times_less_eq_dividend [of p pmtu] by simp_all
    moreover have "p < k * pmtu + length ?s"
      using calculation p(1) min_step [OF d(4), of pmtu] by (simp add: length_frag_piece)
    ultimately show ?thesis
      using p(1) len fb wrn_nth [OF b, of p] by (simp add: frag_piece_def mult.commute)
  next
    case False
    have "p div pmtu = k" if "pmtu * k \<le> p" "p < pmtu * k + length ?s"
      using that div_nat_eqI [of pmtu k p] by (simp add: length_frag_piece)
    then have "\<not> (pmtu * k \<le> p \<and> p < pmtu * k + length ?s)" using False by blast
    moreover have "fr_buffer f ! p = data ! p" using f p False by (simp add: holds_pieces_def)
    ultimately show ?thesis using wrn_nth [OF b, of p] p(1) len fb by auto
  qed
  have bits: "bit (fr_part f OR push_bit k 1) j \<longleftrightarrow> j \<in> insert k S" for j
  proof -
    have "bit (fr_part f) j \<longleftrightarrow> j \<in> S" using f by (simp add: holds_pieces_def)
    then show ?thesis using d(2) by (auto simp: bit_or_iff bit_exp_iff possible_bit_word)
  qed
  have total: "of_int ((int ?n - 1) * int pmtu + int (length ?s)) = (of_nat (length data) :: u16)" if "k = ?n - 1"
  proof -
    have "(int ?n - 1) * int pmtu + int (length ?s) = int ((?n - 1) * pmtu + length ?s)"
      using last_frag(2) [OF ok refl] by (simp add: of_nat_diff)
    also have "\<dots> = int (length data)" using last_frag(1) [OF ok refl] that by simp
    finally show ?thesis by (simp only: of_int_of_nat_eq)
  qed
  have "frag_store (frag_hdr frag_id pmtu data k) (frag_bytes frag_id pmtu data k @ rest) f = Inr f'"
    using d(2) r b total last_frag(2) [OF ok refl]
    by (auto simp: frag_store_def frag_hdr_def Let_def d(5-8) f'_def f2_def)
  moreover have "holds_pieces frag_id pmtu data (insert k S) f'"
  proof -
    have "length b = 1500" using wrn_length [OF b] fb by simp
    moreover have "unat (of_nat (length data) :: u16) = length data" using len by (intro unat_of_nat_u16) simp
    moreover have "fr_used f = 1" "fr_id f = frag_id" "fr_src f = pkt_src data" "S \<subseteq> {..<?n}"
      "?n - 1 \<in> S \<longrightarrow> unat (fr_total_len f) = length data"
      using f by (simp_all add: holds_pieces_def)
    ultimately show ?thesis
      using bits bytes k unfolding holds_pieces_def f'_def f2_def by (cases "k = ?n - 1") simp_all
  qed
  ultimately show ?thesis by blast
qed

lemma frag_complete_eq:
  assumes ok: "frag_ok pmtu data" and f: "holds_pieces frag_id pmtu data S f"
  shows "frag_complete (frag_hdr frag_id pmtu data k) f = Inr (S = {..<frag_count pmtu (length data)})"
proof -
  let ?n = "frag_count pmtu (length data)"
  have n: "?n \<le> 8" "0 < ?n" using ok last_frag(2) [OF ok refl] by (simp_all add: frag_ok_def)
  have u: "unat (of_nat ?n :: u8) = ?n" using n by (intro unat_of_nat_u8) simp
  have m: "int (unat (mask ?n :: u8)) = 2 ^ ?n - 1"
  proof -
    have "(2::nat) ^ ?n \<le> 2 ^ 8" using n by (intro power_increasing) simp_all
    then have "unat (of_nat (2 ^ ?n - 1) :: u8) = 2 ^ ?n - 1" by (intro unat_of_nat_u8) simp
    then show ?thesis by (simp add: mask_eq_exp_minus_1 of_nat_diff)
  qed
  have "2 ^ ?n - 1 = int (unat (fr_part f)) \<longleftrightarrow> fr_part f = mask ?n"
    unfolding m [symmetric] of_nat_eq_iff word_unat_eq_iff by auto
  also have "\<dots> \<longleftrightarrow> (\<forall>j. j \<in> S \<longleftrightarrow> j < ?n)"
    using f n by (auto simp: bit_eq_iff holds_pieces_def bit_mask_iff) 
  finally show ?thesis using n u by (auto simp: frag_complete_def frag_hdr_def)
qed

section \<open>Reassembly\<close>

text \<open>Two states that differ only in what receiving and reassembly change.\<close>

definition same_lan :: "lan_play \<Rightarrow> lan_play \<Rightarrow> bool" where
  "same_lan a b \<longleftrightarrow>
     b = a\<lparr>lp_frags := lp_frags b, lp_local_id := lp_local_id b, lp_client_buf := lp_client_buf b,
           lp_download_packet := lp_download_packet b, lp_download_byte := lp_download_byte b\<rparr>"

lemma same_lan_refl: "same_lan a a"
  by (simp add: same_lan_def)

lemma same_lan_frags: "same_lan a b \<Longrightarrow> same_lan a (b\<lparr>lp_frags := fs\<rparr>)"
  by (cases a; cases b) (simp add: same_lan_def)

lemma same_lan_local_id: "same_lan a b \<Longrightarrow> same_lan a (b\<lparr>lp_local_id := n\<rparr>)"
  by (cases a; cases b) (simp add: same_lan_def)

definition received :: "bytes \<Rightarrow> lan_play \<Rightarrow> lan_play" where
  "received d lp =
     lp\<lparr>lp_client_buf := d @ drop (length d) (lp_client_buf lp),
        lp_download_packet := lp_download_packet lp + 1,
        lp_download_byte := lp_download_byte lp + of_nat (length d)\<rparr>"

lemma same_lan_received: "same_lan a b \<Longrightarrow> same_lan a (received d b)"
  by (cases a; cases b) (simp add: same_lan_def received_def)

lemma received_fields [simp]:
  "lp_frags (received d lp) = lp_frags lp" "lp_local_id (received d lp) = lp_local_id lp"
  "lp_packet_ctx (received d lp) = lp_packet_ctx lp" "lp_pcap (received d lp) = lp_pcap lp"
  "lp_gateway (received d lp) = lp_gateway lp" "lp_key (received d lp) = lp_key lp"
  "lp_username (received d lp) = lp_username lp" "lp_server_addr (received d lp) = lp_server_addr lp"
  "lp_udp_log (received d lp) = lp_udp_log lp"
  "lp_next_real_broadcast (received d lp) = lp_next_real_broadcast lp"
  by (simp_all add: received_def)

lemma received_inv: "lp_inv lp \<Longrightarrow> length d \<le> CLIENT_RECV_BUF_LEN \<Longrightarrow> lp_inv (received d lp)"
  by (simp add: lp_inv_def received_def)

text \<open>What a datagram that fits the buffer makes the client do.\<close>

lemma recv_datagram_eq:
  assumes "lp_inv lp" and "d = t # p" and "length d \<le> CLIENT_RECV_BUF_LEN"
  shows "\<exists>rest. length (p @ rest) = 4095 \<and> recv_datagram E d lp =
    (if t AND 0x7f = LAN_CLIENT_TYPE_IPV4 then
       rbind (lan_client_process E (p @ rest) (of_nat (length p)) (received d lp)) (\<lambda>(_, lp'). Inr lp')
     else if t AND 0x7f = LAN_CLIENT_TYPE_IPV4_FRAG then
       rbind (lan_client_process_frag E (p @ rest) (of_nat (length p)) (received d lp)) (\<lambda>(_, lp'). Inr lp')
     else if t AND 0x7f = LAN_CLIENT_TYPE_AUTH_ME then
       lan_client_process_auth_me E (p @ rest) (of_nat (length p)) (received d lp)
     else Inr (received d lp))"
proof -
  have b: "length (lp_client_buf lp) = CLIENT_RECV_BUF_LEN" using assms(1) by (simp add: lp_inv_def)
  let ?rest = "drop (length d) (lp_client_buf lp)"
  have "take (length (lp_client_buf lp)) d = d" using b assms(3) by simp
  moreover have "ucast (of_nat (length d) :: u16) = (of_nat (length d) :: u64)"
    using assms(3) by (intro ucast_of_nat_u64) (simp add: CLIENT_RECV_BUF_LEN_def)
  moreover have "(of_nat (length d) :: u16) - 1 = of_nat (length p)" using assms(2) by simp
  moreover have "length (p @ ?rest) = 4095" using b assms(2,3) by (simp add: CLIENT_RECV_BUF_LEN_def)
  ultimately show ?thesis
    using assms(2) by (intro exI [of _ ?rest]) (simp add: recv_datagram_def lan_client_on_recv_def Let_def received_def rd_def client_types)
qed

definition assembling :: "u16 \<Rightarrow> nat \<Rightarrow> bytes \<Rightarrow> nat \<Rightarrow> lan_play \<Rightarrow> nat set \<Rightarrow> lan_play \<Rightarrow> bool" where
  "assembling frag_id pmtu data i lp0 S lp \<longleftrightarrow>
     lp_inv lp \<and> same_lan lp0 lp \<and>
     (\<exists>f. lp_frags lp = (lp_frags lp0)[i := f] \<and> holds_pieces frag_id pmtu data S f)"

text \<open>The packet has no fragment in the table yet, and there is a free slot.\<close>

definition table_free :: "u16 \<Rightarrow> bytes \<Rightarrow> nat \<Rightarrow> lan_play \<Rightarrow> bool" where
  "table_free frag_id data i lp \<longleftrightarrow>
     find_index (\<lambda>f. fr_used f = 0) (lp_frags lp) = Some i \<and> lp_local_id lp < INT_MAX \<and>
     (\<forall>f \<in> set (lp_frags lp). fr_used f = 0 \<or> fr_id f \<noteq> frag_id \<or> fr_src f \<noteq> pkt_src data)"

lemma table_free_match:
  "table_free frag_id data i lp \<Longrightarrow> \<forall>f \<in> set (lp_frags lp). \<not> frag_match (frag_hdr frag_id pmtu data k) f"
  by (auto simp: table_free_def frag_match_def frag_hdr_def CMP_IPV4_def)

lemma table_free_less: "table_free frag_id data i lp \<Longrightarrow> i < length (lp_frags lp)"
  by (auto simp: table_free_def dest: find_index_SomeD)

lemma inv_frag_update:
  assumes "lp_inv lp" and "length (fr_buffer f) = 1500"
  shows "lp_inv (lp\<lparr>lp_frags := (lp_frags lp)[i := f]\<rparr>)"
  using assms set_update_subset_insert [of "lp_frags lp" i f]
  by (auto simp: lp_inv_def ETHER_MTU_def)

lemma frag_slot_open:
  assumes "table_free frag_id data i lp" and "lp_inv lp" and "same_lan lp0 lp" and "lp_frags lp = lp_frags lp0"
  shows "\<exists>lp1. frag_slot (frag_hdr frag_id pmtu data k) lp = Inr (Some i, lp1)
    \<and> assembling frag_id pmtu data i lp0 {} lp1"
proof -
  let ?h = "frag_hdr frag_id pmtu data k"
  let ?f = "(lp_frags lp ! i)\<lparr>fr_used := 1, fr_id := frag_id, fr_local_id := of_int (lp_local_id lp),
    fr_src := pkt_src data, fr_part := 0\<rparr>"
  let ?lp1 = "lp\<lparr>lp_frags := (lp_frags lp)[i := ?f], lp_local_id := lp_local_id lp + 1\<rparr>"
  have i: "i < length (lp_frags lp)" using table_free_less [OF assms(1)] .
  have buf: "length (fr_buffer (lp_frags lp ! i)) = 1500"
    using assms(2) i by (simp add: lp_inv_def ETHER_MTU_def)
  have "find_index (frag_match ?h) (lp_frags lp) = None"
    using table_free_match [OF assms(1)] by (simp add: find_index_None)
  then have slot: "frag_slot ?h lp = Inr (Some i, ?lp1)"
    using assms(1) by (simp add: frag_slot_def table_free_def frag_open_def frag_hdr_def)
  have "lp_inv ?lp1" using inv_frag_update [OF assms(2), of ?f i] buf by (simp add: lp_inv_def)
  moreover have "same_lan lp0 ?lp1" using assms(3) by (intro same_lan_local_id same_lan_frags)
  moreover have "holds_pieces frag_id pmtu data {} ?f" using buf by (simp add: holds_pieces_def)
  ultimately show ?thesis using slot assms(4) by (auto simp: assembling_def)
qed

lemma frag_slot_found:
  assumes "table_free frag_id data i lp0" and "assembling frag_id pmtu data i lp0 S lp"
  shows "frag_slot (frag_hdr frag_id pmtu data k) lp = Inr (Some i, lp)"
proof -
  obtain f where f: "lp_frags lp = (lp_frags lp0)[i := f]" "holds_pieces frag_id pmtu data S f"
    using assms(2) by (auto simp: assembling_def)
  have "find_index (frag_match (frag_hdr frag_id pmtu data k)) (lp_frags lp) = Some i"
    unfolding f(1) using table_free_match [OF assms(1)] table_free_less [OF assms(1)] holds_match [OF f(2)]
    by (rule find_index_update)
  then show ?thesis by (simp add: frag_slot_def)
qed

text \<open>The state just before a reassembled packet is delivered.\<close>

definition assembled :: "nat \<Rightarrow> lan_play \<Rightarrow> lan_play \<Rightarrow> bool" where
  "assembled i lp0 lp \<longleftrightarrow>
     lp_inv lp \<and> same_lan lp0 lp \<and> (\<exists>f. lp_frags lp = (lp_frags lp0)[i := f] \<and> fr_used f = 0)"

lemma process_frag_step:
  assumes ok: "frag_ok pmtu data" and k: "k < frag_count pmtu (length data)" and i: "i < length (lp_frags lp0)"
    and slot: "frag_slot (frag_hdr frag_id pmtu data k) lp = Inr (Some i, lp1)"
    and asm: "assembling frag_id pmtu data i lp0 S lp1"
  shows "\<exists>lp2. lan_client_process_frag E (frag_bytes frag_id pmtu data k @ rest) len lp =
      Inr (0, if insert k S = {..<frag_count pmtu (length data)} then deliver E (pkt_dst data) data lp2 else lp2)
    \<and> (if insert k S = {..<frag_count pmtu (length data)} then assembled i lp0 lp2
       else assembling frag_id pmtu data i lp0 (insert k S) lp2)"
proof -
  let ?h = "frag_hdr frag_id pmtu data k" and ?n = "frag_count pmtu (length data)"
  obtain f where f: "lp_frags lp1 = (lp_frags lp0)[i := f]" "holds_pieces frag_id pmtu data S f"
    and lp1: "lp_inv lp1" "same_lan lp0 lp1"
    using asm by (auto simp: assembling_def)
  have fi: "lp_frags lp1 ! i = f" using f(1) i by simp
  obtain f' where st: "frag_store ?h (frag_bytes frag_id pmtu data k @ rest) f = Inr f'"
    and f': "holds_pieces frag_id pmtu data (insert k S) f'"
    using frag_store_eq [OF ok k f(2)] by blast
  have buf: "length (fr_buffer f') = 1500" using f' by (simp add: holds_pieces_def)
  note step = lan_client_process_frag_def read_frag_header_eq slot fi st frag_complete_eq [OF ok f']
  show ?thesis
  proof (cases "insert k S = {..<?n}")
    case False
    let ?lp2 = "lp1\<lparr>lp_frags := (lp_frags lp1)[i := f']\<rparr>"
    have "assembling frag_id pmtu data i lp0 (insert k S) ?lp2"
      using inv_frag_update [OF lp1(1) buf, of i] same_lan_frags [OF lp1(2)] f' f(1) by (auto simp: assembling_def)
    then show ?thesis using False by (intro exI [of _ ?lp2]) (simp add: step)
  next
    case True
    let ?f = "f'\<lparr>fr_used := 0\<rparr>"
    let ?lp2 = "lp1\<lparr>lp_frags := (lp_frags lp1)[i := ?f]\<rparr>"
    have inv: "lp_inv ?lp2" using inv_frag_update [OF lp1(1), of ?f i] buf by simp
    have p: "0 < pmtu" and len: "20 \<le> length data" "length data \<le> 1500" using ok by (simp_all add: frag_ok_def)
    have "p div pmtu \<in> insert k S" if "p < length data" for p
      using that True frag_count_iff [OF p, of "p div pmtu" "length data"]
        div_times_less_eq_dividend [of p pmtu] by simp
    then have bytes: "fr_buffer f' ! p = data ! p" if "p < length data" for p
      using f' that by (simp add: holds_pieces_def)
    have data: "take (length data) (fr_buffer f') = data" using bytes buf len by (intro nth_equalityI) simp_all
    have dst: "pkt_dst (fr_buffer f') = pkt_dst data" using bytes len by (simp add: pkt_dst_def)
    have total: "unat (fr_total_len f') = length data"
      using f' True last_frag(2) [OF ok refl] by (simp add: holds_pieces_def)
    have "fr_total_len f' \<noteq> 0" using total len by auto
    then have "lan_client_process E (fr_buffer f') (fr_total_len f') ?lp2 =
        Inr (0, deliver E (pkt_dst data) data ?lp2)"
      using lan_client_process_eq [OF inv, of "fr_buffer f'" "fr_total_len f'" E] total buf len data dst by simp
    moreover have "assembled i lp0 ?lp2"
      using inv same_lan_frags [OF lp1(2)] f(1) by (auto simp: assembled_def)
    ultimately show ?thesis using True by (intro exI [of _ ?lp2]) (simp add: step)
  qed
qed

fun recv_datagrams :: "env \<Rightarrow> bytes list \<Rightarrow> lan_play \<Rightarrow> lan_play res" where
  "recv_datagrams E [] lp = Inr lp"
| "recv_datagrams E (d # ds) lp = rbind (recv_datagram E d lp) (recv_datagrams E ds)"

lemma recv_datagrams_snoc:
  "recv_datagrams E (ds @ [d]) lp = rbind (recv_datagrams E ds lp) (recv_datagram E d)"
  by (induction ds arbitrary: lp) (auto simp: rbind_def split: sum.splits)

definition frag_datagram :: "u16 \<Rightarrow> nat \<Rightarrow> bytes \<Rightarrow> nat \<Rightarrow> bytes" where
  "frag_datagram frag_id pmtu data k = LAN_CLIENT_TYPE_IPV4_FRAG # frag_bytes frag_id pmtu data k"

text \<open>One more fragment, in a state where none or some have arrived.\<close>

lemma recv_frag:
  assumes ok: "frag_ok pmtu data" and k: "k < frag_count pmtu (length data)" and free: "table_free frag_id data i lp0"
    and st: "S = {} \<and> lp = lp0 \<and> lp_inv lp0 \<or> assembling frag_id pmtu data i lp0 S lp"
  shows "\<exists>lp2. recv_datagram E (frag_datagram frag_id pmtu data k) lp =
      Inr (if insert k S = {..<frag_count pmtu (length data)} then deliver E (pkt_dst data) data lp2 else lp2)
    \<and> (if insert k S = {..<frag_count pmtu (length data)} then assembled i lp0 lp2
       else assembling frag_id pmtu data i lp0 (insert k S) lp2)"
proof -
  let ?d = "frag_datagram frag_id pmtu data k" and ?h = "frag_hdr frag_id pmtu data k"
  let ?r = "received ?d lp"
  have inv: "lp_inv lp" using st by (auto simp: assembling_def)
  have len: "length ?d \<le> CLIENT_RECV_BUF_LEN"
    using frag_okD(9) [OF ok k] ok
    by (simp add: frag_datagram_def frag_bytes_def CLIENT_RECV_BUF_LEN_def frag_ok_def)
  then have rinv: "lp_inv ?r" using received_inv [OF inv] by simp
  have "\<exists>lp1. frag_slot ?h ?r = Inr (Some i, lp1) \<and> assembling frag_id pmtu data i lp0 S lp1"
    using st
  proof
    assume s: "S = {} \<and> lp = lp0 \<and> lp_inv lp0"
    then have "table_free frag_id data i ?r" using free by (simp add: table_free_def)
    from frag_slot_open [OF this rinv, of lp0] s show ?thesis
      by (simp add: same_lan_received same_lan_refl)
  next
    assume s: "assembling frag_id pmtu data i lp0 S lp"
    then have "assembling frag_id pmtu data i lp0 S ?r"
      using rinv by (auto simp: assembling_def same_lan_received)
    with frag_slot_found [OF free this] show ?thesis by blast
  qed
  then obtain lp1 where lp1: "frag_slot ?h ?r = Inr (Some i, lp1)" "assembling frag_id pmtu data i lp0 S lp1" by blast
  obtain rest where "recv_datagram E ?d lp =
      rbind (lan_client_process_frag E (frag_bytes frag_id pmtu data k @ rest)
        (of_nat (length (frag_bytes frag_id pmtu data k))) ?r) (\<lambda>(_, lp'). Inr lp')"
    using recv_datagram_eq [OF inv _ len, of LAN_CLIENT_TYPE_IPV4_FRAG "frag_bytes frag_id pmtu data k" E]
    by (auto simp: frag_datagram_def client_types)
  moreover obtain lp2 where "lan_client_process_frag E (frag_bytes frag_id pmtu data k @ rest)
      (of_nat (length (frag_bytes frag_id pmtu data k))) ?r =
      Inr (0, if insert k S = {..<frag_count pmtu (length data)} then deliver E (pkt_dst data) data lp2 else lp2)"
    "if insert k S = {..<frag_count pmtu (length data)} then assembled i lp0 lp2
     else assembling frag_id pmtu data i lp0 (insert k S) lp2"
    using process_frag_step [OF ok k table_free_less [OF free] lp1] by blast
  ultimately show ?thesis by (intro exI [of _ lp2]) simp
qed

lemma recv_frags_partial:
  assumes "frag_ok pmtu data" and "table_free frag_id data i lp0" and "lp_inv lp0"
  shows "set ks \<subset> {..<frag_count pmtu (length data)} \<Longrightarrow>
    \<exists>lp. recv_datagrams E (map (frag_datagram frag_id pmtu data) ks) lp0 = Inr lp \<and>
      (set ks = {} \<and> lp = lp0 \<and> lp_inv lp0 \<or> assembling frag_id pmtu data i lp0 (set ks) lp)"
proof (induction ks rule: rev_induct)
  case Nil
  then show ?case using assms(3) by simp
next
  case (snoc k ks)
  then have k: "k < frag_count pmtu (length data)" and ks: "set ks \<subset> {..<frag_count pmtu (length data)}" by auto
  from snoc.IH [OF ks] obtain lp where lp: "recv_datagrams E (map (frag_datagram frag_id pmtu data) ks) lp0 = Inr lp"
    "set ks = {} \<and> lp = lp0 \<and> lp_inv lp0 \<or> assembling frag_id pmtu data i lp0 (set ks) lp" by blast
  have "insert k (set ks) \<noteq> {..<frag_count pmtu (length data)}" using snoc.prems by auto
  with recv_frag [OF assms(1) k assms(2) lp(2), of E] show ?case
    using lp(1) by (auto simp: recv_datagrams_snoc)
qed

lemma recv_frags_complete:
  assumes "frag_ok pmtu data" and "table_free frag_id data i lp0" and "lp_inv lp0"
    and "insert k (set ks) = {..<frag_count pmtu (length data)}" and "k \<notin> set ks"
  shows "\<exists>lp. recv_datagrams E (map (frag_datagram frag_id pmtu data) (ks @ [k])) lp0 =
      Inr (deliver E (pkt_dst data) data lp) \<and> assembled i lp0 lp"
proof -
  have ks: "set ks \<subset> {..<frag_count pmtu (length data)}" and k: "k < frag_count pmtu (length data)"
    using assms(4,5) by auto
  from recv_frags_partial [OF assms(1-3) ks] obtain lp
    where lp: "recv_datagrams E (map (frag_datagram frag_id pmtu data) ks) lp0 = Inr lp"
    "set ks = {} \<and> lp = lp0 \<and> lp_inv lp0 \<or> assembling frag_id pmtu data i lp0 (set ks) lp" by blast
  from recv_frag [OF assms(1) k assms(2) lp(2), of E] show ?thesis
    using lp(1) assms(4) by (auto simp: recv_datagrams_snoc)
qed

end
