(* ===== verification/Relay.thy ===== *)
theory Relay
  imports Lan_Client
begin

text \<open>
  What the client of the relay server (\<open>lan-client.c\<close>) guarantees: packets of the console reach the
  consoles of other players whole, cut into fragments or not and in whatever order the fragments
  arrive; broadcasts are limited by the timer; the login answers the server's challenge; and which
  datagrams of the server are handled without a fault, which not.
\<close>

section \<open>Handling a datagram without a fault\<close>

text \<open>The invariant of the client with the lengths of the fragment table.\<close>

definition relay_inv :: "lan_play \<Rightarrow> bool" where
  "relay_inv lp \<longleftrightarrow> lp_inv lp \<and> (\<forall>f \<in> set (lp_frags lp). unat (fr_total_len f) \<le> 1500)"

definition frag_checked :: "lan_client_fragment_header \<Rightarrow> bool" where
  "frag_checked h \<longleftrightarrow> fh_part h < 32 \<and> fh_total_part h < 32
     \<and> unat (fh_pmtu h) * unat (fh_part h) + unat (fh_len h) \<le> 1500"

text \<open>The datagrams the client handles: those that pass the checks that the code leaves out.\<close>

definition datagram_checked :: "bytes \<Rightarrow> bool" where
  "datagram_checked d =
     (length d \<le> CLIENT_RECV_BUF_LEN \<and>
      (case d of
         [] \<Rightarrow> True
       | t # p \<Rightarrow>
           if t AND 0x7f = LAN_CLIENT_TYPE_IPV4 then length p \<le> 2033
           else if t AND 0x7f = LAN_CLIENT_TYPE_IPV4_FRAG then
             (case read_frag_header p of Inl _ \<Rightarrow> False | Inr h \<Rightarrow> frag_checked h)
           else if t AND 0x7f = LAN_CLIENT_TYPE_AUTH_ME then p \<noteq> []
           else True))"

text \<open>What handling a datagram does to the counters: at most one more local id.\<close>

definition same_counts :: "lan_play \<Rightarrow> lan_play \<Rightarrow> bool" where
  "same_counts a b \<longleftrightarrow> lp_frag_id b = lp_frag_id a \<and> lp_username b = lp_username a \<and> lp_local_id b = lp_local_id a"

definition next_counts :: "lan_play \<Rightarrow> lan_play \<Rightarrow> bool" where
  "next_counts a b \<longleftrightarrow> lp_frag_id b = lp_frag_id a \<and> lp_username b = lp_username a \<and> lp_local_id b \<le> lp_local_id a + 1"

lemma next_countsI: "same_counts a b \<Longrightarrow> next_counts a b"
  by (simp add: same_counts_def next_counts_def)

lemma next_counts_trans: "next_counts a b \<Longrightarrow> same_counts b c \<Longrightarrow> next_counts a c"
  by (simp add: same_counts_def next_counts_def)

lemma same_counts_trans: "same_counts a b \<Longrightarrow> next_counts b c \<Longrightarrow> next_counts a c"
  by (simp add: same_counts_def next_counts_def)

lemma same_counts_refl [simp]: "same_counts a a" "same_counts a (a\<lparr>lp_frags := fs\<rparr>)"
  by (simp_all add: same_counts_def)

lemma same_counts_more: "same_counts a (received d a)" "same_counts a (relay_sent ds a)"
  by (simp_all add: same_counts_def received_def del: relay_sent.simps)

lemma send_each_username [simp]: "lp_username (send_each ms data lp) = lp_username lp"
  by (induction ms arbitrary: lp) simp_all

lemma same_counts_deliver: "same_counts a (deliver E dst data a)"
  by (simp add: same_counts_def deliver_def split: option.split)

lemma frag_oldest_less:
  "frag_oldest local_id fs i m td = (m', Some j) \<Longrightarrow> td = Some j \<or> i \<le> j \<and> j < i + length fs"
  by (induction local_id fs i m td rule: frag_oldest.induct) (fastforce simp: Let_def split: if_splits)+

lemma relay_inv_update:
  assumes "relay_inv lp" and "length (fr_buffer f) = 1500" and "unat (fr_total_len f) \<le> 1500"
  shows "relay_inv (lp\<lparr>lp_frags := (lp_frags lp)[i := f]\<rparr>)"
  using assms inv_frag_update [of lp f i] set_update_subset_insert [of "lp_frags lp" i f]
  by (auto simp: relay_inv_def)

lemma relay_inv_nth:
  assumes "relay_inv lp" and "i < 100"
  shows "length (fr_buffer (lp_frags lp ! i)) = 1500" and "unat (fr_total_len (lp_frags lp ! i)) \<le> 1500"
  using assms lp_invD(6,7) [of lp] by (auto simp: relay_inv_def)

lemma frag_open_total:
  assumes "relay_inv lp" and "lp_local_id lp < INT_MAX" and "i < 100"
  shows "\<exists>lp1. frag_open h i lp = Inr lp1 \<and> relay_inv lp1 \<and> next_counts lp lp1"
proof -
  let ?f = "(lp_frags lp ! i)\<lparr>fr_used := 1, fr_id := fh_id h, fr_local_id := of_int (lp_local_id lp),
    fr_src := fh_src h, fr_part := 0\<rparr>"
  have "relay_inv (lp\<lparr>lp_frags := (lp_frags lp)[i := ?f]\<rparr>)"
    using relay_inv_nth [OF assms(1,3)] by (intro relay_inv_update [OF assms(1)]) simp_all
  then show ?thesis using assms(2) by (simp add: frag_open_def relay_inv_def lp_inv_def next_counts_def)
qed

lemma frag_slot_total:
  assumes "relay_inv lp" and "lp_local_id lp < INT_MAX"
  shows "\<exists>slot lp1. frag_slot h lp = Inr (slot, lp1) \<and> relay_inv lp1 \<and> next_counts lp lp1
    \<and> (\<forall>i. slot = Some i \<longrightarrow> i < 100)"
proof -
  have len: "length (lp_frags lp) = 100" using assms(1) lp_invD(6) by (auto simp: relay_inv_def)
  have old: "j < 100" if "frag_oldest (lp_local_id lp) (lp_frags lp) 0 0 None = (m, Some j)" for m j
    using frag_oldest_less [OF that] len by simp
  have opened: "\<exists>slot lp1. rbind (frag_open h i lp) (\<lambda>lp'. Inr (Some i, lp')) = Inr (slot, lp1)
      \<and> relay_inv lp1 \<and> next_counts lp lp1 \<and> (\<forall>i. slot = Some i \<longrightarrow> i < 100)" if "i < 100" for i
    using frag_open_total [OF assms that, of h] that by auto
  have idx: "i < 100" if "find_index P (lp_frags lp) = Some i" for P i
    using find_index_SomeD [OF that] len by simp
  show ?thesis
  proof (cases "find_index (frag_match h) (lp_frags lp)")
    case (Some i)
    then show ?thesis using assms(1) idx [OF Some] by (simp add: frag_slot_def next_countsI)
  next
    case none: None
    show ?thesis
    proof (cases "find_index (\<lambda>f. fr_used f = 0) (lp_frags lp)")
      case (Some i)
      then show ?thesis using none opened [OF idx [OF Some]] by (simp add: frag_slot_def)
    next
      case None
      obtain m td where o: "frag_oldest (lp_local_id lp) (lp_frags lp) 0 0 None = (m, td)" by fastforce
      show ?thesis
        using none None o assms(1) opened old by (cases td) (auto simp: frag_slot_def next_countsI)
    qed
  qed
qed

lemma frag_store_total:
  assumes "frag_checked h" and "1516 \<le> length packet" and "length (fr_buffer f) = 1500" and "unat (fr_total_len f) \<le> 1500"
  shows "\<exists>f'. frag_store h packet f = Inr f' \<and> length (fr_buffer f') = 1500 \<and> unat (fr_total_len f') \<le> 1500"
proof -
  let ?o = "unat (fh_pmtu h) * unat (fh_part h)" and ?l = "unat (fh_len h)"
  have c: "unat (fh_part h) < 32" "?o + ?l \<le> 1500"
    using assms(1) by (auto simp: frag_checked_def word_less_nat_alt)
  then obtain s where s: "rdn packet LC_FRAG_HEADER_LEN ?l = Inr s" "length s = ?l"
    using assms(2) by (auto simp: rdn_def LC_FRAG_HEADER_LEN_def)
  then obtain b where b: "wrn (fr_buffer f) ?o s = Inr b" "length b = 1500"
    using c assms(3) by (auto simp: wrn_def)
  have "unat (of_int ((int (unat (fh_total_part h)) - 1) * int (unat (fh_pmtu h)) + int ?l) :: u16) \<le> 1500"
    if "int (unat (fh_part h)) = int (unat (fh_total_part h)) - 1"
  proof -
    have "(int (unat (fh_total_part h)) - 1) * int (unat (fh_pmtu h)) + int ?l = int (?o + ?l)"
      unfolding that [symmetric] by simp
    moreover have "unat (of_nat (?o + ?l) :: u16) = ?o + ?l" using c by (intro unat_of_nat_u16) simp
    ultimately show ?thesis using c(2) by (metis of_int_of_nat_eq)
  qed
  then show ?thesis using c s b assms(4) by (simp add: frag_store_def Let_def)
qed

lemma process_total:
  assumes "relay_inv lp" and "20 \<le> length packet" and "unat len \<le> length packet" and "unat len \<le> 2033"
  shows "\<exists>lp'. lan_client_process E packet len lp = Inr (0, lp') \<and> relay_inv lp' \<and> same_counts lp lp'"
proof (cases "len = 0")
  case True
  then show ?thesis using assms(1) by (simp add: lan_client_process_def)
next
  case False
  have "lp_inv lp" using assms(1) by (simp add: relay_inv_def)
  with lan_client_process_eq [OF this assms(2,3) _ False] show ?thesis
    using assms deliver_inv [of lp "take (unat len) packet" E] same_counts_deliver
    by (auto simp: relay_inv_def deliver_def split: option.split)
qed

lemma process_frag_total:
  assumes "relay_inv lp" and "lp_local_id lp < INT_MAX" and "read_frag_header packet = Inr h" and "frag_checked h"
    and "1516 \<le> length packet"
  shows "\<exists>lp'. lan_client_process_frag E packet len lp = Inr (0, lp') \<and> relay_inv lp' \<and> next_counts lp lp'"
proof -
  obtain slot lp1 where s: "frag_slot h lp = Inr (slot, lp1)" "relay_inv lp1" "\<forall>i. slot = Some i \<longrightarrow> i < 100"
    and n: "next_counts lp lp1"
    using frag_slot_total [OF assms(1,2)] by blast
  show ?thesis
  proof (cases slot)
    case None
    then show ?thesis using s n assms(3) by (simp add: lan_client_process_frag_def)
  next
    case (Some i)
    then have i: "i < 100" using s(3) by simp
    obtain f' where f': "frag_store h packet (lp_frags lp1 ! i) = Inr f'" "length (fr_buffer f') = 1500"
      "unat (fr_total_len f') \<le> 1500"
      using frag_store_total [OF assms(4,5) relay_inv_nth [OF s(2) i]] by blast
    obtain c where c: "frag_complete h f' = Inr c"
      using assms(4) by (auto simp: frag_complete_def frag_checked_def word_less_nat_alt)
    have "relay_inv (lp1\<lparr>lp_frags := (lp_frags lp1)[i := f'\<lparr>fr_used := 0\<rparr>]\<rparr>)"
      using f' by (intro relay_inv_update [OF s(2)]) simp_all
    then obtain lp2 where lp2: "lan_client_process E (fr_buffer f') (fr_total_len f')
        (lp1\<lparr>lp_frags := (lp_frags lp1)[i := f'\<lparr>fr_used := 0\<rparr>]\<rparr>) = Inr (0, lp2)" "relay_inv lp2" "same_counts lp1 lp2"
      using process_total [of _ "fr_buffer f'" "fr_total_len f'" E] f'(2,3) by (fastforce simp: same_counts_def)
    show ?thesis
      using relay_inv_update [OF s(2) f'(2,3), of i] Some s(1) assms(3) f'(1) c lp2 next_counts_trans [OF n]
      by (cases c) (simp_all add: lan_client_process_frag_def)
  qed
qed

lemma length_sha1 [simp]: "length (sha1 m) = 20"
  by (simp add: sha1_def be_bytes_def split: prod.split)

lemma auth_me_eq:
  assumes "lp_inv lp" and "lp_username lp = Some username" and "length username < 65516"
    and "packet = 0 # challenge @ rest" and "length challenge < 65535"
  shows "lan_client_process_auth_me E packet (of_nat (Suc (length challenge))) lp =
    Inr (relay_sent [LAN_CLIENT_TYPE_AUTH_ME # sha1 (lp_key lp @ challenge) @ username] lp)"
proof -
  let ?u = "of_nat (length username) :: u16" and ?key = "lp_key lp"
  have key: "length ?key = 20" using assms(1) by (simp add: lp_inv_def LP_KEY_LEN_def)
  have u: "unat ?u = length username" using assms(3) by (intro unat_of_nat_u16) simp
  have r: "unat (20 + ?u) = 20 + length username"
    using unat_of_nat_u16 [of "20 + length username"] assms(3) by simp
  have c: "unat (of_nat (Suc (length challenge)) - 1 :: u16) = length challenge"
    using assms(5) unat_of_nat_u16 [of "length challenge"] by simp
  obtain c1 where c1: "SHA1Update SHA1Init ?key 20 = Inr c1" "absorbed c1 ?key"
    using SHA1Update_absorbed [OF absorbed_init, of 20 ?key] key by auto
  obtain c2 where c2: "SHA1Update c1 (challenge @ rest) (length challenge) = Inr c2" "absorbed c2 (?key @ challenge)"
    using SHA1Update_absorbed [OF c1(2), of "length challenge" "challenge @ rest"] assms(5) by auto
  have fin: "SHA1Final c2 = Inr (sha1 (?key @ challenge))"
    using SHA1Final_eq [OF c2(2)] assms(5) key by simp
  have "lan_client_send_auth_me E (sha1 (?key @ challenge) @ username) (20 + ?u) lp =
      Inr (udp_send_rc E (length (lp_udp_log lp)),
        relay_sent [LAN_CLIENT_TYPE_AUTH_ME # sha1 (?key @ challenge) @ username] lp)"
    unfolding lan_client_send_auth_me_def
    by (subst send_plain_eq) (simp_all only: r, simp_all add: client_types)
  then show ?thesis
    using assms(2,4) c1(1) c2(1) fin
    by (simp add: lan_client_process_auth_me_def rd_def Let_def c [simplified] r u stack_array_def wrn_def rdn_def)
qed

text \<open>A login request without the byte of its type.\<close>

lemma auth_me_no_type:
  assumes "relay_inv lp" and "p \<noteq> []" and "length (p @ rest) = 4095"
    and "\<forall>username. lp_username lp = Some username \<longrightarrow> length username < 65516"
  shows "\<exists>lp'. lan_client_process_auth_me E (p @ rest) (of_nat (length p)) lp = Inr lp' \<and> relay_inv lp' \<and> same_counts lp lp'"
proof (cases "lp_username lp")
  case None
  then show ?thesis using assms(1) by (simp add: lan_client_process_auth_me_def)
next
  case (Some username)
  obtain a challenge where p: "p = a # challenge" using assms(2) by (cases p) auto
  have inv: "lp_inv lp" using assms(1) by (simp add: relay_inv_def)
  show ?thesis
  proof (cases "a = 0")
    case True
    then have "lan_client_process_auth_me E (p @ rest) (of_nat (length p)) lp =
        Inr (relay_sent [LAN_CLIENT_TYPE_AUTH_ME # sha1 (lp_key lp @ challenge) @ username] lp)"
      using auth_me_eq [OF inv Some, of "p @ rest" challenge rest E] assms(3,4) Some p by simp
    then show ?thesis using assms(1) by (simp add: relay_inv_def same_counts_more del: relay_sent.simps)
  next
    case False
    then show ?thesis using assms(1) Some p by (simp add: lan_client_process_auth_me_def rd_def)
  qed
qed

lemma rd_append: "rd p i = Inr x \<Longrightarrow> rd (p @ rest) i = Inr x"
  by (auto simp: rd_def nth_append split: if_splits)

lemma rdn_append: "rdn p i n = Inr x \<Longrightarrow> rdn (p @ rest) i n = Inr x"
  by (auto simp: rdn_def split: if_splits)

lemma CPY_IPV4_append: "CPY_IPV4 p i = Inr x \<Longrightarrow> CPY_IPV4 (p @ rest) i = Inr x"
  by (auto simp: CPY_IPV4_def rbind_eq_Inr dest: rdn_append [of _ _ _ _ rest])

lemma READ_NET16_append: "READ_NET16 p i = Inr x \<Longrightarrow> READ_NET16 (p @ rest) i = Inr x"
proof -
  assume "READ_NET16 p i = Inr x"
  then obtain a b where "rd p i = Inr a" "rd p (i + 1) = Inr b" "x = ntohs (put_byte 0 a OR put_byte 1 b)"
    by (auto simp: READ_NET16_def ld16_def rbind_eq_Inr)
  then show ?thesis by (simp add: READ_NET16_def ld16_def rd_append del: One_nat_def)
qed

lemma READ_NET8_append: "READ_NET8 p i = Inr x \<Longrightarrow> READ_NET8 (p @ rest) i = Inr x"
  by (simp add: READ_NET8_def rd_append)

lemma read_frag_header_append:
  assumes "read_frag_header p = Inr h"
  shows "read_frag_header (p @ rest) = Inr h"
proof -
  obtain src dst frag_id part total_part len pmtu where
    "CPY_IPV4 p LC_FRAG_SRC = Inr src" "CPY_IPV4 p LC_FRAG_DST = Inr dst" "READ_NET16 p LC_FRAG_ID = Inr frag_id"
    "READ_NET8 p LC_FRAG_PART = Inr part" "READ_NET8 p LC_FRAG_TOTAL_PART = Inr total_part"
    "READ_NET16 p LC_FRAG_LEN = Inr len" "READ_NET16 p LC_FRAG_PMTU = Inr pmtu"
    "h = \<lparr>fh_src = src, fh_dst = dst, fh_id = frag_id, fh_part = part, fh_total_part = total_part,
          fh_len = len, fh_pmtu = pmtu\<rparr>"
    using assms by (auto simp: read_frag_header_def rbind_eq_Inr)
  then show ?thesis
    by (simp add: read_frag_header_def CPY_IPV4_append READ_NET16_append READ_NET8_append)
qed

section \<open>Properties\<close>

lemma relay_datagram_handled:
  assumes "relay_inv lp" and "datagram_checked d" and "lp_local_id lp < INT_MAX"
    and "\<forall>username. lp_username lp = Some username \<longrightarrow> length username < 65516"
  shows "\<exists>lp'. recv_datagram E d lp = Inr lp' \<and> relay_inv lp' \<and> next_counts lp lp'"
proof (cases d)
  case Nil
  then show ?thesis using assms(1) by (simp add: recv_datagram_def lan_client_on_recv_def Let_def next_countsI)
next
  case (Cons t p)
  have inv: "lp_inv lp" and len: "length d \<le> CLIENT_RECV_BUF_LEN"
    using assms(1,2) by (simp_all add: relay_inv_def datagram_checked_def)
  let ?r = "received d lp"
  have r: "relay_inv ?r" using received_inv [OF inv len] assms(1) by (simp add: relay_inv_def)
  have same: "same_counts lp ?r" by (rule same_counts_more)
  have u: "unat (of_nat (length p) :: u16) = length p"
    using len Cons by (intro unat_of_nat_u16) (simp add: CLIENT_RECV_BUF_LEN_def)
  obtain rest where rest: "length (p @ rest) = 4095" and eq: "recv_datagram E d lp =
    (if t AND 0x7f = LAN_CLIENT_TYPE_IPV4 then
       rbind (lan_client_process E (p @ rest) (of_nat (length p)) ?r) (\<lambda>(_, lp'). Inr lp')
     else if t AND 0x7f = LAN_CLIENT_TYPE_IPV4_FRAG then
       rbind (lan_client_process_frag E (p @ rest) (of_nat (length p)) ?r) (\<lambda>(_, lp'). Inr lp')
     else if t AND 0x7f = LAN_CLIENT_TYPE_AUTH_ME then
       lan_client_process_auth_me E (p @ rest) (of_nat (length p)) ?r
     else Inr ?r)"
    using recv_datagram_eq [OF inv Cons len] by blast
  note ck = assms(2) [unfolded datagram_checked_def Cons list.case]
  consider "t AND 0x7f = LAN_CLIENT_TYPE_IPV4" | "t AND 0x7f = LAN_CLIENT_TYPE_IPV4_FRAG"
    | "t AND 0x7f = LAN_CLIENT_TYPE_AUTH_ME"
    | "t AND 0x7f \<notin> {LAN_CLIENT_TYPE_IPV4, LAN_CLIENT_TYPE_IPV4_FRAG, LAN_CLIENT_TYPE_AUTH_ME}" by blast
  then show ?thesis
  proof cases
    case 1
    then show ?thesis
      using process_total [OF r, of "p @ rest" "of_nat (length p)" E] rest u ck eq same_counts_trans [OF same, OF next_countsI] by auto
  next
    case 2
    then obtain h where h: "read_frag_header p = Inr h" "frag_checked h"
      using ck by (auto simp: client_types split: sum.splits)
    obtain lp' where "lan_client_process_frag E (p @ rest) (of_nat (length p)) ?r = Inr (0, lp')" "relay_inv lp'" "next_counts ?r lp'"
      using process_frag_total [OF r _ read_frag_header_append [OF h(1)] h(2), of rest] rest assms(3) by auto
    then show ?thesis using 2 eq same_counts_trans [OF same] by (simp add: client_types)
  next
    case 3
    then show ?thesis
      using auth_me_no_type [OF r _ rest, of E] ck eq assms(4) same_counts_trans [OF same, OF next_countsI]
      by (auto simp: client_types)
  next
    case 4
    then show ?thesis using eq r next_countsI [OF same] by auto
  qed
qed

section \<open>Properties\<close>

lemma example_lp_relay_inv: "relay_inv example_lp"
  by (simp add: relay_inv_def example_lp_inv empty_frag_def)

lemma example_lp_username [simp]: "lp_username example_lp = None"
  by (simp add: example_lp_def)


text \<open>A packet of 28 bytes cut at ten.\<close>

definition example_sender :: lan_play where
  "example_sender = example_lp\<lparr>lp_pmtu := 10\<rparr>"

lemma example_frag_ok: "frag_ok 10 example_udp_packet"
  by (simp add: frag_ok_def frag_count_def example_udp_packet_def)


lemma recv_plain:
  assumes "20 \<le> length data" and "length data \<le> 2033" and "lp_inv lp"
  shows "recv_datagram E (LAN_CLIENT_TYPE_IPV4 # data) lp =
    Inr (deliver E (pkt_dst data) data (received (LAN_CLIENT_TYPE_IPV4 # data) lp))"
proof -
  let ?len = "of_nat (length data) :: u16" and ?d = "LAN_CLIENT_TYPE_IPV4 # data"
  have u: "unat ?len = length data" using assms(2) by (intro unat_of_nat_u16) simp
  have inv: "lp_inv (received ?d lp)"
    using assms(2,3) by (intro received_inv) (simp_all add: CLIENT_RECV_BUF_LEN_def)
  obtain rest where rest: "recv_datagram E ?d lp =
      rbind (lan_client_process E (data @ rest) ?len (received ?d lp)) (\<lambda>(_, lp'). Inr lp')"
    using recv_datagram_eq [OF assms(3), of ?d LAN_CLIENT_TYPE_IPV4 data E] assms(2)
    by (auto simp: client_types CLIENT_RECV_BUF_LEN_def)
  have "?len \<noteq> 0" using u assms(1) by auto
  moreover have "pkt_dst (data @ rest) = pkt_dst data" using assms(1) by (simp add: pkt_dst_def nth_append)
  ultimately show ?thesis
    using lan_client_process_eq [OF inv, of "data @ rest" ?len E] rest u assms(1,2) by simp
qed

text \<open>What one client sends unfragmented, another delivers. A packet of 20 to 2033 bytes is sent as
  one datagram when there is no path limit or it is within the limit, and a client that receives
  this datagram delivers the same packet to the packet's destination address.\<close>

theorem relay_round_trip:
  assumes "20 \<le> length data" and "length data \<le> 2033" and "lp_pmtu sender \<le> 0 \<or> int (length data) \<le> lp_pmtu sender"
    and "lp_inv receiver"
  shows "\<exists>sender' d.
    lan_client_send_ipv4 E (pkt_dst data) data (of_nat (length data)) sender =
      Inr (udp_send_rc E (length (lp_udp_log sender)), sender') \<and>
    lp_udp_log sender' = lp_udp_log sender @ [(lp_server_addr sender, d)] \<and>
    recv_datagram E d receiver = Inr (deliver E (pkt_dst data) data (received d receiver))"
proof -
  let ?len = "of_nat (length data) :: u16" and ?d = "LAN_CLIENT_TYPE_IPV4 # data"
  have u: "unat ?len = length data" using assms(2) by (intro unat_of_nat_u16) simp
  have send: "lan_client_send_ipv4 E (pkt_dst data) data ?len sender =
      Inr (udp_send_rc E (length (lp_udp_log sender)), relay_sent [?d] sender)"
    using send_plain_eq [of ?len data LAN_CLIENT_TYPE_IPV4 sender E] assms(3) u
    by (simp add: lan_client_send_ipv4_def del: relay_sent.simps)
  have "recv_datagram E ?d receiver = Inr (deliver E (pkt_dst data) data (received ?d receiver))"
    using recv_plain [OF assms(1,2,4)] .
  with send show ?thesis
    by (intro exI [of _ "relay_sent [?d] sender"] exI [of _ ?d]) (simp add: relay_sent_log)
qed

theorem relay_round_trip_witness:
  "\<exists>sender' d.
    lan_client_send_ipv4 example_env (pkt_dst example_udp_packet) example_udp_packet
      (of_nat (length example_udp_packet)) example_lp =
      Inr (udp_send_rc example_env (length (lp_udp_log example_lp)), sender') \<and>
    lp_udp_log sender' = lp_udp_log example_lp @ [(lp_server_addr example_lp, d)] \<and>
    recv_datagram example_env d example_lp =
      Inr (deliver example_env (pkt_dst example_udp_packet) example_udp_packet (received d example_lp))"
  by (rule relay_round_trip) (simp_all add: example_udp_packet_def example_lp_inv)

text \<open>The frames that reach the wire when a list of frames is sent.\<close>

definition frames_log :: "lan_play \<Rightarrow> bytes list \<Rightarrow> (nat \<times> bytes) list" where
  "frames_log lp fs = concat (map (\<lambda>f. emitted (route (lp_pcap lp) (frame_src f)) f (length f)) fs)"

definition ipv4_frame :: "lan_play \<Rightarrow> bytes \<Rightarrow> mac6 \<Rightarrow> bytes" where
  "ipv4_frame lp data m = ether_header m (pc_mac (lp_packet_ctx lp)) ETHER_TYPE_IPV4 @ data"

text \<open>Nothing but the log, the counters and the buffers changes.\<close>

definition same_wire :: "lan_play \<Rightarrow> lan_play \<Rightarrow> bool" where
  "same_wire a b \<longleftrightarrow> if_map (lp_pcap a) = if_map (lp_pcap b) \<and> interfaces (lp_pcap a) = interfaces (lp_pcap b)
     \<and> pc_mac (lp_packet_ctx a) = pc_mac (lp_packet_ctx b)
     \<and> pc_arp_list (lp_packet_ctx a) = pc_arp_list (lp_packet_ctx b)
     \<and> pc_subnet_net (lp_packet_ctx a) = pc_subnet_net (lp_packet_ctx b)
     \<and> pc_subnet_mask (lp_packet_ctx a) = pc_subnet_mask (lp_packet_ctx b)"

lemma same_wire_frames:
  assumes "same_wire a b"
  shows "frames_log a = frames_log b" and "ipv4_frame a = ipv4_frame b" and "live_macs E a = live_macs E b"
proof -
  have "route (lp_pcap a) = route (lp_pcap b)"
    using assms by (intro ext) (simp add: same_wire_def route_def split: option.split)
  then show "frames_log a = frames_log b" by (intro ext) (simp add: frames_log_def)
qed (use assms in \<open>simp_all add: same_wire_def ipv4_frame_def live_macs_def fun_eq_iff\<close>)

lemma frames_log_simps [simp]:
  "frames_log lp [] = []" "frames_log lp (fs @ gs) = frames_log lp fs @ frames_log lp gs"
  by (simp_all add: frames_log_def)

lemma frames_log_Cons: "frames_log lp (f # fs) = frames_log lp [f] @ frames_log lp fs"
  by (simp add: frames_log_def)

lemma frame_sent_log: "pcap_log (lp_pcap (frame_sent f lp)) = pcap_log (lp_pcap lp) @ frames_log lp [f]"
  by (simp add: frame_sent_def frames_log_def)

lemma same_wire_frame_sent: "same_wire lp (frame_sent f lp)"
  by (simp add: same_wire_def)

lemma same_wire_trans: "same_wire a b \<Longrightarrow> same_wire b c \<Longrightarrow> same_wire a c"
  by (simp add: same_wire_def)

lemma send_each_log:
  "same_wire lp (send_each ms data lp) \<and> lp_next_real_broadcast (send_each ms data lp) = lp_next_real_broadcast lp \<and>
   pcap_log (lp_pcap (send_each ms data lp)) = pcap_log (lp_pcap lp) @ frames_log lp (map (ipv4_frame lp data) ms)"
proof (induction ms arbitrary: lp)
  case Nil
  then show ?case by (simp add: same_wire_def)
next
  case (Cons m ms)
  let ?lp = "frame_sent (ipv4_frame lp data m) lp"
  note w = same_wire_frame_sent [of lp "ipv4_frame lp data m"]
  show ?case
    using Cons.IH [of ?lp] same_wire_trans [OF w] frame_sent_log [of "ipv4_frame lp data m" lp]
    by (simp add: same_wire_frames [OF w, symmetric] frames_log_Cons [of _ _ "map _ _"] ipv4_frame_def [symmetric])
qed

lemma same_wire_received: "same_wire lp (received d lp)" "pcap_log (lp_pcap (received d lp)) = pcap_log (lp_pcap lp)"
  by (simp_all add: same_wire_def)

lemma recv_broadcast:
  assumes "lp_inv lp" and "20 \<le> length data" and "length data \<le> 2033"
    and "IS_BROADCAST (pkt_dst data) (pc_subnet_net (lp_packet_ctx lp)) (pc_subnet_mask (lp_packet_ctx lp))"
  shows "\<exists>lp'. recv_datagram E (LAN_CLIENT_TYPE_IPV4 # data) lp = Inr lp' \<and> lp_inv lp' \<and> same_wire lp lp' \<and>
    \<not> lp_next_real_broadcast lp' \<and>
    pcap_log (lp_pcap lp') = pcap_log (lp_pcap lp) @ frames_log lp (map (ipv4_frame lp data)
      (if lp_next_real_broadcast lp then [BROADCAST_MAC] else live_macs E lp))"
proof -
  let ?d = "LAN_CLIENT_TYPE_IPV4 # data"
  let ?r = "received ?d lp"
  let ?lp' = "deliver E (pkt_dst data) data ?r"
  have r: "lp_inv ?r" using assms(1,3) by (intro received_inv) (simp_all add: CLIENT_RECV_BUF_LEN_def)
  note w = same_wire_received [where lp = lp and d = ?d]
  have "recv_datagram E ?d lp = Inr ?lp'" using recv_plain [OF assms(2,3,1)] .
  moreover have "lp_inv ?lp'" using r assms(3) by (intro deliver_inv) simp_all
  moreover have "same_wire lp ?lp' \<and> \<not> lp_next_real_broadcast ?lp' \<and>
    pcap_log (lp_pcap ?lp') = pcap_log (lp_pcap lp) @ frames_log lp (map (ipv4_frame lp data)
      (if lp_next_real_broadcast lp then [BROADCAST_MAC] else live_macs E lp))"
  proof (cases "lp_next_real_broadcast lp")
    case True
    then show ?thesis
      using assms(4) by (simp add: deliver_def frame_sent_def frames_log_def ipv4_frame_def same_wire_def route_def)
  next
    case False
    then show ?thesis
      using assms(4) send_each_log [of ?r "live_macs E lp" data] same_wire_trans [OF w(1)]
      by (auto simp: deliver_def same_wire_frames [OF w(1), symmetric] w(2))
  qed
  ultimately show ?thesis by blast
qed

lemma recv_broadcasts:
  assumes "\<And>data. data \<in> set ds \<Longrightarrow> 20 \<le> length data \<and> length data \<le> 2033 \<and>
      IS_BROADCAST (pkt_dst data) (pc_subnet_net (lp_packet_ctx lp)) (pc_subnet_mask (lp_packet_ctx lp))"
    and "lp_inv lp" and "\<not> lp_next_real_broadcast lp"
  shows "\<exists>lp'. recv_datagrams E (map ((#) LAN_CLIENT_TYPE_IPV4) ds) lp = Inr lp' \<and> lp_inv lp' \<and>
    pcap_log (lp_pcap lp') = pcap_log (lp_pcap lp) @
      frames_log lp (concat (map (\<lambda>data. map (ipv4_frame lp data) (live_macs E lp)) ds))"
  using assms
proof (induction ds arbitrary: lp)
  case Nil
  then show ?case by simp
next
  case (Cons data ds)
  obtain lp1 where lp1: "recv_datagram E (LAN_CLIENT_TYPE_IPV4 # data) lp = Inr lp1" "lp_inv lp1" "same_wire lp lp1"
    "\<not> lp_next_real_broadcast lp1"
    "pcap_log (lp_pcap lp1) = pcap_log (lp_pcap lp) @ frames_log lp (map (ipv4_frame lp data) (live_macs E lp))"
    using recv_broadcast [OF Cons.prems(2), of data E] Cons.prems(1) [of data] Cons.prems(3) by auto
  note eq = same_wire_frames [OF lp1(3), symmetric]
  have net: "pc_subnet_net (lp_packet_ctx lp1) = pc_subnet_net (lp_packet_ctx lp)"
    "pc_subnet_mask (lp_packet_ctx lp1) = pc_subnet_mask (lp_packet_ctx lp)"
    using lp1(3) by (simp_all add: same_wire_def)
  from Cons.IH [OF _ lp1(2,4)] Cons.prems(1) lp1(1,5) show ?case
    by (simp add: net eq)
qed

text \<open>C16: Real broadcasts are limited to one per tick of the timer. Of the broadcast packets that arrive
  from the relay after a tick and before the next, the first is sent to the broadcast hardware
  address, and every further one goes as one frame to each host with a live entry of the ARP
  cache instead; these frames, and no others, appear on the wire, in this order.\<close>

theorem broadcast_once_per_tick:
  assumes "lp_inv lp"
    and "\<forall>d \<in> set (data # ds). 20 \<le> length d \<and> length d \<le> 2033 \<and>
      IS_BROADCAST (pkt_dst d) (pc_subnet_net (lp_packet_ctx lp)) (pc_subnet_mask (lp_packet_ctx lp))"
  shows "\<exists>lp'. recv_datagrams E (map ((#) LAN_CLIENT_TYPE_IPV4) (data # ds)) (lan_client_real_broadcast_timer lp) = Inr lp' \<and>
    pcap_log (lp_pcap lp') = pcap_log (lp_pcap lp) @
      frames_log lp (ipv4_frame lp data BROADCAST_MAC #
        concat (map (\<lambda>d. map (ipv4_frame lp d) (live_macs E lp)) ds))"
proof -
  let ?t = "lan_client_real_broadcast_timer lp"
  have w: "same_wire lp ?t" and t: "lp_inv ?t" "lp_next_real_broadcast ?t" "pcap_log (lp_pcap ?t) = pcap_log (lp_pcap lp)"
    using assms(1) by (simp_all add: lan_client_real_broadcast_timer_def same_wire_def lp_inv_def)
  have ctx: "lp_packet_ctx ?t = lp_packet_ctx lp" by (simp add: lan_client_real_broadcast_timer_def)
  obtain lp1 where lp1: "recv_datagram E (LAN_CLIENT_TYPE_IPV4 # data) ?t = Inr lp1" "lp_inv lp1" "same_wire ?t lp1"
    "\<not> lp_next_real_broadcast lp1"
    "pcap_log (lp_pcap lp1) = pcap_log (lp_pcap lp) @ frames_log lp [ipv4_frame lp data BROADCAST_MAC]"
    using recv_broadcast [OF t(1), of data E] assms(2) t(2,3) same_wire_frames [OF w, symmetric] by (auto simp: ctx)
  have net: "pc_subnet_net (lp_packet_ctx lp1) = pc_subnet_net (lp_packet_ctx lp)"
    "pc_subnet_mask (lp_packet_ctx lp1) = pc_subnet_mask (lp_packet_ctx lp)"
    using lp1(3) ctx by (simp_all add: same_wire_def)
  note eq = same_wire_frames [OF same_wire_trans [OF w lp1(3)], symmetric]
  from recv_broadcasts [OF _ lp1(2,4), of ds E] assms(2) lp1(1,5) show ?thesis
    by (auto simp: net eq frames_log_Cons [of _ _ "concat _"])
qed

definition example_broadcast :: bytes where
  "example_broadcast = replicate 16 0 @ [10, 13, 255, 255]"

theorem broadcast_once_per_tick_witness:
  "\<exists>lp'. recv_datagrams example_env (map ((#) LAN_CLIENT_TYPE_IPV4) [example_broadcast, example_broadcast])
      (lan_client_real_broadcast_timer example_lp2) = Inr lp' \<and>
    pcap_log (lp_pcap lp') = pcap_log (lp_pcap example_lp2) @
      frames_log example_lp2 (ipv4_frame example_lp2 example_broadcast BROADCAST_MAC #
        concat (map (\<lambda>d. map (ipv4_frame example_lp2 d) (live_macs example_env example_lp2)) [example_broadcast]))"
  by (rule broadcast_once_per_tick)
    (simp_all add: example_broadcast_def pkt_dst_def nth_append IS_BROADCAST_def le32_def put_byte_def)

text \<open>C17: The login answers the challenge of the server with the key, never revealing it: to a login
  request of type 0 the client that has a user name sends the server one datagram with the SHA-1
  digest of its 20-byte key followed by the challenge, then the user name.\<close>

theorem login_answers_challenge:
  assumes "lp_inv lp" and "lp_username lp = Some username" and "length username < 65516"
    and "length challenge \<le> 4094"
  shows "\<exists>lp'. recv_datagram E (LAN_CLIENT_TYPE_AUTH_ME # 0 # challenge) lp = Inr lp' \<and>
    lp_udp_log lp' = lp_udp_log lp @
      [(lp_server_addr lp, LAN_CLIENT_TYPE_AUTH_ME # sha1 (lp_key lp @ challenge) @ username)]"
proof -
  let ?d = "LAN_CLIENT_TYPE_AUTH_ME # 0 # challenge"
  have len: "length ?d \<le> CLIENT_RECV_BUF_LEN" using assms(4) by (simp add: CLIENT_RECV_BUF_LEN_def)
  have inv: "lp_inv (received ?d lp)" using received_inv [OF assms(1) len] .
  obtain rest where "recv_datagram E ?d lp =
      lan_client_process_auth_me E (0 # challenge @ rest) (of_nat (Suc (length challenge))) (received ?d lp)"
    using recv_datagram_eq [OF assms(1) _ len, of LAN_CLIENT_TYPE_AUTH_ME "0 # challenge" E] by (auto simp: client_types)
  then show ?thesis
    using auth_me_eq [OF inv, of username "0 # challenge @ rest" challenge rest E] assms(2-4)
    by (simp add: relay_sent_log del: relay_sent.simps of_nat_Suc)
qed

theorem login_answers_challenge_witness:
  "\<exists>lp'. recv_datagram example_env (LAN_CLIENT_TYPE_AUTH_ME # 0 # [1, 2, 3]) (example_lp\<lparr>lp_username := Some [117]\<rparr>) = Inr lp' \<and>
    lp_udp_log lp' = lp_udp_log (example_lp\<lparr>lp_username := Some [117]\<rparr>) @
      [(lp_server_addr (example_lp\<lparr>lp_username := Some [117]\<rparr>),
        LAN_CLIENT_TYPE_AUTH_ME # sha1 (lp_key (example_lp\<lparr>lp_username := Some [117]\<rparr>) @ [1, 2, 3]) @ [117])]"
proof (rule login_answers_challenge)
  show "lp_inv (example_lp\<lparr>lp_username := Some [117]\<rparr>)"
    using example_lp_inv by (simp add: lp_inv_def)
qed simp_all

lemma frag_slot_free:
  assumes "\<exists>f \<in> set (lp_frags lp). fr_used f = 0" and "frag_slot h lp = Inr (slot, lp1)"
  shows "\<exists>i. slot = Some i"
proof -
  have "find_index (\<lambda>f. fr_used f = 0) (lp_frags lp) \<noteq> None"
    using assms(1) by (auto simp only: find_index_None)
  then show ?thesis
    using assms(2)
    by (cases "find_index (frag_match h) (lp_frags lp)"; cases "find_index (\<lambda>f. fr_used f = 0) (lp_frags lp)")
      (auto simp: frag_slot_def rbind_eq_Inr dest: sym)
qed

lemma frag_store_fault:
  assumes "length (fr_buffer f) = 1500"
  shows "32 \<le> fh_part h \<Longrightarrow> frag_store h packet f = Inl Bad_shift"
    and "fh_part h < 32 \<Longrightarrow> 1500 < unat (fh_pmtu h) * unat (fh_part h) + unat (fh_len h) \<Longrightarrow>
      frag_store h packet f = Inl Out_of_bounds"
  using assms by (auto simp: frag_store_def word_le_nat_alt word_less_nat_alt rdn_def wrn_def Let_def)

text \<open>C40: The numbers in a fragment from the relay are not checked. While the table has a free slot, a
  fragment with a number of 32 or more makes the client shift an int by that number, which C
  leaves undefined, and one whose place (its number times the path limit, plus its length) ends
  behind the 1500 bytes of a slot makes it copy past the slot's buffer, or read past the received
  datagram.\<close>

theorem hostile_fragment_faults:
  assumes "relay_inv lp" and "\<exists>f \<in> set (lp_frags lp). fr_used f = 0" and "lp_local_id lp < INT_MAX"
    and "length p \<le> 4095" and "read_frag_header p = Inr h" and "\<not> frag_checked h" and "fh_total_part h < 32"
  shows "recv_datagram E (LAN_CLIENT_TYPE_IPV4_FRAG # p) lp = Inl (if 32 \<le> fh_part h then Bad_shift else Out_of_bounds)"
proof -
  let ?d = "LAN_CLIENT_TYPE_IPV4_FRAG # p"
  have inv: "lp_inv lp" using assms(1) by (simp add: relay_inv_def)
  have len: "length ?d \<le> CLIENT_RECV_BUF_LEN" using assms(4) by (simp add: CLIENT_RECV_BUF_LEN_def)
  have r: "relay_inv (received ?d lp)" using received_inv [OF inv len] assms(1) by (simp add: relay_inv_def)
  obtain rest where eq: "recv_datagram E ?d lp =
      rbind (lan_client_process_frag E (p @ rest) (of_nat (length p)) (received ?d lp)) (\<lambda>(_, lp'). Inr lp')"
    using recv_datagram_eq [OF inv _ len, of LAN_CLIENT_TYPE_IPV4_FRAG p E] by (auto simp: client_types)
  obtain slot lp1 where s: "frag_slot h (received ?d lp) = Inr (slot, lp1)" "relay_inv lp1"
    "\<forall>i. slot = Some i \<longrightarrow> i < 100"
    using frag_slot_total [OF r, of h] assms(3) by auto
  obtain i where i: "slot = Some i" "i < 100" using frag_slot_free [OF _ s(1)] assms(2) s(3) by auto
  have "frag_store h (p @ rest) (lp_frags lp1 ! i) = Inl (if 32 \<le> fh_part h then Bad_shift else Out_of_bounds)"
    using frag_store_fault [OF relay_inv_nth(1) [OF s(2) i(2)], of h "p @ rest"] assms(6,7)
    by (auto simp: frag_checked_def not_less not_le)
  then show ?thesis
    using eq s(1) i(1) read_frag_header_append [OF assms(5)] by (simp add: lan_client_process_frag_def)
qed

text \<open>A fragment that claims to be the fourth of four of 1400 bytes.\<close>

definition hostile_fragment :: bytes where
  "hostile_fragment = frag_header (IP4 10 13 0 9) (IP4 10 13 0 2) 1 3 4 1 1400 @ [0]"

lemma read_hostile_fragment:
  "read_frag_header hostile_fragment = Inr \<lparr>fh_src = IP4 10 13 0 9, fh_dst = IP4 10 13 0 2, fh_id = 1,
     fh_part = 3, fh_total_part = 4, fh_len = 1, fh_pmtu = 1400\<rparr>"
  by (simp add: read_frag_header_def hostile_fragment_def frag_header_def frag_offsets CPY_IPV4_eq READ_NET16_eq
      READ_NET8_def rd_def)

theorem hostile_fragment_faults_witness:
  "recv_datagram example_env (LAN_CLIENT_TYPE_IPV4_FRAG # hostile_fragment) example_lp = Inl Out_of_bounds"
proof -
  have free: "\<exists>f \<in> set (lp_frags example_lp). fr_used f = 0" by (simp add: LC_FRAG_COUNT_def empty_frag_def)
  have "length hostile_fragment \<le> 4095" by (simp add: hostile_fragment_def)
  from hostile_fragment_faults [OF example_lp_relay_inv free _ this read_hostile_fragment] show ?thesis
    by (simp add: frag_checked_def)
qed

lemma SHA1Update_needs: "SHA1Update ctx data len = Inr ctx' \<Longrightarrow> len \<le> length data"
  by (auto simp: SHA1Update_def Let_def rbind_eq_Inr rdn_def split: if_splits)

text \<open>A login request without a type makes the client read past the datagram. Its length is taken
  as \<open>len - 1\<close> in 16 bits, 65535 for an empty request, so that a datagram of the one byte
  \<open>LAN_CLIENT_TYPE_AUTH_ME\<close> makes a client with a user name hash 65535 bytes of a 4096-byte buffer,
  whenever the byte left in the buffer by an earlier datagram is zero.\<close>

theorem empty_login_request_faults:
  assumes "lp_inv lp" and "lp_username lp = Some username" and "lp_client_buf lp ! 1 = 0"
  shows "\<not> returns (recv_datagram E [LAN_CLIENT_TYPE_AUTH_ME] lp)"
proof -
  let ?b = "drop 1 (lp_client_buf lp)" and ?r = "received [LAN_CLIENT_TYPE_AUTH_ME] lp"
  have b: "length (lp_client_buf lp) = 4096" using assms(1) by (simp add: lp_inv_def CLIENT_RECV_BUF_LEN_def)
  then have rd: "rd ?b 0 = Inr 0" using assms(3) by (simp add: rd_def)
  have eq: "recv_datagram E [LAN_CLIENT_TYPE_AUTH_ME] lp = lan_client_process_auth_me E ?b 0 ?r"
    using b by (simp add: recv_datagram_def lan_client_on_recv_def Let_def client_types received_def rd_def)
  have "unat (0 - 1 :: u16) = 65535" by (simp add: unsigned_minus_1_eq_mask mask_eq_exp_minus_1)
  moreover have "SHA1Update c (drop 1 ?b) 65535 \<noteq> Inr c'" for c c'
    using SHA1Update_needs [of c "drop 1 ?b" 65535 c'] b by auto
  ultimately have "lan_client_process_auth_me E ?b 0 ?r \<noteq> Inr lp'" for lp'
    using rd assms(2) by (auto simp: lan_client_process_auth_me_def Let_def rbind_eq_Inr)
  then show ?thesis unfolding eq by (auto simp: returns_def split: sum.splits)
qed

theorem empty_login_request_faults_witness:
  "\<not> returns (recv_datagram example_env [LAN_CLIENT_TYPE_AUTH_ME] (example_lp\<lparr>lp_username := Some [117]\<rparr>))"
proof (rule empty_login_request_faults)
  show "lp_inv (example_lp\<lparr>lp_username := Some [117]\<rparr>)" using example_lp_inv by (simp add: lp_inv_def)
  show "lp_client_buf (example_lp\<lparr>lp_username := Some [117]\<rparr>) ! 1 = 0"
    by (simp add: example_lp_def CLIENT_RECV_BUF_LEN_def)
qed simp

end
