(* ===== verification/Process.thy ===== *)
theory Process
  imports Relay Ipv4
begin

text \<open>
  The dispatch of captured frames (\<open>packet.c\<close>, \<open>ipv4.c\<close>, \<open>lan-play.c\<close>), which ties the components
  together: ARP, the ping responder, forwarding on the LAN, the relay client and the gateway; and
  the ways back to the console, from the proxies and from the TCP stack.
\<close>

section \<open>Frames from the LAN\<close>

definition process_ipv4 :: "env \<Rightarrow> ether_frame \<Rightarrow> int op" where
  "process_ipv4 E ether lp =
     rbind (parse_ipv4 ether) (\<lambda>ipv4.
     let (_, lp1) = arp_set E (ef_src (v4_ether ipv4)) (v4_src ipv4) lp;
         arg = lp_packet_ctx lp1;
         part = \<lparr>pl_ptr = ef_payload (v4_ether ipv4), pl_len = v4_total_len ipv4\<rparr> in
     if CMP_IPV4 (v4_dst ipv4) (pc_ip arg) then
       if v4_protocol ipv4 = IPV4_PROTOCOL_ICMP then process_icmp E ipv4 lp1 else Inr (0, lp1)
     else if IS_SUBNET (v4_dst ipv4) (pc_subnet_net arg) (pc_subnet_mask arg) then
       if IS_BROADCAST (v4_dst ipv4) (pc_subnet_net arg) (pc_subnet_mask arg) then
         rbind (lan_client_send_ipv4 E (v4_dst ipv4) (ef_payload (v4_ether ipv4)) (v4_total_len ipv4) lp1) (\<lambda>(_, lp2).
         send_ether E (ef_src ether) ETHER_TYPE_IPV4 [part] lp2)
       else if arp_has_ip E (v4_dst ipv4) lp1 then
         rbind (arp_get_mac_by_ip E (v4_dst ipv4) lp1) (\<lambda>(dst_mac, lp2).
         case dst_mac of
           None \<Rightarrow> Inl Uninitialised
         | Some m \<Rightarrow> send_ether E m ETHER_TYPE_IPV4 [part] lp2)
       else lan_client_send_ipv4 E (v4_dst ipv4) (ef_payload (v4_ether ipv4)) (v4_total_len ipv4) lp1
     else if CMP_MAC (pc_mac arg) (ef_dst ether) then
       rbind (gateway_on_packet E (lp_gateway lp1) (ef_raw ether) (int (unat (ef_raw_len ether)))) (\<lambda>g.
       Inr (0, lp1\<lparr>lp_gateway := g\<rparr>))
     else Inr (0, lp1))"

definition process_ether :: "env \<Rightarrow> bytes \<Rightarrow> u16 \<Rightarrow> int op" where
  "process_ether E packet len lp =
     rbind (parse_ether packet len) (\<lambda>ether.
     if CMP_MAC (ef_src ether) (pc_mac (lp_packet_ctx lp)) then Inr (0, lp)
     else if ef_type ether = ETHER_TYPE_ARP then process_arp E ether lp
     else if ef_type ether = ETHER_TYPE_IPV4 then process_ipv4 E ether lp
     else Inr (0, lp))"

text \<open>\<open>print_packet\<close> writes the packet to the log, all \<open>len\<close> bytes of it.\<close>

definition print_packet :: "u32 \<Rightarrow> bytes \<Rightarrow> unit res" where
  "print_packet len packet = rbind (rdn packet 0 (unat len)) (\<lambda>_. Inr ())"

definition get_packet :: "env \<Rightarrow> u32 \<Rightarrow> bytes \<Rightarrow> lan_play \<Rightarrow> lan_play res" where
  "get_packet E len packet lp =
     (if len \<ge> 65536 then rbind (print_packet len packet) (\<lambda>_. Inr lp)
      else
        let lp1 = ctx_map (\<lambda>c. c\<lparr>pc_download_packet := pc_download_packet c + 1,
                               pc_download_byte := pc_download_byte c + ucast len\<rparr>) lp in
        rbind (process_ether E packet (ucast len) lp1) (\<lambda>(r, lp2).
        if r \<noteq> 0 then rbind (print_packet len packet) (\<lambda>_. Inr lp2) else Inr lp2))"

definition lan_play_pcap_handler :: "env \<Rightarrow> u32 \<Rightarrow> bytes \<Rightarrow> mac6 \<Rightarrow> lan_play \<Rightarrow> lan_play res" where
  "lan_play_pcap_handler E len packet mac lp =
     get_packet E len packet (packet_set_mac mac lp)"

text \<open>A frame captured on an interface: \<open>uv_pcap_callback\<close> and the handler it calls.\<close>

definition capture :: "env \<Rightarrow> nat \<Rightarrow> u32 \<Rightarrow> bytes \<Rightarrow> lan_play \<Rightarrow> lan_play res" where
  "capture E h len packet lp =
     rbind (uv_pcap_callback (lp_pcap lp) h packet) (\<lambda>p.
     lan_play_pcap_handler E len packet (if_mac (interfaces p ! h)) (lp\<lparr>lp_pcap := p\<rparr>))"

section \<open>Back to the console\<close>

definition lan_play_gateway_send_packet :: "env \<Rightarrow> bytes \<Rightarrow> u16 \<Rightarrow> int op" where
  "lan_play_gateway_send_packet E data len lp =
     rbind (CPY_IPV4 data IPV4_OFF_DST) (\<lambda>dst.
     rbind (arp_get_mac_by_ip E dst lp) (\<lambda>(dst_mac, lp1).
     case dst_mac of
       None \<Rightarrow> Inr (0, lp1)
     | Some m \<Rightarrow> send_ether E m ETHER_TYPE_IPV4 [\<lparr>pl_ptr = data, pl_len = len\<rparr>] lp1))"

text \<open>A datagram from the internet on the socket of an inner endpoint. The socket of an endpoint
  that has been collected is closed and delivers nothing.\<close>

abbreviation proxy_map :: "(proxy \<Rightarrow> proxy) \<Rightarrow> lan_play \<Rightarrow> lan_play" where
  "proxy_map f lp \<equiv> lp\<lparr>lp_gateway := (lp_gateway lp)\<lparr>gw_proxy := f (gw_proxy (lp_gateway lp))\<rparr>\<rparr>"

definition direct_on_recv :: "env \<Rightarrow> udp_cache_key \<Rightarrow> ip4 \<Rightarrow> u16 \<Rightarrow> bytes \<Rightarrow> direct_udp proxy_base \<Rightarrow> lan_play \<Rightarrow> lan_play res" where
  "direct_on_recv E key from_ip from_port data p lp =
     (case map_of (cacheTable p) key of
        None \<Rightarrow> Inr lp
      | Some u \<Rightarrow>
          rbind (send_udp_ex E from_ip from_port (du_src u) (du_srcport u)
            [\<lparr>pl_ptr = data, pl_len = of_nat (length data)\<rparr>] lp) (\<lambda>(_, lp1).
          Inr (proxy_map (\<lambda>_. Direct_proxy (p\<lparr>cacheTable := AList.update key (direct_visit (clock E) u) (cacheTable p)\<rparr>)) lp1)))"

definition socks5_on_recv :: "env \<Rightarrow> udp_cache_key \<Rightarrow> bytes \<Rightarrow> slp_addr_in \<Rightarrow> socks5_udp proxy_base \<Rightarrow> lan_play \<Rightarrow> lan_play res" where
  "socks5_on_recv E key data cfg p lp =
     (case map_of (cacheTable p) key of
        None \<Rightarrow> Inr lp
      | Some u \<Rightarrow>
          rbind (socks5_decap data) (\<lambda>d.
          case d of
            None \<Rightarrow> Inr lp
          | Some (from_ip, from_port, ptr, len) \<Rightarrow>
              rbind (send_udp_ex E from_ip from_port (su_src u) (su_srcport u) [\<lparr>pl_ptr = ptr, pl_len = len\<rparr>] lp) (\<lambda>(_, lp1).
              Inr (proxy_map (\<lambda>_. Socks5_proxy cfg
                (p\<lparr>cacheTable := AList.update key (socks5_visit (clock E) u) (cacheTable p)\<rparr>)) lp1))))"

definition proxy_on_recv :: "env \<Rightarrow> udp_cache_key \<Rightarrow> ip4 \<Rightarrow> u16 \<Rightarrow> bytes \<Rightarrow> lan_play \<Rightarrow> lan_play res" where
  "proxy_on_recv E key from_ip from_port data lp =
     (case gw_proxy (lp_gateway lp) of
        Direct_proxy p \<Rightarrow> direct_on_recv E key from_ip from_port data p lp
      | Socks5_proxy cfg p \<Rightarrow> socks5_on_recv E key data cfg p lp)"

text \<open>The collector of the proxy's table.\<close>

definition proxy_gc_timer :: "env \<Rightarrow> lan_play \<Rightarrow> lan_play res" where
  "proxy_gc_timer E lp =
     (case gw_proxy (lp_gateway lp) of
        Direct_proxy p \<Rightarrow> rbind (proxy_gc direct_ops (clock E) p) (\<lambda>p'. Inr (proxy_map (\<lambda>_. Direct_proxy p') lp))
      | Socks5_proxy cfg p \<Rightarrow>
          rbind (proxy_gc (socks5_ops cfg) (clock E) p) (\<lambda>p'. Inr (proxy_map (\<lambda>_. Socks5_proxy cfg p') lp)))"

section \<open>Sending to the relay\<close>

lemma send_frags_total:
  assumes "length header = 16" and "len \<le> length packet"
  shows "\<exists>r ds. send_frags E pmtu len frag_id header packet i pos lp = Inr (r, relay_sent ds lp)"
  using assms
proof (induction E pmtu len frag_id header packet i pos lp rule: send_frags.induct)
  case (1 E pmtu len frag_id header packet i pos lp)
  show ?case
  proof (cases "pos < len \<and> 0 < pmtu")
    case False
    then have "send_frags E pmtu len frag_id header packet i pos lp = Inr (0, relay_sent [] lp)"
      by (auto simp: send_frags.simps)
    then show ?thesis by blast
  next
    case True
    define l where "l = min pmtu (len - pos)"
    define h where "h = WRITE_NET16 (WRITE_NET8 (WRITE_NET16 header LC_FRAG_ID (of_int frag_id))
      LC_FRAG_PART (of_nat i)) LC_FRAG_LEN (of_nat l)"
    have h: "length h = 16" using "1.prems"(1) by (simp add: h_def)
    define d where "d = LAN_CLIENT_TYPE_IPV4_FRAG # h @ take l (drop pos packet)"
    have "gather [([LAN_CLIENT_TYPE_IPV4_FRAG], 1), (h, LC_FRAG_HEADER_LEN), (drop pos packet, l)] = Inr d"
      using h True "1.prems"(2) by (simp add: rdn_def LC_FRAG_HEADER_LEN_def d_def l_def)
    from send_raw_eq [OF this] have raw: "lan_client_send_raw E
        [([LAN_CLIENT_TYPE_IPV4_FRAG], 1), (h, LC_FRAG_HEADER_LEN), (drop pos packet, l)] lp =
        Inr (udp_send_rc E (length (lp_udp_log lp)), relay_sent [d] lp)"
      by (simp add: d_def)
    note unf = send_frags.simps [of E pmtu len frag_id header packet i pos lp, unfolded Let_def, folded l_def, folded h_def]
    show ?thesis
    proof (cases "udp_send_rc E (length (lp_udp_log lp)) = 0")
      case False
      then show ?thesis using unf raw True by (auto simp del: relay_sent.simps)
    next
      case rc: True
      obtain r ds where "send_frags E pmtu len frag_id h packet (i + 1) (pos + l) (relay_sent [d] lp) =
          Inr (r, relay_sent ds (relay_sent [d] lp))"
        using "1.IH" [OF True l_def refl refl h_def, of "(0, relay_sent [d] lp)" 0 "relay_sent [d] lp"] raw rc h "1.prems"(2)
        by (auto simp del: relay_sent.simps)
      moreover have "relay_sent ds (relay_sent [d] lp) = relay_sent (d # ds) lp" by simp
      ultimately show ?thesis using unf raw True rc by (auto simp del: relay_sent.simps)
    qed
  qed
qed

text \<open>Whatever the path limit, sending a packet to the relay only adds datagrams to the log.\<close>

lemma lan_client_send_total:
  assumes "20 \<le> length packet" and "unat len \<le> length packet" and "lp_frag_id lp < INT_MAX"
  shows "\<exists>r ds n. lan_client_send E type packet len lp = Inr (r, relay_sent ds (lp\<lparr>lp_frag_id := n\<rparr>))
    \<and> (n = lp_frag_id lp \<or> n = lp_frag_id lp + 1)"
proof (cases "type \<noteq> LAN_CLIENT_TYPE_IPV4 \<or> lp_pmtu lp \<le> 0 \<or> int (unat len) \<le> lp_pmtu lp")
  case True
  have "lp\<lparr>lp_frag_id := lp_frag_id lp\<rparr> = lp" by simp
  with send_plain_eq [OF assms(2) True, of E] show ?thesis by metis
next
  case False
  let ?p = "lp_pmtu lp" and ?n = "int (unat len)"
  let ?lp = "lp\<lparr>lp_frag_id := lp_frag_id lp + 1\<rparr>"
  define t where "t = (if ?p * (?n div ?p) < ?n then ?n div ?p + 1 else ?n div ?p)"
  have t: "1 < t"
  proof -
    have p: "0 < ?p" "?p < ?n" using False by auto
    have "1 \<le> ?n div ?p" using pos_imp_zdiv_pos_iff [of ?p ?n] p by linarith
    moreover have "?n div ?p = 1 \<Longrightarrow> ?p * (?n div ?p) < ?n" using p by simp
    ultimately show ?thesis unfolding t_def by (cases "?n div ?p = 1") simp_all
  qed
  obtain src dst where hdr: "CPY_IPV4 packet IPV4_OFF_SRC = Inr src" "CPY_IPV4 packet IPV4_OFF_DST = Inr dst"
    using assms(1) by (simp add: ipv4_offsets CPY_IPV4_eq)
  obtain r ds where "send_frags E (nat ?p) (unat len) (lp_frag_id lp) (frag_header src dst 0 0 (of_int t) 0 (of_int ?p))
      packet 0 0 ?lp = Inr (r, relay_sent ds ?lp)"
    using send_frags_total [OF length_frag_header assms(2)] by blast
  then have "lan_client_send E type packet len lp = Inr (r, relay_sent ds ?lp)"
    using False t hdr assms(3) unfolding lan_client_send_def Let_def t_def [symmetric] frag_header_init
    by (simp add: frag_header_init)
  then show ?thesis by blast
qed

section \<open>Well-formed frames\<close>

definition pkt_total_len :: "bytes \<Rightarrow> nat" where
  "pkt_total_len data = unat (be16 (data ! 2) (data ! 3))"

text \<open>An IPv4 packet whose lengths are right, and that fits the send buffer.\<close>

definition wf_ipv4 :: "bytes \<Rightarrow> bool" where
  "wf_ipv4 data \<longleftrightarrow> 20 \<le> ip_header_len data \<and> ip_header_len data \<le> pkt_total_len data \<and>
     pkt_total_len data \<le> length data \<and> pkt_total_len data \<le> 2033 \<and>
     ip_header_len data + 8 \<le> length data \<and> length data < 65522"

definition frame_type :: "bytes \<Rightarrow> u16" where
  "frame_type packet = be16 (packet ! 12) (packet ! 13)"

definition frame_dst :: "bytes \<Rightarrow> mac6" where
  "frame_dst f = MAC6 (f ! 0) (f ! 1) (f ! 2) (f ! 3) (f ! 4) (f ! 5)"

definition wf_frame :: "bytes \<Rightarrow> bool" where
  "wf_frame packet \<longleftrightarrow> 14 \<le> length packet \<and> length packet < 65536 \<and>
     (frame_type packet = ETHER_TYPE_ARP \<longrightarrow> 42 \<le> length packet) \<and>
     (frame_type packet = ETHER_TYPE_IPV4 \<longrightarrow> wf_ipv4 (drop 14 packet))"

text \<open>The invariant with room for the counters of fragments.\<close>

definition main_inv :: "nat \<Rightarrow> lan_play \<Rightarrow> bool" where
  "main_inv n lp \<longleftrightarrow> relay_inv lp \<and> lp_frag_id lp \<le> int n \<and> lp_local_id lp \<le> int n \<and>
     (\<forall>username. lp_username lp = Some username \<longrightarrow> length username < 65516)"

text \<open>What handlers keep: the invariant of \<open>lan_play\<close>, the counters but for one fragment id, the
  fragment table and the name.\<close>

definition kept :: "lan_play \<Rightarrow> lan_play \<Rightarrow> bool" where
  "kept a b \<longleftrightarrow> lp_inv b \<and> lp_frags b = lp_frags a \<and> lp_frag_id b \<le> lp_frag_id a + 1 \<and>
     lp_local_id b = lp_local_id a \<and> lp_username b = lp_username a"

lemma kept_inv: "kept a b \<Longrightarrow> main_inv n a \<Longrightarrow> main_inv (Suc n) b"
  by (auto simp: kept_def main_inv_def relay_inv_def)

lemma parse_frame:
  assumes "14 \<le> length packet"
  shows "parse_ether packet len = Inr \<lparr>ef_raw = packet, ef_raw_len = len, ef_dst = frame_dst packet,
    ef_src = frame_src packet, ef_type = frame_type packet, ef_payload = drop 14 packet\<rparr>"
  using assms
  by (simp add: parse_ether_def ETHER_OFF_DST_def ETHER_OFF_SRC_def ETHER_OFF_TYPE_def ETHER_OFF_END_def
      CPY_MAC_eq READ_NET16_eq frame_dst_def frame_src_def frame_type_def numeral_2_eq_2)


lemma keptI:
  "only_ctx a b \<Longrightarrow> lp_inv b \<Longrightarrow> kept a b"
  by (simp add: kept_def only_ctxD)

lemma kept_only_ctx: "kept a b \<Longrightarrow> only_ctx b c \<Longrightarrow> lp_inv c \<Longrightarrow> kept a c"
  by (simp add: kept_def only_ctxD)

lemma only_ctx_kept: "only_ctx a b \<Longrightarrow> kept b c \<Longrightarrow> kept a c"
  by (simp add: kept_def only_ctxD)

lemma lp_inv_frag_id [simp]: "lp_inv (lp\<lparr>lp_frag_id := n\<rparr>) = lp_inv lp"
  by (simp add: lp_inv_def)

lemma send_ipv4_kept:
  assumes "lp_inv lp" and "20 \<le> length packet" and "unat len \<le> length packet" and "lp_frag_id lp < INT_MAX"
  shows "\<exists>r lp'. lan_client_send_ipv4 E dst packet len lp = Inr (r, lp') \<and> kept lp lp'
    \<and> lp_packet_ctx lp' = lp_packet_ctx lp \<and> lp_pcap lp' = lp_pcap lp"
  using lan_client_send_total [OF assms(2-4), of E LAN_CLIENT_TYPE_IPV4] assms(1)
  by (auto simp: lan_client_send_ipv4_def kept_def simp del: relay_sent.simps)

lemma pkt_total_len_word: "unat (be16 (data ! 2) (data ! 3)) = pkt_total_len data"
  by (simp add: pkt_total_len_def)

lemma wf_ipv4D:
  assumes "wf_ipv4 data"
  shows "20 \<le> length data" and "pkt_total_len data \<le> length data" and "14 + pkt_total_len data < 2048"
    and "gateway_packet data" and "unat ((data ! 0 AND 0xF) * 4) = ip_header_len data"
    and "ip_header_len data \<le> pkt_total_len data" and "20 \<le> ip_header_len data"
proof -
  show "unat ((data ! 0 AND 0xF) * 4) = ip_header_len data"
  proof -
    have "unat (data ! 0 AND 0xF) \<le> 15"
      using word_and_le1 [of "data ! 0" "0xF"] by (simp add: word_le_nat_alt)
    then show ?thesis by (subst unat_mult_lem [THEN iffD1]) (simp_all add: ip_header_len_def)
  qed
qed (use assms in \<open>auto simp: wf_ipv4_def gateway_packet_def\<close>)

text \<open>The state after a packet's sender has been noted.\<close>

abbreviation noted :: "env \<Rightarrow> ether_frame \<Rightarrow> lan_play \<Rightarrow> lan_play" where
  "noted E ether lp \<equiv> snd (arp_set E (ef_src ether) (pkt_src (ef_payload ether)) lp)"

text \<open>Where a well-formed packet goes.\<close>

lemma process_ipv4_eq:
  assumes "lp_inv lp" and "wf_ipv4 data" and "ef_payload ether = data"
    and "data' = take (pkt_total_len data) data"
  shows "\<exists>ip. v4_src ip = pkt_src data \<and> v4_dst ip = pkt_dst data \<and> v4_protocol ip = data ! 9
      \<and> unat (v4_header_len ip) = ip_header_len data \<and> unat (v4_total_len ip) = pkt_total_len data
      \<and> v4_payload ip = drop (ip_header_len data) data \<and>
    process_ipv4 E ether lp =
    (if pkt_dst data = pc_ip (lp_packet_ctx lp) then
       if data ! 9 = IPV4_PROTOCOL_ICMP then process_icmp E ip (noted E ether lp) else Inr (0, noted E ether lp)
     else if IS_SUBNET (pkt_dst data) (pc_subnet_net (lp_packet_ctx lp)) (pc_subnet_mask (lp_packet_ctx lp)) then
       if IS_BROADCAST (pkt_dst data) (pc_subnet_net (lp_packet_ctx lp)) (pc_subnet_mask (lp_packet_ctx lp)) then
         rbind (lan_client_send_ipv4 E (pkt_dst data) data (of_nat (pkt_total_len data)) (noted E ether lp)) (\<lambda>(_, lp2).
         send_ether E (ef_src ether) ETHER_TYPE_IPV4 [\<lparr>pl_ptr = data, pl_len = of_nat (pkt_total_len data)\<rparr>] lp2)
       else
         case arp_list_get (clock E) (pkt_dst data) (pc_arp_list (lp_packet_ctx (noted E ether lp))) of
           Some m \<Rightarrow> Inr (0, frame_sent (ether_header m (pc_mac (lp_packet_ctx lp)) ETHER_TYPE_IPV4 @ data') (noted E ether lp))
         | None \<Rightarrow> lan_client_send_ipv4 E (pkt_dst data) data (of_nat (pkt_total_len data)) (noted E ether lp)
     else if CMP_MAC (pc_mac (lp_packet_ctx lp)) (ef_dst ether) then
       rbind (gateway_on_packet E (lp_gateway lp) (ef_raw ether) (int (unat (ef_raw_len ether)))) (\<lambda>g.
       Inr (0, (noted E ether lp)\<lparr>lp_gateway := g\<rparr>))
     else Inr (0, noted E ether lp))"
proof -
  note wf = wf_ipv4D [OF assms(2)]
  obtain ip where ip: "parse_ipv4 ether = Inr ip" "v4_ether ip = ether"
    "v4_total_len ip = be16 (data ! 2) (data ! 3)" "v4_header_len ip = (data ! 0 AND 0xF) * 4"
    "v4_protocol ip = data ! 9" "v4_src ip = pkt_src data" "v4_dst ip = pkt_dst data"
    "v4_payload ip = drop (unat ((data ! 0 AND 0xF) * 4)) data"
    using parse_ipv4_total [of ether] wf(1) assms(3) by auto
  have tl: "be16 (data ! 2) (data ! 3) = of_nat (pkt_total_len data)"
    by (simp add: pkt_total_len_def)
  have u: "unat (of_nat (pkt_total_len data) :: u16) = pkt_total_len data"
    using pkt_total_len_word tl by metis
  have inv: "lp_inv (noted E ether lp)" using assms(1) by simp
  have send: "send_ether E m ETHER_TYPE_IPV4 [\<lparr>pl_ptr = data, pl_len = of_nat (pkt_total_len data)\<rparr>] (noted E ether lp) =
      Inr (0, frame_sent (ether_header m (pc_mac (lp_packet_ctx lp)) ETHER_TYPE_IPV4 @ data') (noted E ether lp))" for m
    using send_packet_eq [OF inv, of "of_nat (pkt_total_len data)" data E m] wf(2,3) assms(4) u by simp
  show ?thesis
    by (intro exI [of _ ip]; simp add: ip assms(3) wf(5) u process_ipv4_def tl case_prod_unfold Let_def CMP_IPV4_def
        arp_has_ip_def arp_get_mac_by_ip_def send [unfolded assms(3)] split: option.split)
qed


lemma process_ipv4_total:
  assumes "lp_inv lp" and "lp_frag_id lp < INT_MAX" and "wf_ipv4 data" and "ef_payload ether = data"
    and "ef_raw ether = eth @ data" and "length eth = 14" and "unat (ef_raw_len ether) = length (eth @ data)"
  shows "\<exists>r lp'. process_ipv4 E ether lp = Inr (r, lp') \<and> kept lp lp'"
proof -
  let ?lp1 = "noted E ether lp" and ?len = "of_nat (pkt_total_len data) :: u16"
  note wf = wf_ipv4D [OF assms(3)]
  have oc: "only_ctx lp ?lp1" and inv: "lp_inv ?lp1" using assms(1) by (auto simp: only_ctx_arp_set)
  have u: "unat ?len = pkt_total_len data" using wf(3) by (intro unat_of_nat_u16) simp
  obtain r lp2 where relay: "lan_client_send_ipv4 E (pkt_dst data) data ?len ?lp1 = Inr (r, lp2)" "kept ?lp1 lp2"
    using send_ipv4_kept [OF inv wf(1), of ?len E "pkt_dst data"] wf(2) u assms(2) only_ctxD [OF oc] by auto
  have inv2: "lp_inv lp2" using relay(2) by (simp add: kept_def)
  have echoed: "\<exists>f. send_ether E m ETHER_TYPE_IPV4 [\<lparr>pl_ptr = data, pl_len = ?len\<rparr>] lp2 = Inr (0, frame_sent f lp2)
      \<and> length f \<le> 2048" for m
    using send_packet_eq [OF inv2, of ?len data E m] wf(2,3) u by auto
  have gw: "\<exists>g. gateway_on_packet E (lp_gateway lp) (ef_raw ether) (int (unat (ef_raw_len ether))) = Inr g
      \<and> proxy_ok (gw_proxy g)"
    using gateway_on_packet_ok [OF _ wf(4) assms(6), of "lp_gateway lp" E] assms(1,5,7) by (simp add: lp_inv_def)
  have gwk: "kept lp (?lp1\<lparr>lp_gateway := g\<rparr>)" if "proxy_ok (gw_proxy g)" for g
    using inv that only_ctxD [OF oc] by (simp add: kept_def lp_inv_def)
  have k1: "kept lp ?lp1" using oc inv by (rule keptI)
  have k2: "kept lp lp2" using oc relay(2) by (rule only_ctx_kept)
  have k3: "kept lp (frame_sent f lp2)" if "length f \<le> 2048" for f
    using kept_only_ctx [OF k2 only_ctxI(2)] inv2 that by simp
  obtain ip where ip: "v4_src ip = pkt_src data" "v4_dst ip = pkt_dst data"
    "unat (v4_header_len ip) = ip_header_len data" "unat (v4_total_len ip) = pkt_total_len data"
    "v4_payload ip = drop (ip_header_len data) data"
    and eq: "process_ipv4 E ether lp =
    (if pkt_dst data = pc_ip (lp_packet_ctx lp) then
       if data ! 9 = IPV4_PROTOCOL_ICMP then process_icmp E ip ?lp1 else Inr (0, ?lp1)
     else if IS_SUBNET (pkt_dst data) (pc_subnet_net (lp_packet_ctx lp)) (pc_subnet_mask (lp_packet_ctx lp)) then
       if IS_BROADCAST (pkt_dst data) (pc_subnet_net (lp_packet_ctx lp)) (pc_subnet_mask (lp_packet_ctx lp)) then
         rbind (lan_client_send_ipv4 E (pkt_dst data) data ?len ?lp1) (\<lambda>(_, lp2).
         send_ether E (ef_src ether) ETHER_TYPE_IPV4 [\<lparr>pl_ptr = data, pl_len = ?len\<rparr>] lp2)
       else
         case arp_list_get (clock E) (pkt_dst data) (pc_arp_list (lp_packet_ctx ?lp1)) of
           Some m \<Rightarrow> Inr (0, frame_sent (ether_header m (pc_mac (lp_packet_ctx lp)) ETHER_TYPE_IPV4
             @ take (pkt_total_len data) data) ?lp1)
         | None \<Rightarrow> lan_client_send_ipv4 E (pkt_dst data) data ?len ?lp1
     else if CMP_MAC (pc_mac (lp_packet_ctx lp)) (ef_dst ether) then
       rbind (gateway_on_packet E (lp_gateway lp) (ef_raw ether) (int (unat (ef_raw_len ether)))) (\<lambda>g.
       Inr (0, ?lp1\<lparr>lp_gateway := g\<rparr>))
     else Inr (0, ?lp1))"
    using process_ipv4_eq [OF assms(1,3,4) refl, of E] by blast
  have icmp: "\<exists>lp'. process_icmp E ip ?lp1 = Inr (0, lp') \<and> kept lp lp'"
  proof -
    have "icmp_len ip \<le> length (v4_payload ip)" "34 + icmp_len ip < 2048"
      using ip wf(2,3,6,7) by (simp_all add: icmp_len_def)
    with process_icmp_total [OF inv, of ip E] ip(3,4) wf(6) kept_only_ctx [OF k1] show ?thesis by auto
  qed
  have fwd: "kept lp (frame_sent (ether_header m (pc_mac (lp_packet_ctx lp)) ETHER_TYPE_IPV4
      @ take (pkt_total_len data) data) ?lp1)" for m
    using kept_only_ctx [OF k1 only_ctxI(2)] inv wf(2,3) by simp
  show ?thesis
    unfolding eq using icmp k1 k2 k3 fwd gw gwk relay(1) echoed [of "ef_src ether"] by (auto split: option.split)
qed


section \<open>Handlers keep the invariant\<close>

lemma process_ether_total:
  assumes "lp_inv lp" and "lp_frag_id lp < INT_MAX" and "wf_frame packet"
  shows "\<exists>r lp'. process_ether E packet (of_nat (length packet)) lp = Inr (r, lp') \<and> kept lp lp'"
proof -
  have len: "14 \<le> length packet" "length packet < 65536" using assms(3) by (auto simp: wf_frame_def)
  let ?e = "\<lparr>ef_raw = packet, ef_raw_len = of_nat (length packet), ef_dst = frame_dst packet,
    ef_src = frame_src packet, ef_type = frame_type packet, ef_payload = drop 14 packet\<rparr>"
  have arp: "\<exists>r lp'. process_arp E ?e lp = Inr (r, lp') \<and> kept lp lp'" if "frame_type packet = ETHER_TYPE_ARP"
  proof -
    have "42 \<le> length packet" using assms(3) that by (simp add: wf_frame_def)
    then have "28 \<le> length (ef_payload ?e)" by simp
    from process_arp_total [OF assms(1) this] show ?thesis using keptI by blast
  qed
  have ip: "\<exists>r lp'. process_ipv4 E ?e lp = Inr (r, lp') \<and> kept lp lp'" if "frame_type packet = ETHER_TYPE_IPV4"
    using process_ipv4_total [OF assms(1,2), of "drop 14 packet" ?e "take 14 packet" E] assms(3) that len
    by (simp add: wf_frame_def unat_of_nat_u16)
  have id: "kept lp lp" using assms(1) by (intro keptI) auto
  show ?thesis
    unfolding process_ether_def parse_frame [OF len(1)] rbind_Inr using arp ip id by auto
qed

lemma ucast_of_nat_u32: "n < 65536 \<Longrightarrow> ucast (of_nat n :: u32) = (of_nat n :: u16)"
proof -
  assume "n < 65536"
  then have "unat (of_nat n :: u32) = n" by (simp add: unat_of_nat)
  then show ?thesis using of_nat_unat by metis
qed

lemma get_packet_total:
  assumes "lp_inv lp" and "lp_frag_id lp < INT_MAX" and "wf_frame packet"
  shows "\<exists>lp'. get_packet E (of_nat (length packet)) packet lp = Inr lp' \<and> kept lp lp'"
proof -
  have len: "length packet < 65536" using assms(3) by (auto simp: wf_frame_def)
  let ?n = "of_nat (length packet) :: u32"
  let ?lp = "ctx_map (\<lambda>c. c\<lparr>pc_download_packet := pc_download_packet c + 1,
    pc_download_byte := pc_download_byte c + ucast ?n\<rparr>) lp"
  have u: "unat ?n = length packet" using len by (simp add: unat_of_nat)
  then have lt: "\<not> ?n \<ge> 65536" using len by (simp add: word_le_nat_alt)
  have n: "ucast ?n = (of_nat (length packet) :: u16)"
    using len by (rule ucast_of_nat_u32)
  have oc: "only_ctx lp ?lp" by blast
  have "lp_inv ?lp" using assms(1) by (simp add: lp_inv_def)
  then obtain r lp' where "process_ether E packet (of_nat (length packet)) ?lp = Inr (r, lp')" "kept ?lp lp'"
    using process_ether_total [of ?lp packet E] assms(2,3) by auto
  then show ?thesis
    using lt u only_ctx_kept [OF oc] unfolding get_packet_def Let_def n by (auto simp: print_packet_def rdn_def)
qed

lemma capture_total:
  assumes "lp_inv lp" and "lp_frag_id lp < INT_MAX" and "wf_frame packet" and "h < length (interfaces (lp_pcap lp))"
  shows "\<exists>lp'. capture E h (of_nat (length packet)) packet lp = Inr lp' \<and> kept lp lp'"
proof -
  have len: "14 \<le> length packet" using assms(3) by (auto simp: wf_frame_def)
  obtain p where p: "uv_pcap_callback (lp_pcap lp) h packet = Inr p"
    using len by (simp add: uv_pcap_callback_def CPY_MAC_eq)
  have pi: "pcap_inv p" using pcap_inv_callback [OF _ assms(4) p] assms(1) by (simp add: lp_inv_def)
  let ?lp = "packet_set_mac (if_mac (interfaces p ! h)) (lp\<lparr>lp_pcap := p\<rparr>)"
  have inv: "lp_inv ?lp" using assms(1) pi by (simp add: lp_inv_def packet_set_mac_def)
  have oc: "only_ctx lp ?lp" by (simp add: only_ctx_def packet_set_mac_def)
  then show ?thesis
    using get_packet_total [OF inv, of packet E] assms(2,3) only_ctxD(4) [OF oc] only_ctx_kept [OF oc] p
    by (auto simp: capture_def lan_play_pcap_handler_def)
qed

lemma gateway_send_total:
  assumes "lp_inv lp" and "20 \<le> length data" and "14 + length data < 2048"
  shows "\<exists>r lp'. lan_play_gateway_send_packet E data (of_nat (length data)) lp = Inr (r, lp') \<and> kept lp lp'"
proof -
  have u: "unat (of_nat (length data) :: u16) = length data" using assms(3) by (intro unat_of_nat_u16) simp
  have dst: "CPY_IPV4 data IPV4_OFF_DST = Inr (pkt_dst data)"
    using assms(2) by (simp add: IPV4_OFF_DST_def CPY_IPV4_eq pkt_dst_def)
  have "kept lp (frame_sent f lp)" if "length f \<le> 2048" for f
    using assms(1) that by (intro keptI) auto
  then show ?thesis
    using assms u
    by (auto simp: lan_play_gateway_send_packet_def dst arp_get_mac_eq [OF assms(1)] send_packet_eq split: option.split)
qed

end
