(* ===== verification/Main_Loop.thy ===== *)
theory Main_Loop
  imports Process
begin

text \<open>
  The event loop: which handler the libuv loop runs for which event, as a step relation on the state
  of the program, and what holds in every state the program reaches.
\<close>

section \<open>Events\<close>

text \<open>The TCP connection of a SOCKS5 session, which negotiates the UDP association.\<close>

definition socks5_tcp_event :: "env \<Rightarrow> udp_cache_key \<Rightarrow> s5_event \<Rightarrow> lan_play \<Rightarrow> lan_play res" where
  "socks5_tcp_event E key ev lp =
     (case gw_proxy (lp_gateway lp) of
        Direct_proxy p \<Rightarrow> Inr lp
      | Socks5_proxy cfg p \<Rightarrow>
          (case map_of (cacheTable p) key of
             None \<Rightarrow> Inr lp
           | Some u \<Rightarrow>
               rbind (case ev of
                   Ev_connected \<Rightarrow> socks5_on_tcp_connect (clock E) u
                 | Ev_data d \<Rightarrow> socks5_on_tcp_data (clock E) u d) (\<lambda>(u', out).
               Inr (lp\<lparr>lp_gateway := (lp_gateway lp)
                 \<lparr>gw_proxy := Socks5_proxy cfg (p\<lparr>cacheTable := AList.update key u' (cacheTable p)\<rparr>),
                  gw_udp_log := gw_udp_log (lp_gateway lp) @ out\<rparr>\<rparr>))))"

datatype event =
    Frame nat bytes
  | Relay_datagram bytes
  | Broadcast_tick
  | Keepalive_tick
  | Gc_tick
  | Inet_datagram udp_cache_key ip4 u16 bytes
  | Socks5_tcp udp_cache_key s5_event
  | Lwip_output bytes

fun handle :: "env \<Rightarrow> event \<Rightarrow> lan_play \<Rightarrow> lan_play res" where
  "handle E (Frame h packet) lp = capture E h (of_nat (length packet)) packet lp"
| "handle E (Relay_datagram d) lp = recv_datagram E d lp"
| "handle E Broadcast_tick lp = Inr (lan_client_real_broadcast_timer lp)"
| "handle E Keepalive_tick lp = lan_client_keepalive_timer E lp"
| "handle E Gc_tick lp = proxy_gc_timer E lp"
| "handle E (Inet_datagram key ip port data) lp = proxy_on_recv E key ip port data lp"
| "handle E (Socks5_tcp key ev) lp = socks5_tcp_event E key ev lp"
| "handle E (Lwip_output data) lp =
     rbind (lan_play_gateway_send_packet E data (of_nat (length data)) lp) (\<lambda>(_, lp'). Inr lp')"

text \<open>The events the program handles without a fault.\<close>

fun event_ok :: "lan_play \<Rightarrow> event \<Rightarrow> bool" where
  "event_ok lp (Frame h packet) = (h < length (interfaces (lp_pcap lp)) \<and> wf_frame packet)"
| "event_ok lp (Relay_datagram d) = datagram_checked d"
| "event_ok lp (Inet_datagram key ip port data) = (10 \<le> length data \<and> length data \<le> 2005)"
| "event_ok lp (Lwip_output data) = (20 \<le> length data \<and> length data \<le> 2033)"
| "event_ok lp _ = True"

inductive step :: "lan_play \<Rightarrow> lan_play \<Rightarrow> bool" where
  handled: "event_ok lp ev \<Longrightarrow> handle E ev lp = Inr lp' \<Longrightarrow> step lp lp'"

inductive_cases step_cases: "step lp lp'"

inductive reached :: "lan_play \<Rightarrow> nat \<Rightarrow> lan_play \<Rightarrow> bool" for lp0 where
  start: "reached lp0 0 lp0"
| event: "reached lp0 n lp \<Longrightarrow> step lp lp' \<Longrightarrow> reached lp0 (Suc n) lp'"

inductive_cases reached_cases: "reached lp0 n lp"

section \<open>Handlers of the proxies\<close>

lemma inv_gateway:
  assumes "lp_inv lp" and "proxy_ok (gw_proxy g)"
  shows "lp_inv (lp\<lparr>lp_gateway := g\<rparr>)"
  using assms by (simp add: lp_inv_def)

lemma kept_gateway: "kept a b \<Longrightarrow> proxy_ok (gw_proxy g) \<Longrightarrow> kept a (b\<lparr>lp_gateway := g\<rparr>)"
  by (auto simp: kept_def inv_gateway)

lemma kept_refl: "lp_inv a \<Longrightarrow> kept a a"
  by (auto intro: keptI)

lemma send_udp_kept:
  assumes "lp_inv lp" and "unat len \<le> length data" and "42 + unat len < 2048"
  shows "\<exists>r lp'. send_udp_ex E src srcport dst dstport [\<lparr>pl_ptr = data, pl_len = len\<rparr>] lp = Inr (r, lp')
    \<and> kept lp lp' \<and> lp_gateway lp' = lp_gateway lp"
proof -
  let ?p = "\<lparr>pl_ptr = data, pl_len = len\<rparr>"
  let ?h = "\<lparr>pl_ptr = udp_header srcport dstport (of_nat (8 + unat (pl_len ?p)))
    (udp_checksum src srcport dst dstport (payload_bytes ?p)), pl_len = 8\<rparr>"
  have p: "payload_ok ?p" "length (payload_bytes ?p) = unat len"
    using assms(2) by (simp_all add: payload_ok_def payload_bytes_def)
  have h: "payload_ok ?h" "length (payload_bytes ?h) = 8"
    by (simp_all add: payload_ok_def payload_bytes_def)
  obtain lp' where "send_ipv4_ex E src dst 17 [?h, ?p] lp = Inr (0, lp')" "lp_inv lp'" "only_ctx lp lp'"
    using send_ipv4_ex_total [OF assms(1), of "[?h, ?p]" E src dst 17] p h assms(3) by auto
  then show ?thesis
    using send_udp_ex_eq [OF p(1), of E src srcport dst dstport lp] assms(3) keptI only_ctxD(10) by auto
qed

lemma direct_on_recv_kept:
  assumes "lp_inv lp" and "gw_proxy (lp_gateway lp) = Direct_proxy p" and "length data \<le> 2005"
  shows "\<exists>lp'. direct_on_recv E key ip port data p lp = Inr lp' \<and> kept lp lp'"
proof (cases "map_of (cacheTable p) key")
  case None
  then show ?thesis using kept_refl [OF assms(1)] by (simp add: direct_on_recv_def)
next
  case (Some u)
  have p: "direct.table_ok p" "direct.handles_ok p" using assms(1,2) by (auto simp: lp_inv_def)
  have u: "unat (of_nat (length data) :: u16) = length data" using assms(3) by (intro unat_of_nat_u16) simp
  obtain r lp1 where s: "send_udp_ex E ip port (du_src u) (du_srcport u)
      [\<lparr>pl_ptr = data, pl_len = of_nat (length data)\<rparr>] lp = Inr (r, lp1)" "kept lp lp1"
    using send_udp_kept [OF assms(1), of "of_nat (length data)" data E ip port "du_src u" "du_srcport u"] u assms(3) by auto
  have "proxy_ok (Direct_proxy (p\<lparr>cacheTable := AList.update key (direct_visit (clock E) u) (cacheTable p)\<rparr>))"
    using direct.update_item [OF p Some, of "direct_visit (clock E) u"] by (simp add: direct_visit_def)
  then show ?thesis using s Some by (simp add: direct_on_recv_def kept_gateway)
qed

lemma socks5_decap_total:
  assumes "10 \<le> length data" and "length data \<le> 2015"
  shows "socks5_decap data = Inr None \<or> (\<exists>ip port ptr len. socks5_decap data = Inr (Some (ip, port, ptr, len))
    \<and> unat len = length data - 10 \<and> length ptr = length data - 10)"
proof -
  have "(of_nat (length data) :: u16) - of_nat UDPHeaderSize = of_nat (length data - 10)"
    using assms(1) by (simp add: UDPHeaderSize_def of_nat_diff)
  moreover have "unat (of_nat (length data - 10) :: u16) = length data - 10"
    using assms(2) by (intro unat_of_nat_u16) simp
  ultimately show ?thesis
    using assms(1) by (auto simp: socks5_decap_def unpacker_readAny_def UDPHeaderSize_def)
qed

lemma socks5_on_recv_kept:
  assumes "lp_inv lp" and "gw_proxy (lp_gateway lp) = Socks5_proxy cfg p" and "10 \<le> length data" and "length data \<le> 2015"
  shows "\<exists>lp'. socks5_on_recv E key data cfg p lp = Inr lp' \<and> kept lp lp'"
proof (cases "map_of (cacheTable p) key")
  case None
  then show ?thesis using kept_refl [OF assms(1)] by (simp add: socks5_on_recv_def)
next
  case (Some u)
  have p: "socks5.table_ok p" "socks5.handles_ok p" using assms(1,2) by (auto simp: lp_inv_def)
  have ok: "proxy_ok (Socks5_proxy cfg (p\<lparr>cacheTable := AList.update key (socks5_visit (clock E) u) (cacheTable p)\<rparr>))"
    using socks5.update_item [OF p Some, of "socks5_visit (clock E) u"] by (simp add: socks5_visit_def su_good_def)
  from socks5_decap_total [OF assms(3,4)] show ?thesis
  proof (elim disjE exE conjE)
    assume "socks5_decap data = Inr None"
    then show ?thesis using kept_refl [OF assms(1)] Some by (simp add: socks5_on_recv_def)
  next
    fix ip port ptr len
    assume d: "socks5_decap data = Inr (Some (ip, port, ptr, len))" "unat len = length data - 10" "length ptr = length data - 10"
    obtain r lp1 where "send_udp_ex E ip port (su_src u) (su_srcport u) [\<lparr>pl_ptr = ptr, pl_len = len\<rparr>] lp = Inr (r, lp1)"
      "kept lp lp1"
    proof -
      have "42 + unat len < 2048" using d(2) assms(4) by linarith
      then show ?thesis
        using that send_udp_kept [OF assms(1), of len ptr E ip port "su_src u" "su_srcport u"] d(2,3) by auto
    qed
    then show ?thesis using Some d(1) ok by (simp add: socks5_on_recv_def kept_gateway)
  qed
qed

lemma proxy_gc_timer_kept: "lp_inv lp \<Longrightarrow> \<exists>lp'. proxy_gc_timer E lp = Inr lp' \<and> kept lp lp'"
proof -
  assume inv: "lp_inv lp"
  show ?thesis
  proof (cases "gw_proxy (lp_gateway lp)")
    case (Direct_proxy p)
    then have "direct.table_ok p" "direct.handles_ok p" using inv by (auto simp: lp_inv_def)
    from direct.step_spec [OF this, of "Ev_gc (clock E)"] show ?thesis
      using Direct_proxy kept_gateway [OF kept_refl [OF inv]] by (auto simp: proxy_gc_timer_def rbind_eq_Inr)
  next
    case (Socks5_proxy cfg p)
    then have "socks5.table_ok p" "socks5.handles_ok p" using inv by (auto simp: lp_inv_def)
    from socks5.step_spec [OF this, of "Ev_gc (clock E)" cfg] show ?thesis
      using Socks5_proxy kept_gateway [OF kept_refl [OF inv]] by (auto simp: proxy_gc_timer_def rbind_eq_Inr)
  qed
qed

lemma socks5_acts_keeps:
  "su_handle (fst (socks5_acts t u as)) = su_handle u \<and> (su_good u \<longrightarrow> su_good (fst (socks5_acts t u as)))"
  by (induction "as" arbitrary: u)
    (auto simp: Let_def case_prod_unfold su_good_def socks5_udp_ready_def socks5_visit_def
      split: s5_act.split option.split)

lemma s5_event_total:
  "\<exists>s' acts. s5_on_connect s = Inr (s', acts)" "\<exists>s' acts. s5_on_data s d = Inr (s', acts)"
  using on_auth_eq [of s d] by (auto simp: on_connect_eq s5_on_data_def on_reply_eq s5_fail_def split: s5_wait.split)

lemma socks5_tcp_item:
  "\<exists>u' out. (case ev of Ev_connected \<Rightarrow> socks5_on_tcp_connect t u | Ev_data d \<Rightarrow> socks5_on_tcp_data t u d) = Inr (u', out)
    \<and> su_handle u' = su_handle u \<and> (su_good u \<longrightarrow> su_good u')"
proof -
  have acts: "\<exists>u' out. socks5_acts t (u\<lparr>su_protocol := s, su_tcp := l\<rparr>) as = (u', out)
      \<and> su_handle u' = su_handle u \<and> (su_good u \<longrightarrow> su_good u')" for s l "as"
    using socks5_acts_keeps [of t "u\<lparr>su_protocol := s, su_tcp := l\<rparr>" "as"]
    by (cases "socks5_acts t (u\<lparr>su_protocol := s, su_tcp := l\<rparr>) as") (simp add: su_good_def)
  show ?thesis
  proof (cases ev)
    case Ev_connected
    then show ?thesis using acts by (simp add: socks5_on_tcp_connect_def on_connect_eq)
  next
    case (Ev_data d)
    obtain s' as where "s5_on_data (su_protocol u) d = Inr (s', as)" using s5_event_total(2) by blast
    with Ev_data acts show ?thesis by (simp add: socks5_on_tcp_data_def)
  qed
qed

lemma socks5_tcp_kept: "lp_inv lp \<Longrightarrow> \<exists>lp'. socks5_tcp_event E key ev lp = Inr lp' \<and> kept lp lp'"
proof -
  assume inv: "lp_inv lp"
  note refl = kept_refl [OF inv]
  show ?thesis
  proof (cases "gw_proxy (lp_gateway lp)")
    case (Direct_proxy p)
    then show ?thesis using refl by (simp add: socks5_tcp_event_def)
  next
    case (Socks5_proxy cfg p)
    show ?thesis
    proof (cases "map_of (cacheTable p) key")
      case None
      then show ?thesis using refl Socks5_proxy by (simp add: socks5_tcp_event_def)
    next
      case (Some u)
      have p: "socks5.table_ok p" "socks5.handles_ok p" using inv Socks5_proxy by (auto simp: lp_inv_def)
      have good: "su_good u" using socks5.table_ok_lookup [OF p(1) Some] .
      obtain u' out where u': "(case ev of Ev_connected \<Rightarrow> socks5_on_tcp_connect (clock E) u
          | Ev_data d \<Rightarrow> socks5_on_tcp_data (clock E) u d) = Inr (u', out)"
        "su_handle u' = su_handle u" "su_good u'"
        using socks5_tcp_item [of "clock E" u ev] good by blast
      have "proxy_ok (Socks5_proxy cfg (p\<lparr>cacheTable := AList.update key u' (cacheTable p)\<rparr>))"
        using socks5.update_item [OF p Some u'(3,2)] by simp
      then show ?thesis
        using Socks5_proxy Some u'(1) by (auto simp: socks5_tcp_event_def intro!: kept_gateway refl)
    qed
  qed
qed


section \<open>Every handler keeps the invariant\<close>

lemma handle_inv:
  assumes "main_inv n lp" and "int n < INT_MAX" and "event_ok lp ev"
  shows "\<exists>lp'. handle E ev lp = Inr lp' \<and> main_inv (Suc n) lp'"
proof -
  have inv: "lp_inv lp" "relay_inv lp" "lp_frag_id lp < INT_MAX" "lp_local_id lp < INT_MAX"
    "\<forall>username. lp_username lp = Some username \<longrightarrow> length username < 65516"
    using assms(1,2) by (auto simp: main_inv_def relay_inv_def)
  have K: "\<exists>lp'. m = Inr lp' \<and> main_inv (Suc n) lp'" if "\<exists>lp'. m = Inr lp' \<and> kept lp lp'" for m
    using that kept_inv [OF _ assms(1)] by blast
  show ?thesis
  proof (cases ev)
    case (Frame h packet)
    then show ?thesis using capture_total [OF inv(1,3), of packet h E] assms(3) by (intro K) simp
  next
    case (Relay_datagram d)
    obtain lp' where lp': "recv_datagram E d lp = Inr lp'" "relay_inv lp'" "next_counts lp lp'"
      using relay_datagram_handled [OF inv(2) _ inv(4,5), of d E] assms(3) Relay_datagram by auto
    then show ?thesis
      using assms(1) Relay_datagram by (auto simp: main_inv_def next_counts_def)
  next
    case Broadcast_tick
    have "kept lp (lan_client_real_broadcast_timer lp)"
      using inv(1) by (simp add: kept_def lan_client_real_broadcast_timer_def lp_inv_def)
    then show ?thesis using Broadcast_tick by (intro K) simp
  next
    case Keepalive_tick
    then show ?thesis
      using send_plain_eq [of 0 "[]" LAN_CLIENT_TYPE_KEEPALIVE lp E] inv(1)
      by (intro K) (simp add: lan_client_keepalive_timer_def lan_client_send_keepalive_def client_types kept_def
          del: relay_sent.simps)
  next
    case Gc_tick
    then show ?thesis using proxy_gc_timer_kept [OF inv(1)] by (intro K) simp
  next
    case (Inet_datagram key ip port data)
    then show ?thesis
      using direct_on_recv_kept [OF inv(1)] socks5_on_recv_kept [OF inv(1)] assms(3)
      by (intro K) (simp add: proxy_on_recv_def split: proxy.split)
  next
    case (Socks5_tcp key e)
    then show ?thesis using socks5_tcp_kept [OF inv(1)] by (intro K) simp
  next
    case (Lwip_output data)
    then obtain r lp' where "lan_play_gateway_send_packet E data (of_nat (length data)) lp = Inr (r, lp')" "kept lp lp'"
      using gateway_send_total [OF inv(1), of data E] assms(3) by auto
    then show ?thesis using Lwip_output by (intro K) simp
  qed
qed


section \<open>Properties\<close>

lemma reached_inv: "reached lp0 n lp \<Longrightarrow> main_inv 0 lp0 \<Longrightarrow> int n \<le> INT_MAX \<Longrightarrow> main_inv n lp"
proof (induction rule: reached.induct)
  case (event n lp lp')
  then have "main_inv n lp" by simp
  from event.hyps(2) show ?case
  proof (cases rule: step.cases)
    case (handled ev E)
    then show ?thesis using handle_inv [OF \<open>main_inv n lp\<close> _ handled(1), of E] event.prems by auto
  qed
qed simp

text \<open>The program never faults. From a state that satisfies the invariant, after any sequence of
  fewer than \<open>2 ^ 31\<close> events in any order (frames from any interface, datagrams of the relay,
  of the internet and of a SOCKS5 server, TCP data of SOCKS5 sessions, packets of the TCP stack,
  and ticks of the timers, at any times), the handler of the next event returns, with no read or
  write out of bounds, no use of an uninitialised value, no failed assertion and no overflow of a
  signed counter, and the invariant holds again. What is asked of an event is that the frame is
  from an open interface and well-formed, that the relay's datagram passes the checks the code
  leaves out, and that other packets fit the send buffer.\<close>

theorem program_never_faults:
  assumes "main_inv 0 lp0" and "reached lp0 n lp" and "int n < INT_MAX" and "event_ok lp ev"
  shows "\<exists>lp'. handle E ev lp = Inr lp' \<and> main_inv (Suc n) lp' \<and> reached lp0 (Suc n) lp'"
proof -
  have "main_inv n lp" using reached_inv [OF assms(2,1)] assms(3) by simp
  from handle_inv [OF this assms(3,4), of E] show ?thesis
    using reached.event [OF assms(2) step.handled [OF assms(4)]] by blast
qed

lemma example_main_inv: "main_inv 0 example_lp"
  by (simp add: main_inv_def example_lp_relay_inv)

theorem program_never_faults_witness:
  "\<exists>lp'. handle example_env (Relay_datagram [1, 69]) example_lp = Inr lp' \<and> main_inv (Suc 0) lp' \<and>
     reached example_lp (Suc 0) lp'"
proof (rule program_never_faults)
  show "reached example_lp 0 example_lp" by (rule reached.start)
qed (simp_all add: example_main_inv datagram_checked_def CLIENT_RECV_BUF_LEN_def client_types)

text \<open>A frame of the console for a player elsewhere.\<close>

definition for_remote :: "env \<Rightarrow> nat \<Rightarrow> bytes \<Rightarrow> lan_play \<Rightarrow> bool" where
  "for_remote E h f lp \<longleftrightarrow>
     (let dst = pkt_dst (drop 14 f); c = lp_packet_ctx lp in
      h < length (interfaces (lp_pcap lp)) \<and> wf_frame f \<and> frame_type f = ETHER_TYPE_IPV4 \<and>
      \<not> CMP_MAC (frame_src f) (if_mac (interfaces (lp_pcap lp) ! h)) \<and>
      dst \<noteq> pc_ip c \<and> IS_SUBNET dst (pc_subnet_net c) (pc_subnet_mask c) \<and>
      \<not> IS_BROADCAST dst (pc_subnet_net c) (pc_subnet_mask c) \<and>
      dst \<noteq> NONE_IP \<and> dst \<noteq> pkt_src (drop 14 f) \<and> arp_list_get (clock E) dst (pc_arp_list c) = None)"

lemma capture_remote:
  assumes "lp_inv lp" and "lp_frag_id lp < INT_MAX" and "for_remote E h f lp" and "data = drop 14 f"
  shows "\<exists>lp1. only_ctx lp lp1 \<and> lp_inv lp1 \<and>
    (\<forall>r lp'. lan_client_send_ipv4 E (pkt_dst data) data (of_nat (pkt_total_len data)) lp1 = Inr (r, lp') \<longrightarrow>
       capture E h (of_nat (length f)) f lp = Inr lp')"
proof -
  let ?m = "if_mac (interfaces (lp_pcap lp) ! h)" and ?len = "of_nat (length f) :: u32"
  have r: "h < length (interfaces (lp_pcap lp))" "wf_frame f" "frame_type f = ETHER_TYPE_IPV4"
    "\<not> CMP_MAC (frame_src f) ?m" "pkt_dst data \<noteq> pc_ip (lp_packet_ctx lp)"
    "IS_SUBNET (pkt_dst data) (pc_subnet_net (lp_packet_ctx lp)) (pc_subnet_mask (lp_packet_ctx lp))"
    "\<not> IS_BROADCAST (pkt_dst data) (pc_subnet_net (lp_packet_ctx lp)) (pc_subnet_mask (lp_packet_ctx lp))"
    "pkt_dst data \<noteq> NONE_IP" "pkt_dst data \<noteq> pkt_src data"
    "arp_list_get (clock E) (pkt_dst data) (pc_arp_list (lp_packet_ctx lp)) = None"
    using assms(3,4) by (auto simp: for_remote_def Let_def)
  have len: "14 \<le> length f" "length f < 65536" and wf: "wf_ipv4 data"
    using r(2,3) assms(4) by (auto simp: wf_frame_def)
  obtain p where p: "uv_pcap_callback (lp_pcap lp) h f = Inr p" "interfaces p = interfaces (lp_pcap lp)"
    using len by (simp add: uv_pcap_callback_def CPY_MAC_eq)
  have pi: "pcap_inv p" using pcap_inv_callback [OF _ r(1) p(1)] assms(1) by (simp add: lp_inv_def)
  define lp0 where "lp0 = ctx_map (\<lambda>c. c\<lparr>pc_mac := ?m, pc_download_packet := pc_download_packet c + 1,
    pc_download_byte := pc_download_byte c + ucast ?len\<rparr>) (lp\<lparr>lp_pcap := p\<rparr>)"
  let ?e = "\<lparr>ef_raw = f, ef_raw_len = of_nat (length f), ef_dst = frame_dst f,
    ef_src = frame_src f, ef_type = frame_type f, ef_payload = data\<rparr>"
  have inv0: "lp_inv lp0" using assms(1) pi by (simp add: lp_inv_def lp0_def)
  have oc0: "only_ctx lp lp0" by (simp add: only_ctx_def lp0_def)
  define lp1 where "lp1 = snd (arp_set E (frame_src f) (pkt_src data) lp0)"
  have lp1: "only_ctx lp lp1" "lp_inv lp1"
    using only_ctx_trans [OF oc0 only_ctx_arp_set] inv0 by (auto simp: lp1_def)
  have unknown: "arp_list_get (clock E) (pkt_dst data) (pc_arp_list (lp_packet_ctx lp1)) = None"
    using arp_get_set_other [OF order_refl r(8), of "pkt_src data" "pc_arp_ttl (lp_packet_ctx lp)" "clock E" "frame_src f"
        "pc_arp_list (lp_packet_ctx lp)", OF _ surjective_pairing] r(9,10)
    by (simp add: lp1_def lp0_def arp_set_def Let_def case_prod_unfold)
  have u: "unat ?len = length f" using len by (simp add: unat_of_nat)
  then have n: "\<not> ?len \<ge> 65536" "ucast ?len = (of_nat (length f) :: u16)"
    using len by (simp_all add: word_le_nat_alt ucast_of_nat_u32)
  have "process_ether E f (of_nat (length f)) lp0 =
      lan_client_send_ipv4 E (pkt_dst data) data (of_nat (pkt_total_len data)) lp1"
    using process_ipv4_eq [OF inv0 wf, of ?e _ E] r(3-7) unknown assms(4)
    by (auto simp: process_ether_def parse_frame [OF len(1)] lp0_def lp1_def ETHER_TYPE_ARP_def ETHER_TYPE_IPV4_def)
  then have "capture E h ?len f lp = Inr lp'"
    if "lan_client_send_ipv4 E (pkt_dst data) data (of_nat (pkt_total_len data)) lp1 = Inr (r', lp')" for r' lp'
    using that p n u
    by (simp add: capture_def lan_play_pcap_handler_def get_packet_def packet_set_mac_def lp0_def Let_def print_packet_def rdn_def)
  then show ?thesis using lp1 by blast
qed


lemma deliver_known:
  assumes "arp_list_get (clock E) dst (pc_arp_list (lp_packet_ctx lp)) = Some m"
    and "\<not> IS_BROADCAST dst (pc_subnet_net (lp_packet_ctx lp)) (pc_subnet_mask (lp_packet_ctx lp))"
  shows "pcap_log (lp_pcap (deliver E dst data lp)) = pcap_log (lp_pcap lp) @ frames_log lp [ipv4_frame lp data m]"
  using assms by (simp add: deliver_def frame_sent_log ipv4_frame_def)

lemma same_lan_fields: "same_lan a b \<Longrightarrow> lp_packet_ctx b = lp_packet_ctx a \<and> lp_pcap b = lp_pcap a"
  by (cases a; cases b) (simp add: same_lan_def)

lemma frames_same: "lp_packet_ctx b = lp_packet_ctx a \<Longrightarrow> lp_pcap b = lp_pcap a \<Longrightarrow>
  frames_log b [ipv4_frame b data m] = frames_log a [ipv4_frame a data m]"
  by (simp add: frames_log_def ipv4_frame_def)

text \<open>The path between two clients carries the packet: it needs no fragments, or fragments the other
  client reassembles.\<close>

definition path_fits :: "lan_play \<Rightarrow> bytes \<Rightarrow> lan_play \<Rightarrow> bool" where
  "path_fits a data b \<longleftrightarrow>
     lp_pmtu a \<le> 0 \<or> int (length data) \<le> lp_pmtu a \<or>
     frag_ok (nat (lp_pmtu a)) data \<and> (\<exists>i. table_free (of_int (lp_frag_id a)) data i b)"

lemma relay_path:
  assumes "lp_inv b" and "packet = data @ rest" and "20 \<le> length data" and "length data \<le> 2033"
    and "path_fits a data b" and "\<forall>n. udp_send_rc E n = 0" and "lp_frag_id a < INT_MAX"
  shows "\<exists>a' ds lp. lan_client_send_ipv4 E dst packet (of_nat (length data)) a = Inr (0, a') \<and>
    lp_udp_log a' = lp_udp_log a @ map (Pair (lp_server_addr a)) ds \<and>
    recv_datagrams E' ds b = Inr (deliver E' (pkt_dst data) data lp) \<and>
    lp_packet_ctx lp = lp_packet_ctx b \<and> lp_pcap lp = lp_pcap b"
proof (cases "lp_pmtu a \<le> 0 \<or> int (length data) \<le> lp_pmtu a")
  case True
  let ?len = "of_nat (length data) :: u16" and ?d = "LAN_CLIENT_TYPE_IPV4 # data"
  have u: "unat ?len = length data" using assms(4) by (intro unat_of_nat_u16) simp
  have "lan_client_send_ipv4 E dst packet ?len a = Inr (0, relay_sent [?d] a)"
    using send_plain_eq [of ?len packet LAN_CLIENT_TYPE_IPV4 a E] True assms(2,6) u
    by (simp add: lan_client_send_ipv4_def del: relay_sent.simps)
  moreover have "lp_udp_log (relay_sent [?d] a) = lp_udp_log a @ map (Pair (lp_server_addr a)) [?d]"
    by (simp add: relay_sent_log)
  moreover have "recv_datagrams E' [?d] b = Inr (deliver E' (pkt_dst data) data (received ?d b))"
    using recv_plain [OF assms(3,4,1), of E'] by simp
  ultimately show ?thesis using received_fields(3,4) by blast
next
  case False
  let ?p = "nat (lp_pmtu a)" and ?id = "of_int (lp_frag_id a) :: u16"
  obtain i where f: "frag_ok ?p data" "table_free ?id data i b" using False assms(5) by (auto simp: path_fits_def)
  let ?n = "frag_count ?p (length data)"
  let ?ds = "map (frag_datagram ?id ?p data) [0..<?n]"
  have u: "unat (of_nat (length data) :: u16) = length data" using assms(4) by (intro unat_of_nat_u16) simp
  have "lan_client_send_ipv4 E dst packet (of_nat (length data)) a =
      Inr (0, relay_sent ?ds (a\<lparr>lp_frag_id := lp_frag_id a + 1\<rparr>))"
    using lan_client_send_frags_eq [of a ?p "of_nat (length data)" packet data rest E] f(1) u False assms(2,6,7)
    by (simp add: lan_client_send_ipv4_def frag_ok_def frag_datagram_def [abs_def])
  moreover have "lp_udp_log (relay_sent ?ds (a\<lparr>lp_frag_id := lp_frag_id a + 1\<rparr>)) =
      lp_udp_log a @ map (Pair (lp_server_addr a)) ?ds"
    by (simp add: relay_sent_log)
  moreover have "\<exists>lp. recv_datagrams E' ?ds b = Inr (deliver E' (pkt_dst data) data lp) \<and> assembled i b lp"
  proof -
    have n: "0 < ?n" using last_frag(2) [OF f(1) refl] by simp
    then have "[0..<?n] = [0..<?n - 1] @ [?n - 1]" by (metis Suc_diff_1 upt_Suc_append zero_le)
    moreover have "insert (?n - 1) (set [0..<?n - 1]) = {..<?n}" using n by auto
    ultimately show ?thesis using recv_frags_complete [OF f assms(1), of "?n - 1" "[0..<?n - 1]" E'] by simp
  qed
  moreover have "assembled i b lp \<Longrightarrow> lp_packet_ctx lp = lp_packet_ctx b \<and> lp_pcap lp = lp_pcap b" for lp
    using same_lan_fields by (auto simp: assembled_def)
  ultimately show ?thesis by blast
qed

text \<open>C3: LAN play works end to end. A packet that a console sends to the address of a remote player
  (captured by its client \<open>a\<close>, whose ARP cache does not have the address) goes to the relay as
  some datagrams, one or, under a path limit, up to eight fragments; and when these reach the
  client \<open>b\<close> of that player, whose ARP cache has the address, \<open>b\<close> puts one frame on its
  wire: the same packet, cut to its length, to the player's hardware address.\<close>

theorem lan_play_end_to_end:
  assumes "lp_inv a" and "lp_inv b" and "lp_frag_id a < INT_MAX" and "\<forall>n. udp_send_rc E n = 0"
    and "for_remote E h f a" and "data = take (pkt_total_len (drop 14 f)) (drop 14 f)" and "path_fits a data b"
    and "arp_list_get (clock E') (pkt_dst data) (pc_arp_list (lp_packet_ctx b)) = Some m"
    and "\<not> IS_BROADCAST (pkt_dst data) (pc_subnet_net (lp_packet_ctx b)) (pc_subnet_mask (lp_packet_ctx b))"
  shows "\<exists>a' ds b'. capture E h (of_nat (length f)) f a = Inr a' \<and>
    lp_udp_log a' = lp_udp_log a @ map (Pair (lp_server_addr a)) ds \<and>
    recv_datagrams E' ds b = Inr b' \<and>
    pcap_log (lp_pcap b') = pcap_log (lp_pcap b) @ frames_log b [ipv4_frame b data m]"
proof -
  let ?full = "drop 14 f"
  have wf: "wf_ipv4 ?full" using assms(5) by (auto simp: for_remote_def wf_frame_def Let_def)
  note w = wf_ipv4D [OF wf]
  have data: "length data = pkt_total_len ?full" "20 \<le> length data" "length data \<le> 2033"
    "pkt_dst data = pkt_dst ?full" "pkt_src data = pkt_src ?full"
    using w assms(6) by (simp_all add: pkt_dst_def pkt_src_def)
  obtain a1 where a1: "only_ctx a a1" "lp_inv a1" and cap:
    "\<And>r a'. lan_client_send_ipv4 E (pkt_dst ?full) ?full (of_nat (pkt_total_len ?full)) a1 = Inr (r, a') \<Longrightarrow>
       capture E h (of_nat (length f)) f a = Inr a'"
    using capture_remote [OF assms(1,3,5) refl] by blast
  have full: "?full = data @ drop (pkt_total_len ?full) ?full"
    unfolding assms(6) by (rule append_take_drop_id [symmetric])
  have fits: "path_fits a1 data b" using assms(7) only_ctxD [OF a1(1)] by (simp add: path_fits_def)
  obtain a' ds lp where s: "lan_client_send_ipv4 E (pkt_dst data) ?full (of_nat (length data)) a1 = Inr (0, a')"
    "lp_udp_log a' = lp_udp_log a1 @ map (Pair (lp_server_addr a1)) ds"
    "recv_datagrams E' ds b = Inr (deliver E' (pkt_dst data) data lp)"
    "lp_packet_ctx lp = lp_packet_ctx b" "lp_pcap lp = lp_pcap b"
    using relay_path [OF assms(2) full data(2,3) fits assms(4), of "pkt_dst data" E'] assms(3) only_ctxD(4) [OF a1(1)]
    by auto
  have "pcap_log (lp_pcap (deliver E' (pkt_dst data) data lp)) =
      pcap_log (lp_pcap b) @ frames_log b [ipv4_frame b data m]"
    using deliver_known [of E' "pkt_dst data" lp m data] assms(8,9) s(4,5) frames_same [OF s(4,5)] by simp
  moreover have "capture E h (of_nat (length f)) f a = Inr a'" using cap s(1) data(1,4) by simp
  ultimately show ?thesis using s(2,3) only_ctxD [OF a1(1)] by auto
qed


text \<open>A packet of 28 bytes in a frame padded to 60.\<close>

definition example_frame :: bytes where
  "example_frame = ether_header (MAC6 2 0 0 0 0 1) (MAC6 6 6 6 6 6 6) ETHER_TYPE_IPV4
     @ [0x45, 0, 0, 28, 0, 0, 0, 0, 64, 17, 0, 0] @ [10, 13, 0, 9] @ [10, 13, 0, 2] @ replicate 26 0"

lemma example_frame_fields:
  "length example_frame = 60" "pkt_dst (drop 14 example_frame) = IP4 10 13 0 2"
  "pkt_src (drop 14 example_frame) = IP4 10 13 0 9" "pkt_total_len (drop 14 example_frame) = 28"
  "ip_header_len (drop 14 example_frame) = 20" "frame_src example_frame = MAC6 6 6 6 6 6 6"
  by (simp_all add: example_frame_def pkt_dst_def pkt_src_def pkt_total_len_def ip_header_len_def
      be16_def put_byte_def ether_header_def frame_src_def nth_append)

lemma example_frame_type: "frame_type example_frame = ETHER_TYPE_IPV4"
  by (simp add: example_frame_def frame_type_def ether_header_def nth_append)

lemma example_frame_dst: "pkt_dst (take 28 (drop 14 example_frame)) = IP4 10 13 0 2"
  using example_frame_fields(2) by (simp add: pkt_dst_def)

lemma example_for_remote: "for_remote example_env 0 example_frame example_lp"
proof -
  have "interfaces (lp_pcap example_lp) = [\<lparr>if_dev = 0, if_mac = MAC6 2 0 0 0 0 1\<rparr>]"
    by (simp add: example_lp_def)
  moreover have "arp_list_get (clock example_env) (IP4 10 13 0 2) arp_list_init = None"
    by (simp add: arp_list_get_def arp_list_init_def find_index_None arp_live_def NONE_IP_def)
  ultimately show ?thesis
    by (simp add: for_remote_def Let_def example_frame_fields example_frame_type wf_frame_def wf_ipv4_def IS_SUBNET_def
        IS_BROADCAST_def le32_def put_byte_def NONE_IP_def CMP_MAC_def ETHER_TYPE_IPV4_def ETHER_TYPE_ARP_def)
qed

theorem lan_play_end_to_end_witness:
  "\<exists>a' ds b'. capture example_env 0 (of_nat (length example_frame)) example_frame example_lp = Inr a' \<and>
    lp_udp_log a' = lp_udp_log example_lp @ map (Pair (lp_server_addr example_lp)) ds \<and>
    recv_datagrams example_env ds example_lp2 = Inr b' \<and>
    pcap_log (lp_pcap b') = pcap_log (lp_pcap example_lp2) @
      frames_log example_lp2 [ipv4_frame example_lp2 (take 28 (drop 14 example_frame)) (MAC6 4 4 4 4 4 4)]"
proof (rule lan_play_end_to_end [OF _ _ _ _ example_for_remote])
  show "\<forall>n. udp_send_rc example_env n = 0" by (simp add: example_env_def)
qed (simp_all add: example_lp_inv path_fits_def example_frame_fields(4) example_frame_dst IS_BROADCAST_def le32_def put_byte_def)

end
