(* ===== verification/Lifecycle.thy ===== *)
theory Lifecycle
  imports Pcap_Open Main_Loop
begin

text \<open>
  The start and the end of the program (\<open>main.c\<close>, \<open>lan-play.c\<close>, \<open>lan-client.c\<close>): what \<open>main\<close>
  does with the command line, how \<open>lan_play_init\<close> builds the state the event loop runs on, and how
  \<open>lan_play_close\<close> and the signal handler take it down. The handles of libuv that the program
  registers are in the state here, since closing is about them. The resolver, the devices, the
  line typed by the user and the results of libuv are parameters.
\<close>

section \<open>State\<close>

datatype uv_handle = H_client | H_keepalive | H_broadcast | H_poll nat | H_lwip_timer | H_proxy_gc | H_signal

datatype hstate = Idle | Active | Closing

text \<open>The handles the loop knows: those initialised and not yet closed for good.\<close>

type_synonym uv_loop = "uv_handle \<rightharpoonup> hstate"

datatype uv_call =
    Udp_init | Udp_bind | Recv_start | Recv_stop
  | Timer_init uv_handle | Timer_start uv_handle | Timer_stop uv_handle
  | Signal_init | Signal_start | Signal_stop | Uvl_init

record world =
  w_getaddrinfo :: "bool \<Rightarrow> string \<Rightarrow> resolved option"
  w_devices :: "device list option"
  w_stdin :: string
  w_rc :: "uv_call \<Rightarrow> int"

record program =
  pg_lp :: lan_play
  pg_loop :: uv_loop
  pg_options :: cli_options
  pg_filters :: "string list"
  pg_bound :: "slp_addr_in option"
  pg_last_err :: string

definition uv_init :: "int \<Rightarrow> uv_handle \<Rightarrow> uv_loop \<Rightarrow> uv_loop" where
  "uv_init rc h l = (if rc = 0 then l(h \<mapsto> Idle) else l)"

definition uv_start :: "uv_handle \<Rightarrow> uv_loop \<Rightarrow> uv_loop" where
  "uv_start h l = l(h \<mapsto> Active)"

definition uv_stop :: "uv_handle \<Rightarrow> uv_loop \<Rightarrow> uv_loop" where
  "uv_stop h l = (if l h = Some Active then l(h \<mapsto> Idle) else l)"

definition uv_close :: "uv_handle \<Rightarrow> uv_loop \<Rightarrow> uv_loop" where
  "uv_close h l = l(h \<mapsto> Closing)"

section \<open>The relay client\<close>

definition bytes_of :: "string \<Rightarrow> bytes" where
  "bytes_of s = map of_char s"

text \<open>The address the socket is bound to: the port of the relay protocol for broadcasts, any port of
  the other family for a relay with an IPv6 address.\<close>

definition lan_client_bind :: "world \<Rightarrow> lan_play \<Rightarrow> slp_addr_in option" where
  "lan_client_bind w lp =
     (if w_rc w Udp_bind \<noteq> 0 then None
      else if lp_broadcast lp then Some (Addr_v4 \<lparr>sin_addr = IP4 0 0 0 0, sin_port = htons 11451\<rparr>)
      else case lp_server_addr lp of
             Addr_v6 _ _ \<Rightarrow> Some (Addr_v6 (replicate 16 0) (htons 0))
           | Addr_v4 _ \<Rightarrow> None)"

definition lan_client_init :: "world \<Rightarrow> program \<Rightarrow> (int \<times> program) res" where
  "lan_client_init w pg =
     (let lp = pg_lp pg in
      if lp_pmtu lp \<noteq> 0 \<and> lp_pmtu lp < MIN_FRAG_PAYLOAD_LEN then Inl Exited
      else
        let lp1 = lp\<lparr>lp_frag_id := 0, lp_local_id := 0, lp_next_real_broadcast := True,
                     lp_frags := replicate LC_FRAG_COUNT empty_frag\<rparr>;
            l1 = uv_init (w_rc w Udp_init) H_client (pg_loop pg);
            l2 = uv_init (w_rc w (Timer_init H_keepalive)) H_keepalive l1;
            l3 = uv_init (w_rc w (Timer_init H_broadcast)) H_broadcast l2;
            pg1 = pg\<lparr>pg_lp := lp1, pg_loop := l3, pg_bound := lan_client_bind w lp1\<rparr>;
            r1 = w_rc w (Timer_start H_keepalive) in
        if r1 \<noteq> 0 then Inr (r1, pg1)
        else
          let l4 = uv_start H_keepalive l3; r2 = w_rc w (Timer_start H_broadcast) in
          if r2 \<noteq> 0 then Inr (r2, pg1\<lparr>pg_loop := l4\<rparr>)
          else
            let l5 = uv_start H_broadcast l4; r3 = w_rc w Recv_start in
            if r3 \<noteq> 0 then Inr (r3, pg1\<lparr>pg_loop := l5\<rparr>)
            else Inr (0, pg1\<lparr>pg_loop := uv_start H_client l5,
              pg_lp := lp1\<lparr>lp_upload_byte := 0, lp_download_byte := 0,
                           lp_upload_packet := 0, lp_download_packet := 0\<rparr>\<rparr>))"

definition lan_client_close :: "world \<Rightarrow> program \<Rightarrow> int \<times> program" where
  "lan_client_close w pg =
     (let r1 = w_rc w Recv_stop in
      if r1 \<noteq> 0 then (r1, pg)
      else
        let l1 = uv_stop H_client (pg_loop pg); r2 = w_rc w (Timer_stop H_keepalive) in
        if r2 \<noteq> 0 then (r2, pg\<lparr>pg_loop := l1\<rparr>)
        else
          let l2 = uv_stop H_keepalive l1; r3 = w_rc w (Timer_stop H_broadcast) in
          if r3 \<noteq> 0 then (r3, pg\<lparr>pg_loop := l2\<rparr>)
          else
            let l3 = uv_stop H_broadcast l2 in
            (0, pg\<lparr>pg_loop := uv_close H_keepalive (uv_close H_client l3)\<rparr>))"

section \<open>The client\<close>

text \<open>The handles of the capture devices, polled from their opening on.\<close>

definition poll_handles :: "uv_pcap \<Rightarrow> uv_loop \<Rightarrow> uv_loop" where
  "poll_handles p l = fold (\<lambda>i. uv_start (H_poll i)) [0..<length (interfaces p)] l"

definition set_relay :: "world \<Rightarrow> cli_options \<Rightarrow> lan_play \<Rightarrow> lan_play option" where
  "set_relay w op lp =
     (case opt_relay_server_addr op of
        None \<Rightarrow> Some lp
      | Some s \<Rightarrow>
          (case parse_addr (w_getaddrinfo w) s of
             None \<Rightarrow> None
           | Some a \<Rightarrow> Some (lp\<lparr>lp_server_addr := a\<rparr>)))"

definition set_key :: "cli_options \<Rightarrow> lan_play \<Rightarrow> lan_play res" where
  "set_key op lp =
     (case opt_relay_password op of
        None \<Rightarrow> Inr lp
      | Some pw \<Rightarrow>
          rbind (SHA1Update SHA1Init (bytes_of pw) (length pw)) (\<lambda>ctx.
          rbind (SHA1Final ctx) (\<lambda>digest.
          Inr (lp\<lparr>lp_key := digest\<rparr>))))"

definition socks5_server :: "world \<Rightarrow> cli_options \<Rightarrow> slp_addr_in option option" where
  "socks5_server w op =
     (case opt_socks5_server_addr op of
        None \<Rightarrow> Some None
      | Some s \<Rightarrow> map_option Some (parse_addr (w_getaddrinfo w) s))"

text \<open>\<open>RETURN_ERR\<close>: a message cut to the buffer \<open>last_err\<close> of 256 bytes.\<close>

definition return_err :: "string \<Rightarrow> program \<Rightarrow> program" where
  "return_err msg pg = pg\<lparr>pg_last_err := take 255 msg\<rparr>"

definition the_default :: "'a \<Rightarrow> 'a option \<Rightarrow> 'a" where
  "the_default d x = (case x of None \<Rightarrow> d | Some y \<Rightarrow> y)"

text \<open>The last part of \<open>lan_play_init\<close>: the gateway and its event sources.\<close>

definition init_gateway :: "world \<Rightarrow> program \<Rightarrow> (int \<times> program) res" where
  "init_gateway w pg =
     (case socks5_server w (pg_options pg) of
        None \<Rightarrow> Inr (-1, return_err (''Failed to parse and get ip address. --socks5-server-addr: '' @
                  the_default [] (opt_socks5_server_addr (pg_options pg))) pg)
      | Some proxy_server \<Rightarrow>
          if w_rc w Uvl_init \<noteq> 0 then Inl Assert_failed
          else Inr (0, pg\<lparr>pg_lp := (pg_lp pg)\<lparr>lp_gateway := gateway_init (opt_fake_internet (pg_options pg)) proxy_server\<rparr>,
                 pg_loop := uv_start H_lwip_timer (uv_start H_proxy_gc (pg_loop pg))\<rparr>))"

definition init_pcap :: "world \<Rightarrow> string option \<Rightarrow> program \<Rightarrow> program res" where
  "init_pcap w netif pg =
     rbind (uv_pcap_init (w_devices w) netif) (\<lambda>(pcap, filters).
     Inr (pg\<lparr>pg_lp := (pg_lp pg)\<lparr>lp_pcap := pcap\<rparr>, pg_filters := filters,
             pg_loop := poll_handles pcap (pg_loop pg)\<rparr>))"

definition lan_play_init :: "world \<Rightarrow> program \<Rightarrow> (int \<times> program) res" where
  "lan_play_init w pg =
     (let op = pg_options pg;
          lp0 = (pg_lp pg)\<lparr>lp_broadcast := opt_broadcast op, lp_pmtu := opt_pmtu op\<rparr> in
      case set_relay w op lp0 of
        None \<Rightarrow> Inr (-1, return_err (''Failed to parse and get ip address. --relay-server-addr: '' @
                  the_default [] (opt_relay_server_addr op)) (pg\<lparr>pg_lp := lp0\<rparr>))
      | Some lp1 \<Rightarrow>
          rbind (set_key op (lp1\<lparr>lp_username := map_option bytes_of (opt_relay_username op)\<rparr>)) (\<lambda>lp2.
          rbind (init_pcap w (opt_netif op) (pg\<lparr>pg_lp := lp2\<rparr>)) (\<lambda>pg1.
          rbind (str2ip SERVER_IP) (\<lambda>ip.
          rbind (str2ip SUBNET_NET) (\<lambda>subnet_net.
          rbind (str2ip SUBNET_MASK) (\<lambda>subnet_mask.
          let lp3 = pg_lp pg1;
              pg2 = pg1\<lparr>pg_lp := lp3\<lparr>lp_packet_ctx :=
                packet_init (pc_buffer (lp_packet_ctx lp3)) BUFFER_SIZE ip subnet_net subnet_mask 30\<rparr>\<rparr> in
          rbind (if opt_relay_server_addr op \<noteq> None then lan_client_init w pg2 else Inr (0, pg2)) (\<lambda>(ret, pg3).
          if ret \<noteq> 0 then Inr (ret, pg3) else init_gateway w pg3)))))))"

definition lan_play_close :: "world \<Rightarrow> program \<Rightarrow> int \<times> program" where
  "lan_play_close w pg =
     (let pcap = lp_pcap (pg_lp pg);
          pg1 = pg\<lparr>pg_lp := (pg_lp pg)\<lparr>lp_pcap := uv_pcap_close pcap\<rparr>,
                   pg_loop := fold (\<lambda>i. uv_stop (H_poll i)) [0..<length (interfaces pcap)] (pg_loop pg)\<rparr>;
          (ret, pg2) = (if opt_relay_server_addr (pg_options pg) \<noteq> None then lan_client_close w pg1 else (0, pg1)) in
      if ret \<noteq> 0 then (ret, pg2)
      else (0, pg2\<lparr>pg_loop := uv_close H_lwip_timer (pg_loop pg2)\<rparr>))"

text \<open>\<open>uv_walk\<close> with \<open>walk_cb\<close>, which closes what is not closing.\<close>

definition walk_close :: "uv_loop \<Rightarrow> uv_loop" where
  "walk_close l = (\<lambda>h. case l h of None \<Rightarrow> None | Some _ \<Rightarrow> Some Closing)"

definition lan_play_signal_cb :: "world \<Rightarrow> program \<Rightarrow> program" where
  "lan_play_signal_cb w pg =
     (let (_, pg1) = lan_play_close w pg;
          l = uv_close H_signal (if w_rc w Signal_stop = 0 then uv_stop H_signal (pg_loop pg1) else pg_loop pg1)
      in pg1\<lparr>pg_loop := walk_close l\<rparr>)"

section \<open>The program\<close>

text \<open>What becomes of a call of \<open>main\<close>: it returns, it enters the event loop of the client, or it
  enters the remote control with an address, a token and a protocol.\<close>

datatype outcome = Exit int | Run program | Rpc string "string option" "string option"

text \<open>\<open>scanf("%100s")\<close>.\<close>

definition scan_word :: "string \<Rightarrow> string" where
  "scan_word s = take 100 (takeWhile (\<lambda>c. \<not> is_space c) (dropWhile is_space s))"

definition old_main :: "world \<Rightarrow> program \<Rightarrow> outcome res" where
  "old_main w pg =
     (let op = pg_options pg in
      if opt_version op \<noteq> 0 then Inr (Exit 0)
      else if opt_list_if op then (case w_devices w of None \<Rightarrow> Inl Exited | Some _ \<Rightarrow> Inr (Exit 0))
      else
        let addr = (case opt_relay_server_addr op of Some s \<Rightarrow> s | None \<Rightarrow> scan_word (w_stdin w));
            pg1 = pg\<lparr>pg_options := op\<lparr>opt_relay_server_addr := Some addr\<rparr>\<rparr> in
        case parse_addr (w_getaddrinfo w) addr of
          None \<Rightarrow> Inr (Exit (-1))
        | Some a \<Rightarrow>
            if w_rc w Signal_init \<noteq> 0 \<or> w_rc w Signal_start \<noteq> 0 then Inl Assert_failed
            else
              rbind (lan_play_init w (pg1\<lparr>pg_lp := (pg_lp pg1)\<lparr>lp_server_addr := a\<rparr>,
                                         pg_loop := uv_start H_signal (pg_loop pg1)\<rparr>)) (\<lambda>(ret, pg2).
              if ret \<noteq> 0 then Inl Assert_failed else Inr (Run pg2)))"

definition main_c :: "world \<Rightarrow> string list \<Rightarrow> program \<Rightarrow> outcome res" where
  "main_c w argv pg =
     (let (ret, op) = parse_arguments argv (pg_options pg); pg1 = pg\<lparr>pg_options := op\<rparr> in
      if ret \<noteq> 0 then Inr (Exit 1)
      else if opt_help op \<noteq> 0 then Inr (Exit 0)
      else case opt_rpc op of
             Some addr \<Rightarrow> Inr (Rpc addr (opt_rpc_token op) (opt_rpc_protocol op))
           | None \<Rightarrow> old_main w pg1)"

text \<open>The zeroed static state a process starts with. The gateway is allocated by the initialisation.\<close>

definition boot_lan_play :: lan_play where
  "boot_lan_play =
     \<lparr>lp_packet_ctx = \<lparr>pc_buffer = replicate BUFFER_SIZE 0, pc_buffer_len = 0, pc_ip = IP4 0 0 0 0,
        pc_subnet_net = IP4 0 0 0 0, pc_subnet_mask = IP4 0 0 0 0, pc_mac = NONE_MAC, pc_identification = 0,
        pc_arp_list = replicate ARP_CACHE_LEN \<lparr>ai_ip = NONE_IP, ai_mac = NONE_MAC, ai_expire_at = 0\<rparr>,
        pc_arp_ttl = 0, pc_upload_byte = 0, pc_download_byte = 0, pc_upload_packet = 0, pc_download_packet = 0\<rparr>,
      lp_pcap = \<lparr>if_map = Map.empty, interfaces = [], pcap_log = []\<rparr>,
      lp_client_buf = replicate CLIENT_RECV_BUF_LEN 0, lp_pmtu = 0, lp_broadcast = False,
      lp_next_real_broadcast = False, lp_frag_id = 0, lp_local_id = 0,
      lp_server_addr = Addr_v4 \<lparr>sin_addr = IP4 0 0 0 0, sin_port = 0\<rparr>,
      lp_frags = replicate LC_FRAG_COUNT empty_frag, lp_username = None,
      lp_key = replicate LP_KEY_LEN 0, lp_gateway = gateway_init False None,
      lp_upload_byte = 0, lp_download_byte = 0, lp_upload_packet = 0, lp_download_packet = 0,
      lp_udp_log = []\<rparr>"

definition boot :: program where
  "boot = \<lparr>pg_lp = boot_lan_play, pg_loop = Map.empty, pg_options = default_options, pg_filters = [], pg_bound = None,
     pg_last_err = []\<rparr>"

section \<open>A started client\<close>

lemma network_addresses:
  "str2ip SERVER_IP = Inr (IP4 10 13 37 1)" "str2ip SUBNET_NET = Inr (IP4 10 13 0 0)"
  "str2ip SUBNET_MASK = Inr (IP4 255 255 0 0)"
  by (simp_all add: str2ip_def SERVER_IP_def SUBNET_NET_def SUBNET_MASK_def scan_int_def is_digit_def is_space_def
      digits_val_def numeral_nat(2-3) Let_def)

lemma client_init_ok:
  assumes "lan_client_init w pg = Inr (0, pg')"
  shows "lp_pmtu (pg_lp pg) = 0 \<or> MIN_FRAG_PAYLOAD_LEN \<le> lp_pmtu (pg_lp pg)"
    and "pg_lp pg' = (pg_lp pg)\<lparr>lp_frag_id := 0, lp_local_id := 0, lp_next_real_broadcast := True,
      lp_frags := replicate LC_FRAG_COUNT empty_frag, lp_upload_byte := 0, lp_download_byte := 0,
      lp_upload_packet := 0, lp_download_packet := 0\<rparr>"
    and "pg_options pg' = pg_options pg" and "pg_filters pg' = pg_filters pg"
    and "h \<in> {H_client, H_keepalive, H_broadcast} \<Longrightarrow> pg_loop pg' h = Some Active"
    and "h \<notin> {H_client, H_keepalive, H_broadcast} \<Longrightarrow> pg_loop pg' h = pg_loop pg h"
  using assms
  by (auto simp: lan_client_init_def Let_def uv_start_def uv_init_def split: if_splits)

lemma init_gateway_ok:
  assumes "init_gateway w pg = Inr (0, pg')"
  shows "\<exists>proxy_server. socks5_server w (pg_options pg) = Some proxy_server \<and>
    pg_lp pg' = (pg_lp pg)\<lparr>lp_gateway := gateway_init (opt_fake_internet (pg_options pg)) proxy_server\<rparr>"
    and "pg_options pg' = pg_options pg" and "pg_filters pg' = pg_filters pg"
    and "pg_loop pg' = uv_start H_lwip_timer (uv_start H_proxy_gc (pg_loop pg))"
  using assms by (auto simp: init_gateway_def split: option.splits if_splits)

lemma init_pcap_ok:
  assumes "init_pcap w netif pg = Inr pg'"
  shows "\<exists>pcap. uv_pcap_init (w_devices w) netif = Inr (pcap, pg_filters pg') \<and> pg_lp pg' = (pg_lp pg)\<lparr>lp_pcap := pcap\<rparr>"
    and "pg_options pg' = pg_options pg"
    and "pg_loop pg' = poll_handles (lp_pcap (pg_lp pg')) (pg_loop pg)"
  using assms by (auto simp: init_pcap_def rbind_eq_Inr)

lemma fold_polls:
  "fold (\<lambda>i. uv_start (H_poll i)) [0..<n] l h = (if h \<in> H_poll ` {..<n} then Some Active else l h)"
  "fold (\<lambda>i. uv_stop (H_poll i)) [0..<n] l h =
     (if h \<in> H_poll ` {..<n} \<and> l h = Some Active then Some Idle else l h)"
  by (induction n) (auto simp: uv_start_def uv_stop_def less_Suc_eq)

lemma pcap_init_inv: "uv_pcap_init devs netif = Inr (p, fs) \<Longrightarrow> pcap_inv p"
  by (auto simp: uv_pcap_init_def rbind_eq_Inr pcap_inv_def Let_def split: option.splits if_splits)

lemma set_key_ok:
  assumes "set_key op lp = Inr lp'" and "\<And>pw. opt_relay_password op = Some pw \<Longrightarrow> length pw < 2 ^ 32"
  shows "lp' = lp\<lparr>lp_key := (case opt_relay_password op of None \<Rightarrow> lp_key lp | Some pw \<Rightarrow> sha1 (bytes_of pw))\<rparr>"
proof (cases "opt_relay_password op")
  case None
  with assms(1) show ?thesis by (simp add: set_key_def)
next
  case (Some pw)
  obtain c where c: "SHA1Update SHA1Init (bytes_of pw) (length pw) = Inr c" "absorbed c (bytes_of pw)"
    using SHA1Update_absorbed [OF absorbed_init, of "length pw" "bytes_of pw"] assms(2) [OF Some] by (auto simp: bytes_of_def)
  have "SHA1Final c = Inr (sha1 (bytes_of pw))"
    using SHA1Final_eq [OF c(2)] assms(2) [OF Some] by (simp add: bytes_of_def)
  with c(1) Some assms(1) show ?thesis by (simp add: set_key_def)
qed

text \<open>The state after a successful initialisation with a relay.\<close>

definition started_lp :: "cli_options \<Rightarrow> slp_addr_in \<Rightarrow> uv_pcap \<Rightarrow> slp_addr_in option \<Rightarrow> lan_play \<Rightarrow> lan_play" where
  "started_lp op a pcap proxy_server lp =
     lp\<lparr>lp_broadcast := opt_broadcast op, lp_pmtu := opt_pmtu op, lp_server_addr := a,
        lp_username := map_option bytes_of (opt_relay_username op),
        lp_key := (case opt_relay_password op of None \<Rightarrow> lp_key lp | Some pw \<Rightarrow> sha1 (bytes_of pw)),
        lp_pcap := pcap,
        lp_packet_ctx := packet_init (pc_buffer (lp_packet_ctx lp)) BUFFER_SIZE
          (IP4 10 13 37 1) (IP4 10 13 0 0) (IP4 255 255 0 0) 30,
        lp_frag_id := 0, lp_local_id := 0, lp_next_real_broadcast := True,
        lp_frags := replicate LC_FRAG_COUNT empty_frag, lp_upload_byte := 0, lp_download_byte := 0,
        lp_upload_packet := 0, lp_download_packet := 0,
        lp_gateway := gateway_init (opt_fake_internet op) proxy_server\<rparr>"

text \<open>What a successful initialisation has done.\<close>

definition started :: "world \<Rightarrow> lan_play \<Rightarrow> program \<Rightarrow> bool" where
  "started w lp pg \<longleftrightarrow>
     (let op = pg_options pg in
      (\<exists>addr a pcap proxy_server.
         opt_relay_server_addr op = Some addr \<and> parse_addr (w_getaddrinfo w) addr = Some a \<and>
         uv_pcap_init (w_devices w) (opt_netif op) = Inr (pcap, pg_filters pg) \<and>
         socks5_server w op = Some proxy_server \<and>
         pg_lp pg = started_lp op a pcap proxy_server lp) \<and>
      (opt_pmtu op = 0 \<or> MIN_FRAG_PAYLOAD_LEN \<le> opt_pmtu op) \<and>
      (\<forall>h \<in> {H_client, H_keepalive, H_broadcast, H_lwip_timer, H_proxy_gc}. pg_loop pg h = Some Active))"

text \<open>The handles of a running client.\<close>

definition running_handles :: "nat \<Rightarrow> uv_handle set" where
  "running_handles n = {H_client, H_keepalive, H_broadcast, H_lwip_timer, H_proxy_gc} \<union> H_poll ` {..<n}"

lemma lan_play_init_ok:
  assumes init: "lan_play_init w pg = Inr (0, pg')" and relay: "opt_relay_server_addr (pg_options pg) = Some addr"
    and pw: "\<And>pw. opt_relay_password (pg_options pg) = Some pw \<Longrightarrow> length pw < 2 ^ 32"
  shows "started w (pg_lp pg) pg'" and "pg_options pg' = pg_options pg"
    and "pg_loop pg' h = (if h \<in> running_handles (length (interfaces (lp_pcap (pg_lp pg')))) then Some Active else pg_loop pg h)"
proof -
  define op where "op = pg_options pg"
  obtain a lp2 pg1 pg3 where a: "parse_addr (w_getaddrinfo w) addr = Some a"
    and lp2: "set_key op ((pg_lp pg)\<lparr>lp_broadcast := opt_broadcast op, lp_pmtu := opt_pmtu op, lp_server_addr := a,
      lp_username := map_option bytes_of (opt_relay_username op)\<rparr>) = Inr lp2"
    and pg1: "init_pcap w (opt_netif op) (pg\<lparr>pg_lp := lp2\<rparr>) = Inr pg1"
    and pg3: "lan_client_init w (pg1\<lparr>pg_lp := (pg_lp pg1)\<lparr>lp_packet_ctx :=
      packet_init (pc_buffer (lp_packet_ctx (pg_lp pg1))) BUFFER_SIZE (IP4 10 13 37 1) (IP4 10 13 0 0) (IP4 255 255 0 0) 30\<rparr>\<rparr>) = Inr (0, pg3)"
    and gw: "init_gateway w pg3 = Inr (0, pg')"
    using init relay unfolding lan_play_init_def set_relay_def Let_def op_def
    by (auto simp: network_addresses rbind_eq_Inr split: option.splits if_splits)
  note k = set_key_ok [OF lp2 pw [folded op_def]] and p = init_pcap_ok [OF pg1] and c = client_init_ok [OF pg3]
    and g = init_gateway_ok [OF gw]
  obtain pcap where pcap: "uv_pcap_init (w_devices w) (opt_netif op) = Inr (pcap, pg_filters pg1)"
    "pg_lp pg1 = lp2\<lparr>lp_pcap := pcap\<rparr>" using p(1) by auto
  obtain s where s: "socks5_server w (pg_options pg3) = Some s"
    "pg_lp pg' = (pg_lp pg3)\<lparr>lp_gateway := gateway_init (opt_fake_internet (pg_options pg3)) s\<rparr>"
    using g(1) by blast
  have opt: "pg_options pg3 = op" "pg_options pg' = op" using p(2) c(3) g(2) by (simp_all add: op_def)
  have "pg_lp pg' = started_lp op a pcap s (pg_lp pg)"
    using pcap(2) s(2) opt c(2) k by (simp add: started_lp_def cong: option.case_cong)
  moreover have "opt_pmtu op = 0 \<or> MIN_FRAG_PAYLOAD_LEN \<le> opt_pmtu op" using c(1) pcap(2) k by simp
  moreover have "\<forall>h \<in> {H_client, H_keepalive, H_broadcast, H_lwip_timer, H_proxy_gc}. pg_loop pg' h = Some Active"
    using c(5) g(4) by (auto simp: uv_start_def)
  moreover have "pg_filters pg' = pg_filters pg1" using c(4) g(3) by simp
  ultimately show "started w (pg_lp pg) pg'"
    using a pcap(1) s(1) opt relay by (auto simp: started_def op_def)
  show "pg_options pg' = pg_options pg" using opt by (simp add: op_def)
  have "lp_pcap (pg_lp pg') = pcap" "lp_pcap (pg_lp pg1) = pcap" using pcap(2) s(2) c(2) by simp_all
  then show "pg_loop pg' h = (if h \<in> running_handles (length (interfaces (lp_pcap (pg_lp pg')))) then Some Active else pg_loop pg h)"
    using c(5,6) [of h] g(4) p(3)
    by (auto simp: uv_start_def running_handles_def poll_handles_def fold_polls)
qed

lemma started_lp_inv:
  assumes "pcap_inv pcap" and "length (pc_buffer (lp_packet_ctx lp)) = BUFFER_SIZE"
    and "length (lp_client_buf lp) = CLIENT_RECV_BUF_LEN" and "length (lp_key lp) = LP_KEY_LEN"
    and "\<And>u. opt_relay_username op = Some u \<Longrightarrow> length u < 65516"
  shows "main_inv 0 (started_lp op a pcap proxy_server lp)"
  using assms
  by (auto simp: main_inv_def relay_inv_def lp_inv_def started_lp_def packet_init_def gateway_init_def arp_list_init_def
      empty_frag_def LP_KEY_LEN_def bytes_of_def split: option.split)

text \<open>A run of \<open>main\<close> that enters the event loop of the client.\<close>

lemma started_server: "started w (lp\<lparr>lp_server_addr := a\<rparr>) pg = started w lp pg"
proof -
  have "started_lp op b pcap s (lp\<lparr>lp_server_addr := a\<rparr>) = started_lp op b pcap s lp" for op b pcap s
    by (simp add: started_lp_def cong: option.case_cong)
  then show ?thesis by (simp add: started_def)
qed

lemma main_runs:
  assumes run: "main_c w argv boot = Inr (Run pg)"
    and pw: "\<And>pw. opt_relay_password (snd (parse_arguments argv default_options)) = Some pw \<Longrightarrow> length pw < 2 ^ 32"
  shows "started w boot_lan_play pg"
    and "\<exists>op addr. parse_arguments argv default_options = (0, op) \<and> wants_client op \<and>
      pg_options pg = op\<lparr>opt_relay_server_addr := Some addr\<rparr> \<and>
      addr = (case opt_relay_server_addr op of Some s \<Rightarrow> s | None \<Rightarrow> scan_word (w_stdin w))"
    and "pg_loop pg h = (if h \<in> insert H_signal (running_handles (length (interfaces (lp_pcap (pg_lp pg))))) then Some Active else None)"
proof -
  obtain op where op: "parse_arguments argv default_options = (0, op)" "wants_client op"
      and old: "old_main w (boot\<lparr>pg_options := op\<rparr>) = Inr (Run pg)"
    using run by (auto simp: main_c_def boot_def wants_client_def old_main_def Let_def
        split: prod.splits if_splits option.splits)
  define addr where "addr = (case opt_relay_server_addr op of Some s \<Rightarrow> s | None \<Rightarrow> scan_word (w_stdin w))"
  define pg0 where "pg0 a = boot\<lparr>pg_options := op\<lparr>opt_relay_server_addr := Some addr\<rparr>,
      pg_lp := boot_lan_play\<lparr>lp_server_addr := a\<rparr>, pg_loop := uv_start H_signal Map.empty\<rparr>" for a
  obtain a where init: "lan_play_init w (pg0 a) = Inr (0, pg)"
    using old op(2) unfolding old_main_def Let_def addr_def pg0_def
    by (auto simp: wants_client_def boot_def rbind_eq_Inr split: option.splits if_splits)
  have relay: "opt_relay_server_addr (pg_options (pg0 a)) = Some addr" by (simp add: pg0_def)
  have "\<And>pw. opt_relay_password (pg_options (pg0 a)) = Some pw \<Longrightarrow> length pw < 2 ^ 32"
    using pw op(1) by (simp add: pg0_def)
  note st = lan_play_init_ok [OF init relay this]
  show "started w boot_lan_play pg" using st(1) by (simp add: pg0_def started_server)
  show "\<exists>op addr. parse_arguments argv default_options = (0, op) \<and> wants_client op \<and>
      pg_options pg = op\<lparr>opt_relay_server_addr := Some addr\<rparr> \<and>
      addr = (case opt_relay_server_addr op of Some s \<Rightarrow> s | None \<Rightarrow> scan_word (w_stdin w))"
    using op st(2) by (auto simp: pg0_def addr_def)
  show "pg_loop pg h = (if h \<in> insert H_signal (running_handles (length (interfaces (lp_pcap (pg_lp pg))))) then Some Active else None)"
    using st(3) [of h] by (auto simp: pg0_def uv_start_def)
qed

text \<open>Arguments short enough to be held in a process image.\<close>

definition args_fit :: "string list \<Rightarrow> bool" where
  "args_fit argv \<longleftrightarrow> (\<forall>s \<in> set argv. length s < 65516)"

lemma last_value_given:
  assumes "settings args = Some ss" and "last_value k ss = Some v"
  shows "v \<in> set args"
proof -
  have "settings args = Some ss \<Longrightarrow> (a, Some b) \<in> set ss \<Longrightarrow> b \<in> set args" for a b
    by (induction args arbitrary: ss rule: settings.induct)
      (auto split: opt_kind.splits list.splits, blast+)
  moreover obtain a where "(a, Some v) \<in> set ss"
    using assms(2) last_setting_in [of "[k]" ss] by (auto simp: last_value_def bind_eq_Some_conv)
  ultimately show ?thesis using assms(1) by blast
qed

lemma parsed_strings_fit:
  assumes "args_fit argv" and "parse_arguments argv default_options = (0, op)"
  shows "opt_relay_username op = Some u \<Longrightarrow> length u < 65516"
    and "opt_relay_password op = Some pw \<Longrightarrow> length pw < 65516"
proof -
  obtain prog args where argv: "argv = prog # args"
    using assms(2) by (cases argv) (simp_all add: parse_arguments_def)
  from assms(2) [unfolded argv] obtain ss op1 where ss: "settings args = Some ss"
      "op1 = fold apply_setting ss default_options"
    and op: "op = (if wants_client op1 \<and> opt_relay_server_addr op1 = None \<and> opt_socks5_server_addr op1 \<noteq> None
      then op1\<lparr>opt_relay_server_addr := Some ''127.0.0.1:11451''\<rparr> else op1)"
    by (rule parse_arguments_ok)
  note f = fold_settings_fields(2,3) [OF ss(1)]
  show "opt_relay_username op = Some u \<Longrightarrow> length u < 65516" "opt_relay_password op = Some pw \<Longrightarrow> length pw < 65516"
    using assms(1) argv op ss(2) f last_value_given [OF ss(1)] by (auto simp: args_fit_def split: if_splits)
qed

lemma main_inv_started:
  assumes "started w boot_lan_play pg"
    and "\<And>u. opt_relay_username (pg_options pg) = Some u \<Longrightarrow> length u < 65516"
  shows "main_inv 0 (pg_lp pg)"
proof -
  obtain a pcap s where "pg_lp pg = started_lp (pg_options pg) a pcap s boot_lan_play"
      "uv_pcap_init (w_devices w) (opt_netif (pg_options pg)) = Inr (pcap, pg_filters pg)"
    using assms(1) by (auto simp: started_def Let_def)
  with started_lp_inv [OF pcap_init_inv, of _ _ pcap _ boot_lan_play] assms(2) show ?thesis
    by (auto simp: boot_lan_play_def)
qed

lemma main_runs_fit:
  assumes "main_c w argv boot = Inr (Run pg)" and "args_fit argv"
  shows "started w boot_lan_play pg"
    and "\<exists>op addr. parse_arguments argv default_options = (0, op) \<and> wants_client op \<and>
      pg_options pg = op\<lparr>opt_relay_server_addr := Some addr\<rparr> \<and>
      addr = (case opt_relay_server_addr op of Some s \<Rightarrow> s | None \<Rightarrow> scan_word (w_stdin w))"
    and "pg_loop pg h = (if h \<in> insert H_signal (running_handles (length (interfaces (lp_pcap (pg_lp pg))))) then Some Active else None)"
    and "main_inv 0 (pg_lp pg)"
proof -
  obtain op where op: "parse_arguments argv default_options = (0, op)"
    using assms(1) by (auto simp: main_c_def boot_def split: prod.splits if_splits)
  note fit = parsed_strings_fit [OF assms(2) op]
  have "\<And>pw. opt_relay_password (snd (parse_arguments argv default_options)) = Some pw \<Longrightarrow> length pw < 2 ^ 32"
    using fit(2) op by fastforce
  note runs = main_runs [OF assms(1) this]
  have "opt_relay_username (pg_options pg) = opt_relay_username op" using runs(2) op by auto
  with main_inv_started [OF runs(1)] fit(1) show "main_inv 0 (pg_lp pg)" by simp
  show "started w boot_lan_play pg" by (rule runs(1))
  show "\<exists>op addr. parse_arguments argv default_options = (0, op) \<and> wants_client op \<and>
      pg_options pg = op\<lparr>opt_relay_server_addr := Some addr\<rparr> \<and>
      addr = (case opt_relay_server_addr op of Some s \<Rightarrow> s | None \<Rightarrow> scan_word (w_stdin w))"
    by (rule runs(2))
  show "pg_loop pg h = (if h \<in> insert H_signal (running_handles (length (interfaces (lp_pcap (pg_lp pg))))) then Some Active else None)"
    by (rule runs(3))
qed


text \<open>C26: What a started client is. When \<open>main\<close> enters the event loop, the relay address of the command
  line, or the word typed by the user, resolves to the server of the client; the network is
  10.13.0.0/16 with the client at 10.13.37.1; the key is the SHA-1 of the password; the path limit is
  off or at least 500, so that no packet of an Ethernet frame needs more than three fragments; the
  devices and the proxy are those the options select, and every event source is active.\<close>

theorem client_started:
  assumes "main_c w argv boot = Inr (Run pg)" and "args_fit argv"
  shows "\<exists>op addr. parse_arguments argv default_options = (0, op) \<and> wants_client op \<and>
    addr = (case opt_relay_server_addr op of Some s \<Rightarrow> s | None \<Rightarrow> scan_word (w_stdin w)) \<and>
    parse_addr (w_getaddrinfo w) addr = Some (lp_server_addr (pg_lp pg)) \<and>
    pc_ip (lp_packet_ctx (pg_lp pg)) = IP4 10 13 37 1 \<and> pc_subnet_net (lp_packet_ctx (pg_lp pg)) = IP4 10 13 0 0 \<and>
    pc_subnet_mask (lp_packet_ctx (pg_lp pg)) = IP4 255 255 0 0 \<and>
    lp_username (pg_lp pg) = map_option bytes_of (opt_relay_username op) \<and>
    lp_key (pg_lp pg) = (case opt_relay_password op of None \<Rightarrow> replicate 20 0 | Some pw \<Rightarrow> sha1 (bytes_of pw)) \<and>
    lp_pmtu (pg_lp pg) = opt_pmtu op \<and>
    (opt_pmtu op = 0 \<or> 500 \<le> opt_pmtu op \<and> (\<forall>len. len \<le> 1500 \<longrightarrow> len \<le> 3 * opt_pmtu op)) \<and>
    uv_pcap_init (w_devices w) (opt_netif op) = Inr (lp_pcap (pg_lp pg), pg_filters pg) \<and>
    (\<exists>s. socks5_server w op = Some s \<and> lp_gateway (pg_lp pg) = gateway_init (opt_fake_internet op) s) \<and>
    (\<forall>h. pg_loop pg h = Some Active \<longleftrightarrow> h \<in> insert H_signal (running_handles (length (interfaces (lp_pcap (pg_lp pg))))))"
proof -
  note runs = main_runs_fit [OF assms]
  obtain op addr where op: "parse_arguments argv default_options = (0, op)" "wants_client op"
      "pg_options pg = op\<lparr>opt_relay_server_addr := Some addr\<rparr>"
      "addr = (case opt_relay_server_addr op of Some s \<Rightarrow> s | None \<Rightarrow> scan_word (w_stdin w))"
    using runs(2) by blast
  obtain a pcap s where st: "parse_addr (w_getaddrinfo w) addr = Some a"
      "uv_pcap_init (w_devices w) (opt_netif op) = Inr (pcap, pg_filters pg)" "socks5_server w op = Some s"
      "pg_lp pg = started_lp (pg_options pg) a pcap s boot_lan_play" "opt_pmtu op = 0 \<or> 500 \<le> opt_pmtu op"
    using runs(1) op(3) by (auto simp: started_def socks5_server_def MIN_FRAG_PAYLOAD_LEN_def)
  have lp: "lp_server_addr (pg_lp pg) = a" "lp_pcap (pg_lp pg) = pcap" "lp_pmtu (pg_lp pg) = opt_pmtu op"
      "lp_username (pg_lp pg) = map_option bytes_of (opt_relay_username op)"
      "lp_key (pg_lp pg) = (case opt_relay_password op of None \<Rightarrow> replicate 20 0 | Some pw \<Rightarrow> sha1 (bytes_of pw))"
      "lp_gateway (pg_lp pg) = gateway_init (opt_fake_internet op) s"
      "pc_ip (lp_packet_ctx (pg_lp pg)) = IP4 10 13 37 1" "pc_subnet_net (lp_packet_ctx (pg_lp pg)) = IP4 10 13 0 0"
      "pc_subnet_mask (lp_packet_ctx (pg_lp pg)) = IP4 255 255 0 0"
    using st(4) op(3) by (simp_all add: started_lp_def boot_lan_play_def packet_init_def LP_KEY_LEN_def cong: option.case_cong)
  from op st lp runs(3) show ?thesis
    by (intro exI [of _ op] exI [of _ addr]) auto
qed


section \<open>A concrete run\<close>

definition example_world :: world where
  "example_world =
     \<lparr>w_getaddrinfo = (\<lambda>_ _. Some (Res_v4 (IP4 192 0 2 1))), w_devices = Some example_devices, w_stdin = [],
      w_rc = (\<lambda>_. 0)\<rparr>"

definition example_argv :: "string list" where
  "example_argv = [''lan-play'', ''--relay-server-addr'', ''relay:11451'', ''--pmtu'', ''1000'']"

lemma example_parse_addr: "\<exists>a. parse_addr (\<lambda>_ _. Some (Res_v4 ip)) ''relay:11451'' = Some a"
  by (simp add: parse_addr_def parse_ip_port_def strtol10_def scan_int_def is_space_def is_digit_def digits_val_def)

lemma example_pcap: "\<exists>p fs. uv_pcap_init (Some example_devices) None = Inr (p, fs)"
proof -
  have "\<forall>d \<in> set example_devices. readable d" by (simp add: example_devices_def example_device_ok)
  from open_all_eq [OF this, of 0] show ?thesis
    by (simp add: uv_pcap_init_def netif_loop_None) (simp add: example_devices_def)
qed

lemma example_main: "\<exists>pg. main_c example_world example_argv boot = Inr (Run pg)" and example_args_fit: "args_fit example_argv"
proof -
  obtain a where a: "parse_addr (\<lambda>_ _. Some (Res_v4 (IP4 192 0 2 1))) ''relay:11451'' = Some a"
    using example_parse_addr by blast
  obtain p fs where p: "uv_pcap_init (Some example_devices) None = Inr (p, fs)" using example_pcap by blast
  have args: "parse_arguments example_argv default_options =
      (0, default_options\<lparr>opt_relay_server_addr := Some ''relay:11451'', opt_pmtu := 1000\<rparr>)"
    by (simp add: example_argv_def parse_arguments_def opt_kind_of_def example_atoi credentials_ok_def default_options_def)
  show "\<exists>pg. main_c example_world example_argv boot = Inr (Run pg)"
    using a p
    by (simp add: main_c_def args [unfolded default_options_def] boot_def old_main_def example_world_def lan_play_init_def set_relay_def set_key_def
        init_pcap_def network_addresses lan_client_init_def init_gateway_def socks5_server_def MIN_FRAG_PAYLOAD_LEN_def
        default_options_def Let_def)
  show "args_fit example_argv" by (simp add: args_fit_def example_argv_def)
qed


theorem client_started_witness:
  "\<exists>pg. main_c example_world example_argv boot = Inr (Run pg) \<and>
     pc_ip (lp_packet_ctx (pg_lp pg)) = IP4 10 13 37 1 \<and> pg_loop pg H_keepalive = Some Active"
proof -
  obtain pg where pg: "main_c example_world example_argv boot = Inr (Run pg)" using example_main by blast
  from client_started [OF pg example_args_fit] pg show ?thesis by (auto simp: running_handles_def)
qed


end
