(* ===== verification/Read_Line.thy ===== *)
theory Read_Line
  imports Prelude
begin

text \<open>
  The buffers of the remote control: \<open>ReadLine\<close>, which cuts the bytes of a connection into lines
  (\<open>rpc/read-line.hpp\<close>), and \<open>BufferList\<close>, the queue of received segments from which the websocket
  decoder reads (\<open>rpc/buffer-list.hpp\<close>). The callback of \<open>ReadLine\<close> is a step on the state of its
  owner.
\<close>

section \<open>Lines\<close>

abbreviation LF :: char where "LF \<equiv> CHR 0x0A"
abbreviation CR :: char where "CR \<equiv> CHR 0x0D"

text \<open>The test \<open>line[len - 1] == '\r'\<close> reads outside an empty line.\<close>

definition strip_cr :: "string \<Rightarrow> string res" where
  "strip_cr line =
     (if line = [] then Inl Out_of_bounds
      else if last line = CR then Inr (butlast line) else Inr line)"

text \<open>The line before the first newline and what follows the newline.\<close>

definition cut_line :: "string \<Rightarrow> (string \<times> string) option" where
  "cut_line buffer =
     (let line = takeWhile (\<lambda>c. c \<noteq> LF) buffer in
      if length line = length buffer then None else Some (line, drop (length line + 1) buffer))"

lemma cut_line_length: "cut_line buffer = Some (line, rest) \<Longrightarrow> length rest < length buffer"
  using length_takeWhile_le [of "\<lambda>c. c \<noteq> LF" buffer]
  by (cases buffer) (auto simp: cut_line_def Let_def split: if_splits)

function feed_loop :: "(string \<Rightarrow> 's \<Rightarrow> 's res) \<Rightarrow> string \<Rightarrow> 's \<Rightarrow> (string \<times> 's) res" where
  "feed_loop cb buffer st =
     (case cut_line buffer of
        None \<Rightarrow> Inr (buffer, st)
      | Some (line, rest) \<Rightarrow>
          rbind (strip_cr line) (\<lambda>l.
          rbind (cb l st) (\<lambda>st'. feed_loop cb rest st')))"
  by auto
termination
  by (relation "measure (\<lambda>(cb, buffer, st). length buffer)") (auto dest: cut_line_length)

declare feed_loop.simps [simp del]

definition feed :: "(string \<Rightarrow> 's \<Rightarrow> 's res) \<Rightarrow> string \<Rightarrow> string \<times> 's \<Rightarrow> (string \<times> 's) res" where
  "feed cb data bst = feed_loop cb (fst bst @ data) (snd bst)"

section \<open>Segments\<close>

text \<open>A segment is the list of its received bytes, so \<open>sizeList\<close> is the list of their lengths.\<close>

record buffer_list =
  bl_list :: "bytes list"
  bl_totalSize :: nat
  bl_offset :: nat

definition bl_empty :: buffer_list where
  "bl_empty = \<lparr>bl_list = [], bl_totalSize = 0, bl_offset = 0\<rparr>"

definition bl_size :: "buffer_list \<Rightarrow> nat" where
  "bl_size b = bl_totalSize b - bl_offset b"

definition bl_add :: "bytes \<Rightarrow> buffer_list \<Rightarrow> buffer_list" where
  "bl_add buf b = b\<lparr>bl_list := bl_list b @ [buf], bl_totalSize := bl_totalSize b + length buf\<rparr>"

text \<open>The search of \<open>get\<close>, which throws when no segment is left.\<close>

fun bl_get_loop :: "bytes list \<Rightarrow> nat \<Rightarrow> nat \<Rightarrow> u8 res" where
  "bl_get_loop [] left actId = Inl Uncaught_exception"
| "bl_get_loop (seg # segs) left actId =
     (if left + length seg \<ge> actId then rd seg (actId - left)
      else bl_get_loop segs (left + length seg) actId)"

definition bl_get :: "buffer_list \<Rightarrow> nat \<Rightarrow> u8 res" where
  "bl_get b k = bl_get_loop (bl_list b) 0 (k + bl_offset b)"

text \<open>The loop of \<open>advance\<close> reads \<open>sizeList[0]\<close> in every turn, also of an empty list.\<close>

fun bl_advance_loop :: "bytes list \<Rightarrow> nat \<Rightarrow> nat \<Rightarrow> buffer_list res" where
  "bl_advance_loop [] tot off = Inl Out_of_bounds"
| "bl_advance_loop (seg # segs) tot off =
     (if off \<ge> length seg then bl_advance_loop segs (tot - length seg) (off - length seg)
      else Inr \<lparr>bl_list = seg # segs, bl_totalSize = tot, bl_offset = off\<rparr>)"

definition bl_advance :: "nat \<Rightarrow> buffer_list \<Rightarrow> buffer_list res" where
  "bl_advance n b = bl_advance_loop (bl_list b) (bl_totalSize b) (bl_offset b + n)"

fun bl_copyTo :: "buffer_list \<Rightarrow> nat \<Rightarrow> nat \<Rightarrow> bytes res" where
  "bl_copyTo b beg 0 = Inr []"
| "bl_copyTo b beg (Suc n) =
     rbind (bl_get b beg) (\<lambda>x. rbind (bl_copyTo b (beg + 1) n) (\<lambda>xs. Inr (x # xs)))"

section \<open>Lines do not depend on the segments\<close>

lemma cut_line_None: "cut_line b = None \<longleftrightarrow> LF \<notin> set b"
proof -
  have "length (takeWhile (\<lambda>c. c \<noteq> LF) b) = length b \<longleftrightarrow> takeWhile (\<lambda>c. c \<noteq> LF) b = b"
    by (metis takeWhile_eq_take take_all_iff order_refl)
  then show ?thesis by (auto simp: cut_line_def Let_def takeWhile_eq_all_conv)
qed

lemma cut_line_Some: "cut_line b = Some (line, rest) \<longleftrightarrow> b = line @ LF # rest \<and> LF \<notin> set line"
proof
  assume "b = line @ LF # rest \<and> LF \<notin> set line"
  then have "takeWhile (\<lambda>c. c \<noteq> LF) b = line" by (auto simp: takeWhile_ne)
  then show "cut_line b = Some (line, rest)"
    using \<open>b = line @ LF # rest \<and> LF \<notin> set line\<close> by (simp add: cut_line_def)
next
  assume *: "cut_line b = Some (line, rest)"
  then have line: "line = takeWhile (\<lambda>c. c \<noteq> LF) b" and "LF \<in> set b"
    using cut_line_None [of b] by (auto simp: cut_line_def Let_def split: if_splits)
  then obtain xs ys where "b = xs @ LF # ys" "LF \<notin> set xs" using split_list_first [of LF b] by blast
  moreover from this have "takeWhile (\<lambda>c. c \<noteq> LF) b = xs" by (auto simp: takeWhile_ne)
  ultimately show "b = line @ LF # rest \<and> LF \<notin> set line"
    using * line by (simp add: cut_line_def Let_def split: if_splits)
qed

lemma feed_loop_split:
  "feed_loop cb (a @ b) st = rbind (feed_loop cb a st) (\<lambda>(buf, st'). feed_loop cb (buf @ b) st')"
proof (induction cb a st rule: feed_loop.induct)
  case (1 cb a st)
  show ?case
  proof (cases "cut_line a")
    case None
    then show ?thesis by (simp add: feed_loop.simps [of cb a])
  next
    case (Some p)
    obtain line rest where p: "p = (line, rest)" by fastforce
    have ab: "cut_line (a @ b) = Some (line, rest @ b)" using Some p by (simp add: cut_line_Some)
    show ?thesis
    proof (cases "strip_cr line")
      case (Inl e)
      then show ?thesis using Some p ab by (simp add: feed_loop.simps [of cb])
    next
      case (Inr l)
      then show ?thesis
        using Some p ab "1.IH" [OF Some p [symmetric] Inr]
        by (cases "cb l st") (simp_all add: feed_loop.simps [of cb a] feed_loop.simps [of cb "a @ b"])
    qed
  qed
qed

lemma feed_append:
  "feed cb (a @ b) bst = rbind (feed cb a bst) (feed cb b)"
  using feed_loop_split [of cb "fst bst @ a" b "snd bst"]
  by (simp add: feed_def case_prod_beta' cong: rbind_cong)

fun feeds :: "(string \<Rightarrow> 's \<Rightarrow> 's res) \<Rightarrow> string list \<Rightarrow> string \<times> 's \<Rightarrow> (string \<times> 's) res" where
  "feeds cb [] bst = Inr bst"
| "feeds cb (d # ds) bst = rbind (feed cb d bst) (feeds cb ds)"

fun run_lines :: "(string \<Rightarrow> 's \<Rightarrow> 's res) \<Rightarrow> string list \<Rightarrow> 's \<Rightarrow> 's res" where
  "run_lines cb [] st = Inr st"
| "run_lines cb (l # ls) st = rbind (cb l st) (run_lines cb ls)"

lemma feed_done: "LF \<notin> set buf \<Longrightarrow> feed_loop cb buf st = Inr (buf, st)"
  by (simp add: feed_loop.simps [of cb buf] cut_line_None [THEN iffD2])

lemma feed_loop_line: "LF \<notin> set l \<Longrightarrow> feed_loop cb (l @ CR # LF # r) st = rbind (cb l st) (feed_loop cb r)"
proof -
  assume l: "LF \<notin> set l"
  have "cut_line ((l @ [CR]) @ LF # r) = Some (l @ [CR], r)" using l by (simp only: cut_line_Some) simp
  then show ?thesis by (simp add: feed_loop.simps [of cb "l @ CR # LF # r"] strip_cr_def cong: rbind_cong)
qed

lemma feed_loop_lines:
  assumes "\<forall>l \<in> set ls. LF \<notin> set l"
  shows "feed_loop cb (concat (map (\<lambda>l. l @ [CR, LF]) ls) @ r) st = rbind (run_lines cb ls st) (feed_loop cb r)"
  using assms
proof (induction ls arbitrary: st)
  case (Cons l ls)
  then show ?case by (cases "cb l st") (simp_all add: feed_loop_line)
qed simp

lemma feed_loop_rest: "feed_loop cb b st = Inr (buf', st') \<Longrightarrow> LF \<notin> set buf'"
proof (induction cb b st rule: feed_loop.induct)
  case (1 cb b st)
  show ?case
  proof (cases "cut_line b")
    case None
    with "1.prems" feed_loop.simps [of cb b st] cut_line_None [of b] show ?thesis by simp
  next
    case (Some p)
    with "1.prems" feed_loop.simps [of cb b st] obtain l st1 where
      "strip_cr (fst p) = Inr l" "cb l st = Inr st1" "feed_loop cb (snd p) st1 = Inr (buf', st')"
      by (auto simp: rbind_eq_Inr case_prod_beta)
    with "1.IH" [OF Some] show ?thesis by (metis prod.collapse)
  qed
qed

lemma feeds_concat: "LF \<notin> set buf \<Longrightarrow> feeds cb ds (buf, st) = feed cb (concat ds) (buf, st)"
proof (induction ds arbitrary: buf st)
  case Nil
  then show ?case by (simp add: feed_def feed_done)
next
  case (Cons d ds)
  have keep: "feed cb d (buf, st) = Inr (buf', st') \<Longrightarrow> LF \<notin> set buf'" for buf' st'
    using feed_loop_rest [of cb "buf @ d" st] by (simp add: feed_def)
  show ?case
  proof (cases "feed cb d (buf, st)")
    case (Inl e)
    then show ?thesis by (simp add: feed_append)
  next
    case (Inr p)
    then show ?thesis using keep Cons.IH by (cases p) (simp add: feed_append)
  qed
qed



lemma bare_newline_faults: "feed cb (LF # r) ([], st) = Inl Out_of_bounds"
proof -
  have "cut_line (LF # r) = Some ([], r)" by (simp add: cut_line_Some)
  then show ?thesis by (simp add: feed_def feed_loop.simps [of cb "LF # r"] strip_cr_def)
qed

section \<open>The segments as one text\<close>

definition bl_text :: "buffer_list \<Rightarrow> bytes" where
  "bl_text b = drop (bl_offset b) (concat (bl_list b))"

definition bl_ok :: "buffer_list \<Rightarrow> bool" where
  "bl_ok b \<longleftrightarrow> bl_totalSize b = length (concat (bl_list b)) \<and> bl_offset b \<le> bl_totalSize b"

lemma bl_ok_empty: "bl_ok bl_empty" "bl_text bl_empty = []"
  by (simp_all add: bl_ok_def bl_text_def bl_empty_def)

lemma bl_size_text: "bl_ok b \<Longrightarrow> bl_size b = length (bl_text b)"
  by (simp add: bl_ok_def bl_size_def bl_text_def)

lemma bl_add_ok: "bl_ok b \<Longrightarrow> bl_ok (bl_add d b)" "bl_ok b \<Longrightarrow> bl_text (bl_add d b) = bl_text b @ d"
  by (simp_all add: bl_ok_def bl_add_def bl_text_def)

lemma bl_advance_loop_ok:
  "off < length (concat segs) \<Longrightarrow> tot = length (concat segs) \<Longrightarrow>
     \<exists>b. bl_advance_loop segs tot off = Inr b \<and> bl_ok b \<and> bl_text b = drop off (concat segs)"
proof (induction segs arbitrary: tot off)
  case (Cons seg segs)
  show ?case
  proof (cases "length seg \<le> off")
    case True
    then have "off - length seg < length (concat segs)" using Cons.prems(1) by auto
    from Cons.IH [OF this refl] Cons.prems(2) True show ?thesis by simp
  next
    case False
    then show ?thesis using Cons.prems by (simp add: bl_ok_def bl_text_def)
  qed
qed simp

lemma bl_advance_ok:
  assumes "bl_ok b" and "n < bl_size b"
  shows "\<exists>b'. bl_advance n b = Inr b' \<and> bl_ok b' \<and> bl_text b' = drop n (bl_text b)"
  using assms bl_advance_loop_ok [of "bl_offset b + n" "bl_list b" "bl_totalSize b"]
  by (auto simp: bl_advance_def bl_ok_def bl_size_def bl_text_def add.commute)

text \<open>A read inside the first segment is right.\<close>

lemma bl_get_first:
  assumes "bl_list b = seg # segs" and "bl_offset b + k < length seg"
  shows "bl_get b k = Inr (bl_text b ! k)"
proof -
  have "bl_text b ! k = (seg @ concat segs) ! (bl_offset b + k)"
    unfolding bl_text_def assms(1) using assms(2) by (subst nth_drop) simp_all
  then show ?thesis using assms by (simp add: bl_get_def rd_def nth_append add.commute)
qed

lemma bl_copyTo_first:
  assumes "bl_list b = seg # segs" and "bl_offset b + k + n \<le> length seg"
  shows "bl_copyTo b k n = Inr (take n (drop k (bl_text b)))"
  using assms(2)
proof (induction n arbitrary: k)
  case (Suc n)
  have "k < length (bl_text b)" using assms(1) Suc.prems by (auto simp: bl_text_def)
  then have "drop k (bl_text b) = bl_text b ! k # drop (Suc k) (bl_text b)" by (simp add: Cons_nth_drop_Suc)
  with Suc.IH [of "k + 1"] Suc.prems bl_get_first [OF assms(1), of k] show ?case by simp
qed simp

text \<open>The two boundary errors of the segment queue. The first byte of a segment that follows another
  is read behind the end of the one before it, and consuming all received bytes reads the size of the
  first segment of an empty list. So a frame header that is cut by a segment boundary, and every frame
  that ends where the received bytes end, is an access out of bounds.\<close>

theorem buffer_list_boundary_faults:
  assumes "bl_ok b"
  shows "bl_get (bl_add d (bl_add seg bl_empty)) (length seg) = Inl Out_of_bounds \<and>
    bl_advance (bl_size b) b = Inl Out_of_bounds"
proof -
  have "bl_advance_loop segs tot (length (concat segs)) = Inl Out_of_bounds" for segs tot
    by (induction segs arbitrary: tot) simp_all
  then show ?thesis
    using assms by (simp add: bl_get_def bl_add_def bl_empty_def rd_def bl_advance_def bl_size_def bl_ok_def)
qed

theorem buffer_list_boundary_faults_witness:
  "bl_ok (bl_add [1] bl_empty) \<and> bl_get (bl_add [2] (bl_add [1] bl_empty)) 1 = Inl Out_of_bounds \<and>
   bl_advance 1 (bl_add [1] bl_empty) = Inl Out_of_bounds"
proof -
  have ok: "bl_ok (bl_add [1] bl_empty)" by (simp add: bl_add_ok bl_ok_empty)
  have "bl_size (bl_add [1] bl_empty) = 1" by (simp add: bl_size_def bl_add_def bl_empty_def)
  with buffer_list_boundary_faults [OF ok, of "[2]" "[1]"] ok show ?thesis by simp
qed

end
