(* ===== verification/Rpc_Server.thy ===== *)
theory Rpc_Server
  imports Lifecycle Read_Line
begin

text \<open>
  The commands of the remote control (\<open>rpc/rpc-server.cpp\<close>, \<open>rpc/lan-play.cpp\<close>): the class \<open>LanPlay\<close>
  that starts and stops the client with a configuration, and \<open>RPCServerSession::onMessage\<close>, which
  answers a message of the form \<open>key\<close> or \<open>key=value\<close> with lines of TOML. The version string and
  the wall clock are parameters.
\<close>

section \<open>Text\<close>

text \<open>Replacing every occurrence of a non-empty text, from left to right.\<close>

function stringReplace :: "string \<Rightarrow> string \<Rightarrow> string \<Rightarrow> string" where
  "stringReplace str src dst =
     (if src \<noteq> [] \<and> take (length src) str = src then dst @ stringReplace (drop (length src) str) src dst
      else case str of [] \<Rightarrow> [] | c # cs \<Rightarrow> c # stringReplace cs src dst)"
  by auto
termination
proof (relation "measure (\<lambda>(str, src, dst). length str)")
  fix str src dst :: string
  assume "src \<noteq> [] \<and> take (length src) str = src"
  then have "str \<noteq> []" "0 < length src" by auto
  then show "((drop (length src) str, src, dst), str, src, dst) \<in> measure (\<lambda>(str, src, dst). length str)"
    by simp
qed auto

declare stringReplace.simps [simp del]

abbreviation DQ :: char where "DQ \<equiv> CHR 0x22"
abbreviation BS :: char where "BS \<equiv> CHR 0x5C"

definition escape :: "string \<Rightarrow> string" where
  "escape value = [DQ] @ stringReplace value [DQ] [BS, DQ] @ [DQ]"

definition to_string :: "int \<Rightarrow> string" where
  "to_string v = (if v < 0 then CHR ''-'' # dec (nat (- v)) else dec (nat v))"

definition kv_str :: "string \<Rightarrow> string \<Rightarrow> string" where
  "kv_str key value = key @ ''='' @ escape value @ [LF]"

definition kv_int :: "string \<Rightarrow> int \<Rightarrow> string" where
  "kv_int key value = key @ ''='' @ to_string value @ [LF]"

definition kv_bool :: "string \<Rightarrow> bool \<Rightarrow> string" where
  "kv_bool key value = (if value then key @ ''=true'' @ [LF] else key @ ''=false'' @ [LF])"

definition kv_u64 :: "string \<Rightarrow> u64 \<Rightarrow> string" where
  "kv_u64 key value = key @ ''='' @ to_string (uint value) @ [LF]"

definition rpc_error :: "string \<Rightarrow> string" where
  "rpc_error value = kv_str ''error'' value"

section \<open>Numbers in any base\<close>

text \<open>\<open>std::stoi(value, nullptr, 0)\<close>: the base follows from the prefix as for \<open>strtol\<close>. It throws one
  exception when there is no number and another when the number is not an \<open>int\<close>.\<close>

definition digit_of :: "char \<Rightarrow> nat" where
  "digit_of c =
     (let n = (of_char c :: nat) in
      if 48 \<le> n \<and> n \<le> 57 then n - 48
      else if 97 \<le> n \<and> n \<le> 122 then n - 87
      else if 65 \<le> n \<and> n \<le> 90 then n - 55
      else 99)"

definition digits_base :: "nat \<Rightarrow> string \<Rightarrow> int" where
  "digits_base b ds = foldl (\<lambda>v c. int b * v + int (digit_of c)) 0 ds"

definition number_base :: "string \<Rightarrow> nat \<times> string" where
  "number_base s =
     (case s of
        [] \<Rightarrow> (10, [])
      | c # r \<Rightarrow>
          if c \<noteq> CHR ''0'' then (10, s)
          else case r of
                 x # d # _ \<Rightarrow> if (x = CHR ''x'' \<or> x = CHR ''X'') \<and> digit_of d < 16 then (16, tl r) else (8, s)
               | _ \<Rightarrow> (8, s))"

datatype stoi_result = Stoi int | Invalid_argument | Out_of_range

definition stoi0 :: "string \<Rightarrow> stoi_result" where
  "stoi0 value =
     (let s1 = dropWhile is_space (takeWhile (\<lambda>c. c \<noteq> CHR 0x00) value);
          (neg, s2) = (case s1 of
              c # r \<Rightarrow> if c = CHR ''-'' then (True, r) else if c = CHR ''+'' then (False, r) else (False, s1)
            | [] \<Rightarrow> (False, []));
          (b, s3) = number_base s2;
          ds = takeWhile (\<lambda>c. digit_of c < b) s3;
          v = (if neg then - digits_base b ds else digits_base b ds)
      in if ds = [] then Invalid_argument
         else if v < - (2 ^ 31) \<or> 2 ^ 31 \<le> v then Out_of_range
         else Stoi v)"

section \<open>The class LanPlay\<close>

datatype lan_play_status = LP_None | LP_Running

record lan_play_config =
  cf_relayServer :: string
  cf_socks5Server :: string
  cf_fakeInternet :: bool
  cf_broadcast :: bool
  cf_pmtu :: int

definition new_config :: lan_play_config where
  "new_config = \<lparr>cf_relayServer = [], cf_socks5Server = [], cf_fakeInternet = False, cf_broadcast = False, cf_pmtu = 0\<rparr>"

record stats_item =
  st_uploadByte :: u64
  st_uploadPacket :: u64
  st_downloadByte :: u64
  st_downloadPacket :: u64

record lan_play_stats =
  ls_client :: stats_item
  ls_packet :: stats_item
  ls_time :: u64

text \<open>\<open>lc_heap_relay\<close> and \<open>lc_heap_socks5\<close> tell whether the addresses in the options were allocated by
  the setters; those of the command line were not.\<close>

record lan_play_class =
  lc_lastError :: string
  lc_program :: program
  lc_lastConfig :: lan_play_config
  lc_status :: lan_play_status
  lc_config :: lan_play_config
  lc_heap_relay :: bool
  lc_heap_socks5 :: bool

record rpc_env =
  re_world :: world
  re_version :: string
  re_now :: u64
  re_errbuf :: string

definition new_LanPlay :: "program \<Rightarrow> lan_play_class" where
  "new_LanPlay pg =
     \<lparr>lc_lastError = [], lc_program = pg, lc_lastConfig = new_config, lc_status = LP_None, lc_config = new_config,
      lc_heap_relay = False, lc_heap_socks5 = False\<rparr>"

definition c_str :: "string \<Rightarrow> string" where
  "c_str s = takeWhile (\<lambda>c. c \<noteq> CHR 0x00) s"

definition applyConfig :: "lan_play_class \<Rightarrow> lan_play_class res" where
  "applyConfig lc =
     (let c = lc_config lc; op = pg_options (lc_program lc) in
      rbind (options_set (lc_heap_relay lc) (opt_relay_server_addr op) (c_str (cf_relayServer c))) (\<lambda>relay.
      rbind (options_set (lc_heap_socks5 lc) (opt_socks5_server_addr op) (c_str (cf_socks5Server c))) (\<lambda>socks5.
      Inr (lc\<lparr>lc_program := (lc_program lc)\<lparr>pg_options := op\<lparr>opt_broadcast := cf_broadcast c,
             opt_fake_internet := cf_fakeInternet c, opt_pmtu := cf_pmtu c,
             opt_relay_server_addr := relay, opt_socks5_server_addr := socks5\<rparr>\<rparr>,
           lc_heap_relay := True, lc_heap_socks5 := True, lc_lastConfig := c\<rparr>))))"

definition LanPlay_start :: "rpc_env \<Rightarrow> lan_play_class \<Rightarrow> (int \<times> lan_play_class) res" where
  "LanPlay_start R lc =
     (if lc_status lc = LP_Running then Inr (-1, lc\<lparr>lc_lastError := ''Already running''\<rparr>)
      else
        rbind (applyConfig lc) (\<lambda>lc1.
        rbind (lan_play_init (re_world R) (lc_program lc1)) (\<lambda>(ret, pg).
        let lc2 = lc1\<lparr>lc_program := pg\<rparr> in
        Inr (ret, if ret = 0 then lc2\<lparr>lc_status := LP_Running\<rparr> else lc2\<lparr>lc_lastError := pg_last_err pg\<rparr>))))"

definition LanPlay_stop :: "rpc_env \<Rightarrow> lan_play_class \<Rightarrow> int \<times> lan_play_class" where
  "LanPlay_stop R lc =
     (if lc_status lc = LP_None then (-1, lc\<lparr>lc_lastError := ''Already stopped''\<rparr>)
      else
        let (ret, pg) = lan_play_close (re_world R) (lc_program lc); lc1 = lc\<lparr>lc_program := pg\<rparr> in
        (ret, if ret = 0 then lc1\<lparr>lc_status := LP_None\<rparr> else lc1\<lparr>lc_lastError := pg_last_err pg\<rparr>))"

text \<open>Name, description and IPv4 addresses of each device.\<close>

definition getNetInterfaces ::
  "rpc_env \<Rightarrow> lan_play_class \<Rightarrow> ((string \<times> string \<times> string list) list option) \<times> lan_play_class" where
  "getNetInterfaces R lc =
     (case w_devices (re_world R) of
        None \<Rightarrow> (None, lc\<lparr>lc_lastError := re_errbuf R\<rparr>)
      | Some ds \<Rightarrow>
          (Some (map (\<lambda>d. (pif_name d,
                   (case pif_description d of Some t \<Rightarrow> t | None \<Rightarrow> []),
                   map ip_text (List.map_filter (\<lambda>a. a) (pif_addresses d)))) ds), lc))"

definition getStats :: "rpc_env \<Rightarrow> lan_play_class \<Rightarrow> lan_play_stats option \<times> lan_play_class" where
  "getStats R lc =
     (if lc_status lc = LP_None then (None, lc\<lparr>lc_lastError := ''Not running''\<rparr>)
      else
        let lp = pg_lp (lc_program lc); c = lp_packet_ctx lp in
        (Some \<lparr>ls_client = \<lparr>st_uploadByte = lp_upload_byte lp, st_uploadPacket = lp_upload_packet lp,
                  st_downloadByte = lp_download_byte lp, st_downloadPacket = lp_download_packet lp\<rparr>,
               ls_packet = \<lparr>st_uploadByte = pc_upload_byte c, st_uploadPacket = pc_upload_packet c,
                  st_downloadByte = pc_download_byte c, st_downloadPacket = pc_download_packet c\<rparr>,
               ls_time = re_now R\<rparr>, lc))"

section \<open>Replies\<close>

definition getConfig :: "string \<Rightarrow> lan_play_config \<Rightarrow> string" where
  "getConfig prefix c =
     ''['' @ prefix @ '']'' @ [LF] @
     kv_str ''relayServer'' (cf_relayServer c) @ kv_str ''socks5Server'' (cf_socks5Server c) @
     kv_int ''pmtu'' (cf_pmtu c) @ kv_bool ''fakeInternet'' (cf_fakeInternet c) @
     kv_bool ''broadcast'' (cf_broadcast c)"

definition stats_text :: "stats_item \<Rightarrow> string" where
  "stats_text s =
     kv_u64 ''downloadByte'' (st_downloadByte s) @ kv_u64 ''downloadPacket'' (st_downloadPacket s) @
     kv_u64 ''uploadByte'' (st_uploadByte s) @ kv_u64 ''uploadPacket'' (st_uploadPacket s)"

definition getStats_text :: "lan_play_stats \<Rightarrow> string" where
  "getStats_text s =
     ''[stats]'' @ [LF] @ kv_u64 ''time'' (ls_time s) @
     ''[stats.client]'' @ [LF] @ stats_text (ls_client s) @
     ''[stats.packet]'' @ [LF] @ stats_text (ls_packet s)"

definition interface_text :: "string \<times> string \<times> string list \<Rightarrow> string" where
  "interface_text = (\<lambda>(name, description, ips).
     ''[[interfaces]]'' @ [LF] @ kv_str ''name'' name @ kv_str ''description'' description @ ''ips=['' @ [LF] @
     concat (map (\<lambda>ip. ''  '' @ escape ip @ '','' @ [LF]) ips) @ '']'' @ [LF])"

text \<open>A message split at its first \<open>=\<close>.\<close>

definition split_message :: "string \<Rightarrow> string \<times> string" where
  "split_message message =
     (let key = takeWhile (\<lambda>c. c \<noteq> CHR ''='') message in (key, drop (length key + 1) message))"

definition set_config :: "(lan_play_config \<Rightarrow> lan_play_config) \<Rightarrow> lan_play_class \<Rightarrow> string \<times> lan_play_class" where
  "set_config f lc = (getConfig ''config'' (f (lc_config lc)), lc\<lparr>lc_config := f (lc_config lc)\<rparr>)"

definition onMessage :: "rpc_env \<Rightarrow> string \<Rightarrow> lan_play_class \<Rightarrow> (string \<times> lan_play_class) res" where
  "onMessage R message lc =
     (let (key, value) = split_message message in
      if key = ''status'' then
        Inr (kv_str ''status'' (case lc_status lc of LP_None \<Rightarrow> ''None'' | LP_Running \<Rightarrow> ''Running''), lc)
      else if key = ''listIf'' then
        Inr (case getNetInterfaces R lc of
               (Some list, lc1) \<Rightarrow> (concat (map interface_text list), lc1)
             | (None, lc1) \<Rightarrow> (rpc_error (lc_lastError lc1), lc1))
      else if key = ''version'' then Inr (kv_str ''version'' (re_version R), lc)
      else if key = ''start'' then
        rbind (LanPlay_start R lc) (\<lambda>(ret, lc1).
        Inr (if ret = 0 then kv_str ''status'' ''Running'' else rpc_error (lc_lastError lc1), lc1))
      else if key = ''stop'' then
        (let (ret, lc1) = LanPlay_stop R lc in
         Inr (if ret = 0 then kv_str ''status'' ''None'' else rpc_error (lc_lastError lc1), lc1))
      else if key = ''config'' then Inr (getConfig ''config'' (lc_config lc), lc)
      else if key = ''lastConfig'' then Inr (getConfig ''lastConfig'' (lc_lastConfig lc), lc)
      else if key = ''relayServer'' then Inr (set_config (cf_relayServer_update (\<lambda>_. value)) lc)
      else if key = ''socks5Server'' then Inr (set_config (cf_socks5Server_update (\<lambda>_. value)) lc)
      else if key = ''fakeInternet'' then Inr (set_config (cf_fakeInternet_update (\<lambda>_. value = ''true'')) lc)
      else if key = ''broadcast'' then Inr (set_config (cf_broadcast_update (\<lambda>_. value = ''true'')) lc)
      else if key = ''pmtu'' then
        (case stoi0 value of
           Stoi v \<Rightarrow> Inr (set_config (cf_pmtu_update (\<lambda>_. v)) lc)
         | Invalid_argument \<Rightarrow> Inr (rpc_error ''stoi'', lc)
         | Out_of_range \<Rightarrow> Inl Uncaught_exception)
      else if key = ''stats'' then
        Inr (case getStats R lc of
               (Some stats, lc1) \<Rightarrow> (getStats_text stats, lc1)
             | (None, lc1) \<Rightarrow> (rpc_error (lc_lastError lc1), lc1))
      else Inr (rpc_error (''command not found: '' @ key), lc))"

section \<open>What a message can do\<close>

lemma split_message_eq:
  assumes "CHR ''='' \<notin> set key"
  shows "split_message (key @ ''='' @ v) = (key, v)" "split_message key = (key, [])"
proof -
  have k: "takeWhile (\<lambda>c. c \<noteq> CHR ''='') key = key" using assms by auto
  show "split_message (key @ ''='' @ v) = (key, v)" "split_message key = (key, [])"
    using takeWhile_ne [OF assms, of v] by (simp_all add: split_message_def k)
qed

lemma applyConfig_ok:
  assumes "applyConfig lc = Inr lc'"
  shows "lc_lastConfig lc' = lc_config lc" and "lc_status lc' = lc_status lc" and "lc_config lc' = lc_config lc"
    and "opt_pmtu (pg_options (lc_program lc')) = cf_pmtu (lc_config lc)"
    and "opt_broadcast (pg_options (lc_program lc')) = cf_broadcast (lc_config lc)"
    and "opt_fake_internet (pg_options (lc_program lc')) = cf_fakeInternet (lc_config lc)"
    and "opt_relay_server_addr (pg_options (lc_program lc')) =
      (if c_str (cf_relayServer (lc_config lc)) = [] then None else Some (c_str (cf_relayServer (lc_config lc))))"
  using assms by (auto simp: applyConfig_def Let_def rbind_eq_Inr options_set_def split: if_splits)

lemma LanPlay_start_running:
  "lc_status lc = LP_Running \<Longrightarrow> LanPlay_start R lc = Inr (-1, lc\<lparr>lc_lastError := ''Already running''\<rparr>)"
  by (simp add: LanPlay_start_def)

lemma LanPlay_start_stopped:
  assumes "LanPlay_start R lc = Inr (ret, lc')" and "lc_status lc = LP_None"
  shows "\<exists>lc1. applyConfig lc = Inr lc1 \<and> lc_lastConfig lc' = lc_config lc \<and>
      lan_play_init (re_world R) (lc_program lc1) = Inr (ret, lc_program lc') \<and>
      lc_status lc' = (if ret = 0 then LP_Running else LP_None)"
proof -
  obtain lc1 pg where a: "applyConfig lc = Inr lc1" and i: "lan_play_init (re_world R) (lc_program lc1) = Inr (ret, pg)"
    and lc': "lc' = (if ret = 0 then lc1\<lparr>lc_program := pg, lc_status := LP_Running\<rparr>
      else lc1\<lparr>lc_program := pg, lc_lastError := pg_last_err pg\<rparr>)"
    using assms by (auto simp: LanPlay_start_def Let_def rbind_eq_Inr)
  show ?thesis using a i lc' applyConfig_ok(1,2) [OF a] assms(2) by auto
qed

text \<open>C28: Only two messages change the client: \<open>start\<close>, when it is stopped, and \<open>stop\<close>, when it is
  running. A \<open>start\<close> runs the initialisation with the options of the stored configuration and remembers
  that configuration, and the client counts as running exactly when the initialisation succeeds; every
  other message leaves the client and its status as they are.\<close>

theorem rpc_changes_client:
  assumes "onMessage R message lc = Inr (reply, lc')"
  defines "key \<equiv> fst (split_message message)"
  shows "(lc_program lc' = lc_program lc \<and> lc_status lc' = lc_status lc) \<or>
    (key = ''start'' \<and> lc_status lc = LP_None \<and> lc_lastConfig lc' = lc_config lc \<and>
      (\<exists>lc1 ret. applyConfig lc = Inr lc1 \<and> lan_play_init (re_world R) (lc_program lc1) = Inr (ret, lc_program lc') \<and>
        opt_pmtu (pg_options (lc_program lc1)) = cf_pmtu (lc_config lc) \<and>
        (lc_status lc' = LP_Running \<longleftrightarrow> ret = 0))) \<or>
    (key = ''stop'' \<and> lc_status lc = LP_Running \<and>
      (\<exists>ret. lan_play_close (re_world R) (lc_program lc) = (ret, lc_program lc') \<and> (lc_status lc' = LP_None \<longleftrightarrow> ret = 0)))"
proof -
  consider "key = ''start''" | "key = ''stop''" | "key \<noteq> ''start''" "key \<noteq> ''stop''" by blast
  then show ?thesis
  proof cases
    case 1
    then obtain ret where "LanPlay_start R lc = Inr (ret, lc')"
      using assms by (auto simp: onMessage_def rbind_eq_Inr split: prod.splits)
    note st = this
    show ?thesis
    proof (cases "lc_status lc")
      case LP_None
      from LanPlay_start_stopped [OF st this] obtain lc1 where "applyConfig lc = Inr lc1" "lc_lastConfig lc' = lc_config lc"
        "lan_play_init (re_world R) (lc_program lc1) = Inr (ret, lc_program lc')"
        "lc_status lc' = (if ret = 0 then LP_Running else LP_None)" by blast
      with 1 LP_None applyConfig_ok(4) [of lc lc1] show ?thesis by auto
    qed (use st in \<open>auto simp: LanPlay_start_running\<close>)
  next
    case 2
    then have lc': "lc' = snd (LanPlay_stop R lc)"
      using assms by (auto simp: onMessage_def split: prod.splits)
    show ?thesis
      using 2 by (cases "lc_status lc") (auto simp: lc' LanPlay_stop_def Let_def split: prod.splits)
  next
    case 3
    then show ?thesis
      using assms
      by (auto simp: onMessage_def set_config_def getNetInterfaces_def getStats_def Let_def
          split: prod.splits if_splits option.splits stoi_result.splits)
  qed
qed

definition example_rpc :: rpc_env where
  "example_rpc = \<lparr>re_world = example_world, re_version = ''v0.2.0'', re_now = 0, re_errbuf = []\<rparr>"

theorem rpc_changes_client_witness:
  "\<exists>reply lc'. onMessage example_rpc ''relayServer=relay:11451'' (new_LanPlay boot) = Inr (reply, lc') \<and>
     lc_program lc' = boot \<and> lc_status lc' = LP_None"
proof -
  have key: "split_message ''relayServer=relay:11451'' = (''relayServer'', ''relay:11451'')"
    by (simp add: split_message_def)
  obtain reply lc' where m: "onMessage example_rpc ''relayServer=relay:11451'' (new_LanPlay boot) = Inr (reply, lc')"
    by (simp add: onMessage_def key set_config_def)
  from rpc_changes_client [OF m] m key show ?thesis by (auto simp: new_LanPlay_def)
qed

section \<open>Numbers\<close>

lemma dec_hd: "0 < n \<Longrightarrow> hd (dec n) \<noteq> CHR ''0''"
proof (induction n rule: dec.induct)
  case (1 n)
  show ?case
  proof (cases "n < 10")
    case True
    have "char_of (48 + n) \<noteq> CHR ''0''"
    proof
      assume "char_of (48 + n) = CHR ''0''"
      from arg_cong [OF this, of "of_char :: char \<Rightarrow> nat"] True "1.prems" show False by simp
    qed
    then show ?thesis using True by (simp add: dec.simps [of n])
  next
    case False
    then have "hd (dec (n div 10)) \<noteq> CHR ''0''" by (intro "1.IH") simp_all
    then show ?thesis using False dec_digits [of "n div 10"] by (simp add: dec.simps [of n])
  qed
qed

lemma digit_of_digit: "is_digit c \<Longrightarrow> digit_of c = of_char c - 48 \<and> digit_of c < 10"
  by (auto simp: is_digit_def digit_of_def Let_def)

lemma digits_base_10: "\<forall>c \<in> set ds. is_digit c \<Longrightarrow> digits_base 10 ds = digits_val ds"
proof (induction ds rule: rev_induct)
  case (snoc c ds)
  have "int (digit_of c) = of_char c - 48"
    using snoc.prems digit_of_digit [of c] by (simp add: is_digit_def of_nat_diff of_nat_of_char)
  with snoc show ?case by (simp add: digits_base_def digits_val_def)
qed (simp add: digits_base_def digits_val_def)

lemma stoi0_dec: "stoi0 (dec n) = (if n < 2 ^ 31 then Stoi (int n) else Out_of_range)"
proof -
  note d = dec_digits [of n]
  obtain c cs where cd: "dec n = c # cs" using d by (cases "dec n") auto
  have c: "\<not> is_space c" "c \<noteq> CHR ''-''" "c \<noteq> CHR ''+''" using d cd is_digit_chars [of c] by auto
  have nul: "takeWhile (\<lambda>c. c \<noteq> CHR 0x00) (dec n) = dec n"
    using d by (auto simp: takeWhile_eq_all_conv is_digit_def)
  have "\<forall>c \<in> set (dec n). digit_of c < 10" using d digit_of_digit by blast
  then have ds: "takeWhile (\<lambda>c. digit_of c < 10) (dec n) = dec n" by (simp add: takeWhile_eq_all_conv)
  have sp: "dropWhile is_space (dec n) = dec n" using c cd by simp
  have sign: "(case dec n of c # r \<Rightarrow> if c = CHR ''-'' then (True, r) else if c = CHR ''+'' then (False, r) else (False, dec n)
      | [] \<Rightarrow> (False, [])) = (False, dec n)" using c cd by simp
  have val: "digits_base 10 (dec n) = int n" using d digits_base_10 by simp
  show ?thesis
  proof (cases "n = 0")
    case True
    moreover have "dec 0 = ''0''" by code_simp
    moreover have "stoi0 ''0'' = Stoi 0" by code_simp
    ultimately show ?thesis by simp
  next
    case False
    then have "number_base (dec n) = (10, dec n)" using dec_hd [of n] cd by (simp add: number_base_def)
    then show ?thesis using d by (simp add: stoi0_def nul ds sp sign val)
  qed
qed

text \<open>The message \<open>pmtu=n\<close> with a decimal number sets the path limit when the number is below
  \<open>2 ^ 31\<close>; a larger one ends the whole process, since only one of the two exceptions of \<open>std::stoi\<close>
  is caught.\<close>

theorem rpc_pmtu_message:
  "onMessage R (''pmtu='' @ dec n) lc =
     (if n < 2 ^ 31
      then Inr (getConfig ''config'' ((lc_config lc)\<lparr>cf_pmtu := int n\<rparr>), lc\<lparr>lc_config := (lc_config lc)\<lparr>cf_pmtu := int n\<rparr>\<rparr>)
      else Inl Uncaught_exception)"
  using split_message_eq(1) [of "''pmtu''" "dec n"]
  by (simp add: onMessage_def stoi0_dec set_config_def)

end
