(* ===== verification/Rpc_Tcp.thy ===== *)
theory Rpc_Tcp
  imports Rpc_Server
begin

text \<open>
  The line protocol of the remote control (\<open>rpc/rpc-tcp-server.hpp\<close>, \<open>rpc/rpc.cpp\<close>): a connection
  reads lines, the first line that equals the token authorises it, and from then on every line is a
  command. The object \<open>LanPlay\<close> is shared by all connections, so the state of a connection is a step
  on its own part and on that object. What is written to the socket is the list of the texts.
\<close>

section \<open>A connection\<close>

record tcp_conn =
  tc_authed :: bool
  tc_token :: string
  tc_out :: "string list"

definition new_conn :: "string \<Rightarrow> tcp_conn" where
  "new_conn token = \<lparr>tc_authed = False, tc_token = token, tc_out = []\<rparr>"

text \<open>\<open>sendStr\<close> writes nothing for an empty text.\<close>

definition sendStr :: "string \<Rightarrow> tcp_conn \<Rightarrow> tcp_conn" where
  "sendStr str c = (if str = [] then c else c\<lparr>tc_out := tc_out c @ [str]\<rparr>)"

definition AUTH_OK :: string where "AUTH_OK = ''success='' @ [DQ] @ ''authorized'' @ [DQ]"

definition AUTH_FAIL :: string where
  "AUTH_FAIL = ''error='' @ [DQ] @ ''authorized failed: invalid token'' @ [DQ]"

definition END_MARK :: string where "END_MARK = [LF] @ ''# end'' @ [LF]"

text \<open>The callback of \<open>TCPConnection\<close>, run on each line, and the reply it sends.\<close>

definition tcp_line :: "rpc_env \<Rightarrow> string \<Rightarrow> tcp_conn \<times> lan_play_class \<Rightarrow> (tcp_conn \<times> lan_play_class) res" where
  "tcp_line R line = (\<lambda>(c, lc).
     if tc_authed c then
       rbind (onMessage R line lc) (\<lambda>(result, lc').
       Inr (sendStr (result @ END_MARK) c, lc'))
     else if line = tc_token c then
       Inr (sendStr (AUTH_OK @ END_MARK) (c\<lparr>tc_authed := True\<rparr>), lc)
     else Inr (sendStr (AUTH_FAIL @ END_MARK) c, lc))"

text \<open>\<open>onData\<close> of \<open>BaseTCPConnection\<close>.\<close>

definition tcp_onData ::
  "rpc_env \<Rightarrow> string \<Rightarrow> string \<times> tcp_conn \<times> lan_play_class \<Rightarrow> (string \<times> tcp_conn \<times> lan_play_class) res" where
  "tcp_onData R data st = feed (tcp_line R) data st"

fun tcp_segments ::
  "rpc_env \<Rightarrow> string list \<Rightarrow> string \<times> tcp_conn \<times> lan_play_class \<Rightarrow> (string \<times> tcp_conn \<times> lan_play_class) res" where
  "tcp_segments R [] st = Inr st"
| "tcp_segments R (d # ds) st = rbind (tcp_onData R d st) (tcp_segments R ds)"

section \<open>The server\<close>

datatype rpc_transport = Transport_ws | Transport_tcp

text \<open>\<open>rpc_main\<close> up to the loop of the server: the address and port it binds, the transport and the
  token of its connections; none when it returns -1.\<close>

definition rpc_main :: "string \<Rightarrow> string option \<Rightarrow> string option \<Rightarrow> (string \<times> u16 \<times> rpc_transport \<times> string) option" where
  "rpc_main bind_addr token protocol =
     (case parse_ip_port bind_addr 128 of
        None \<Rightarrow> None
      | Some (addr_str, port, is_ipv6) \<Rightarrow>
          let tok = (case token of Some t \<Rightarrow> t | None \<Rightarrow> []) in
          if protocol = None \<or> protocol = Some ''ws'' then Some (addr_str, port, Transport_ws, tok)
          else if protocol = Some ''tcp'' then Some (addr_str, port, Transport_tcp, tok)
          else None)"

section \<open>Authorisation\<close>

lemma tcp_segments_feeds: "tcp_segments R ds st = feeds (tcp_line R) ds st"
  by (induction ds arbitrary: st) (simp_all add: tcp_onData_def cong: rbind_cong)

lemma tcp_line_unauthed:
  "\<not> tc_authed c \<Longrightarrow> line \<noteq> tc_token c \<Longrightarrow>
     tcp_line R line (c, lc) = Inr (c\<lparr>tc_out := tc_out c @ [AUTH_FAIL @ END_MARK]\<rparr>, lc)"
  by (simp add: tcp_line_def sendStr_def AUTH_FAIL_def)

lemma run_lines_unauthed:
  assumes "\<not> tc_authed c" and "tc_token c \<notin> set ls"
  shows "run_lines (tcp_line R) ls (c, lc) =
    Inr (c\<lparr>tc_out := tc_out c @ replicate (length ls) (AUTH_FAIL @ END_MARK)\<rparr>, lc)"
  using assms
proof (induction ls arbitrary: c)
  case (Cons l ls)
  then show ?case
    using Cons.IH [of "c\<lparr>tc_out := tc_out c @ [AUTH_FAIL @ END_MARK]\<rparr>"] by (auto simp: tcp_line_unauthed)
qed simp

lemma run_lines_append: "run_lines cb (a @ b) st = rbind (run_lines cb a st) (run_lines cb b)"
  by (induction a arbitrary: st) (simp_all add: rbind_assoc cong: rbind_cong)

text \<open>The replies to commands, one after the other on the shared object.\<close>

fun commands :: "rpc_env \<Rightarrow> string list \<Rightarrow> lan_play_class \<Rightarrow> (string list \<times> lan_play_class) res" where
  "commands R [] lc = Inr ([], lc)"
| "commands R (m # ms) lc =
     rbind (onMessage R m lc) (\<lambda>(r, lc1). rbind (commands R ms lc1) (\<lambda>(rs, lc2). Inr (r # rs, lc2)))"

lemma run_lines_authed:
  assumes "tc_authed c"
  shows "run_lines (tcp_line R) ls (c, lc) =
    rbind (commands R ls lc) (\<lambda>(rs, lc'). Inr (c\<lparr>tc_out := tc_out c @ map (\<lambda>r. r @ END_MARK) rs\<rparr>, lc'))"
  using assms
proof (induction ls arbitrary: c lc)
  case (Cons l ls)
  show ?case
  proof (cases "onMessage R l lc")
    case (Inr p)
    obtain r lc1 where p: "p = (r, lc1)" by fastforce
    show ?thesis
      using Cons Inr p
      by (cases "commands R ls lc1") (auto simp: tcp_line_def sendStr_def END_MARK_def)
  qed (use Cons.prems in \<open>simp add: tcp_line_def\<close>)
qed simp

text \<open>C27: A connection is authorised by its token and by nothing else. However the client's lines are cut
  into segments, every line before the first that equals the token is answered with the refusal and
  leaves the shared object as it is; the token is answered with the acknowledgement, and only the
  lines after it are run as commands, in order, each answered with its reply and the end mark.\<close>

theorem rpc_requires_token:
  assumes "concat ds = concat (map (\<lambda>l. l @ [CR, LF]) (before @ [token] @ cmds))"
    and "\<forall>l \<in> set (before @ [token] @ cmds). LF \<notin> set l" and "token \<notin> set before"
    and "concat ds' = concat (map (\<lambda>l. l @ [CR, LF]) before)"
  shows "tcp_segments R ds' ([], new_conn token, lc) =
      Inr ([], (new_conn token)\<lparr>tc_out := replicate (length before) (AUTH_FAIL @ END_MARK)\<rparr>, lc) \<and>
    tcp_segments R ds ([], new_conn token, lc) =
      rbind (commands R cmds lc) (\<lambda>(rs, lc').
        Inr ([], \<lparr>tc_authed = True, tc_token = token,
                  tc_out = replicate (length before) (AUTH_FAIL @ END_MARK) @ [AUTH_OK @ END_MARK] @ map (\<lambda>r. r @ END_MARK) rs\<rparr>,
             lc'))"
proof -
  let ?c = "(new_conn token)\<lparr>tc_out := replicate (length before) (AUTH_FAIL @ END_MARK)\<rparr>"
  have unauth: "run_lines (tcp_line R) before (new_conn token, lc) = Inr (?c, lc)"
    using run_lines_unauthed [of "new_conn token" before R lc] assms(3) by (simp add: new_conn_def)
  have lf: "\<forall>l \<in> set before. LF \<notin> set l" using assms(2) by auto
  have lines: "feeds (tcp_line R) ds'' ([], st) = rbind (run_lines (tcp_line R) ls st) (\<lambda>st'. Inr ([], st'))"
    if "concat ds'' = concat (map (\<lambda>l. l @ [CR, LF]) ls)" "\<forall>l \<in> set ls. LF \<notin> set l" for ds'' ls st
    using that feed_loop_lines [of ls "tcp_line R" "[]" st]
    by (simp add: feeds_concat feed_def feed_done cong: rbind_cong)
  have "tcp_line R token (?c, lc) = Inr (\<lparr>tc_authed = True, tc_token = token,
      tc_out = replicate (length before) (AUTH_FAIL @ END_MARK) @ [AUTH_OK @ END_MARK]\<rparr>, lc)"
    by (simp add: tcp_line_def new_conn_def sendStr_def AUTH_OK_def)
  with unauth have "run_lines (tcp_line R) (before @ [token] @ cmds) (new_conn token, lc) =
      rbind (commands R cmds lc) (\<lambda>(rs, lc'). Inr (\<lparr>tc_authed = True, tc_token = token,
        tc_out = replicate (length before) (AUTH_FAIL @ END_MARK) @ [AUTH_OK @ END_MARK] @ map (\<lambda>r. r @ END_MARK) rs\<rparr>, lc'))"
    by (simp add: run_lines_append run_lines_authed cong: rbind_cong)
  with lines [OF assms(1,2)] lines [OF assms(4) lf] unauth show ?thesis
    by (auto simp: tcp_segments_feeds rbind_assoc case_prod_beta cong: rbind_cong)
qed

theorem rpc_requires_token_witness:
  "tcp_segments example_rpc [''stop'' @ [CR, LF]] ([], new_conn ''key'', new_LanPlay boot) =
     Inr ([], \<lparr>tc_authed = False, tc_token = ''key'', tc_out = [AUTH_FAIL @ END_MARK]\<rparr>, new_LanPlay boot)"
  using rpc_requires_token [of "[''stop'' @ [CR, LF] @ ''key'' @ [CR, LF]]" "[''stop'']" "''key''" "[]"
      "[''stop'' @ [CR, LF]]" example_rpc "new_LanPlay boot"]
  by (simp add: new_conn_def)

end
