(* ===== verification/Base64.thy ===== *)
theory Base64
  imports Prelude
begin

text \<open>
  The base64 coding of \<open>rpc/base64.hpp\<close>, which the websocket handshake of the remote control uses.
  The loops collect three bytes, or four characters, in a small array; the array is the list of the
  elements written so far. The encoder is compared with the definition of RFC 4648.
\<close>

section \<open>The coding\<close>

definition base64_chars :: string where
  "base64_chars = ''ABCDEFGHIJKLMNOPQRSTUVWXYZabcdefghijklmnopqrstuvwxyz0123456789+/''"

definition is_base64 :: "char \<Rightarrow> bool" where
  "is_base64 c \<longleftrightarrow>
     (let n = (of_char c :: nat) in
      48 \<le> n \<and> n \<le> 57 \<or> 65 \<le> n \<and> n \<le> 90 \<or> 97 \<le> n \<and> n \<le> 122 \<or> c = CHR ''+'' \<or> c = CHR ''/'')"

text \<open>\<open>char_array_4\<close> from the three bytes of \<open>char_array_3\<close>.\<close>

definition char_array_4 :: "u8 \<Rightarrow> u8 \<Rightarrow> u8 \<Rightarrow> u8 list" where
  "char_array_4 a b c =
     [drop_bit 2 (a AND 0xfc),
      push_bit 4 (a AND 0x03) + drop_bit 4 (b AND 0xf0),
      push_bit 2 (b AND 0x0f) + drop_bit 6 (c AND 0xc0),
      c AND 0x3f]"

definition b64_char :: "u8 \<Rightarrow> char" where
  "b64_char v = base64_chars ! unat v"

fun encode_loop :: "bytes \<Rightarrow> bytes \<Rightarrow> string \<Rightarrow> bytes \<times> string" where
  "encode_loop [] a3 ret = (a3, ret)"
| "encode_loop (b # bs) a3 ret =
     (case a3 @ [b] of
        [x, y, z] \<Rightarrow> encode_loop bs [] (ret @ map b64_char (char_array_4 x y z))
      | a3' \<Rightarrow> encode_loop bs a3' ret)"

text \<open>The last one or two bytes are filled up with zeros.\<close>

definition base64_encode :: "bytes \<Rightarrow> string" where
  "base64_encode bytes_to_encode =
     (let (a3, ret) = encode_loop bytes_to_encode [] []; i = length a3 in
      if a3 = [] then ret
      else
        let p = a3 @ replicate (3 - i) 0 in
        ret @ map b64_char (take (i + 1) (char_array_4 (p ! 0) (p ! 1) (p ! 2))) @ replicate (3 - i) (CHR ''=''))"

definition b64_find :: "char \<Rightarrow> u8" where
  "b64_find c = of_nat (case find_index ((=) c) base64_chars of Some i \<Rightarrow> i | None \<Rightarrow> 255)"

definition char_array_3 :: "u8 \<Rightarrow> u8 \<Rightarrow> u8 \<Rightarrow> u8 \<Rightarrow> bytes" where
  "char_array_3 a b c d =
     [push_bit 2 a + drop_bit 4 (b AND 0x30),
      push_bit 4 (b AND 0xf) + drop_bit 2 (c AND 0x3c),
      push_bit 6 (c AND 0x3) + d]"

fun decode_loop :: "string \<Rightarrow> u8 list \<Rightarrow> bytes \<Rightarrow> u8 list \<times> bytes" where
  "decode_loop [] a4 ret = (a4, ret)"
| "decode_loop (c # cs) a4 ret =
     (if c = CHR ''='' \<or> \<not> is_base64 c then (a4, ret)
      else
        case a4 @ [b64_find c] of
          [w, x, y, z] \<Rightarrow> decode_loop cs [] (ret @ char_array_3 w x y z)
        | a4' \<Rightarrow> decode_loop cs a4' ret)"

text \<open>Of an incomplete group only the bytes that its characters determine are added.\<close>

definition base64_decode :: "string \<Rightarrow> bytes" where
  "base64_decode encoded =
     (let (a4, ret) = decode_loop encoded [] []; i = length a4; p = a4 @ replicate (4 - i) 0 in
      ret @ take (i - 1) (char_array_3 (p ! 0) (p ! 1) (p ! 2) (p ! 3)))"

section \<open>The definition of RFC 4648\<close>

text \<open>24 bits are four characters of 6 bits, the first from the high bits; a last group of 8 or 16
  bits is filled up with zeros to 12 or 18 bits, and the rest are pads.\<close>

definition b64_digit :: "nat \<Rightarrow> char" where
  "b64_digit n = base64_chars ! (n mod 64)"

fun rfc4648 :: "bytes \<Rightarrow> string" where
  "rfc4648 [] = []"
| "rfc4648 [a] =
     (let n = unat a * 2 ^ 4 in [b64_digit (n div 2 ^ 6), b64_digit n, CHR ''='', CHR ''=''])"
| "rfc4648 [a, b] =
     (let n = (unat a * 2 ^ 8 + unat b) * 2 ^ 2 in
      [b64_digit (n div 2 ^ 12), b64_digit (n div 2 ^ 6), b64_digit n, CHR ''=''])"
| "rfc4648 (a # b # c # r) =
     (let n = unat a * 2 ^ 16 + unat b * 2 ^ 8 + unat c in
      [b64_digit (n div 2 ^ 18), b64_digit (n div 2 ^ 12), b64_digit (n div 2 ^ 6), b64_digit n] @ rfc4648 r)"

section \<open>Bits\<close>

lemma sextet_bits:
  fixes a b c :: u8
  shows "drop_bit 2 (a AND 0xfc) = drop_bit 2 a"
    and "drop_bit 4 (b AND 0xf0) = drop_bit 4 b"
    and "drop_bit 6 (c AND 0xc0) = drop_bit 6 c"
    and "a AND 0x03 = take_bit 2 a" and "b AND 0x0f = take_bit 4 b" and "c AND 0x3f = take_bit 6 c"
proof -
  have m: "(0xfc :: u8) = NOT (mask 2)" "(0xf0 :: u8) = NOT (mask 4)" "(0xc0 :: u8) = NOT (mask 6)"
      "(0x03 :: u8) = mask 2" "(0x0f :: u8) = mask 4" "(0x3f :: u8) = mask 6"
    by (simp_all add: mask_eq_exp_minus_1)
  show "drop_bit 2 (a AND 0xfc) = drop_bit 2 a" "drop_bit 4 (b AND 0xf0) = drop_bit 4 b"
    "drop_bit 6 (c AND 0xc0) = drop_bit 6 c"
    unfolding m by (rule bit_word_eqI; auto simp: bit_simps dest: bit_imp_le_length)+
  show "a AND 0x03 = take_bit 2 a" "b AND 0x0f = take_bit 4 b" "c AND 0x3f = take_bit 6 c"
    unfolding m by (simp_all add: take_bit_eq_mask)
qed

lemma unat_take_u8: "unat (take_bit n (x :: u8)) = unat x mod 2 ^ n"
  by (metis unsigned_take_bit_eq take_bit_eq_mod)

lemma unat_drop_u8: "unat (drop_bit n (x :: u8)) = unat x div 2 ^ n"
  by (metis unat_drop_bit_eq drop_bit_eq_div)

lemma unat_push_add_u8:
  fixes x y :: u8
  assumes "unat x * 2 ^ n + unat y < 256"
  shows "unat (push_bit n x + y) = unat x * 2 ^ n + unat y"
proof -
  have "push_bit n x + y = of_nat (unat x * 2 ^ n + unat y)"
    by (simp add: push_bit_eq_mult)
  then show ?thesis using unat_of_nat_u8 [OF assms] by simp
qed

lemma unat_sextets:
  "map unat (char_array_4 a b c) =
     [unat a div 4, unat a mod 4 * 16 + unat b div 16, unat b mod 16 * 4 + unat c div 64, unat c mod 64]"
proof -
  have u: "unat a < 256" "unat b < 256" "unat c < 256" by simp_all
  have m: "unat a mod 4 < 4" "unat b div 16 < 16" "unat b mod 16 < 16" "unat c div 64 < 4"
    using u by (simp_all add: less_mult_imp_div_less)
  have 1: "unat (push_bit 4 (take_bit 2 a) + drop_bit 4 b) = unat a mod 4 * 16 + unat b div 16"
    using m unat_push_add_u8 [of "take_bit 2 a" 4 "drop_bit 4 b"] by (simp add: unat_take_u8 unat_drop_u8)
  have 2: "unat (push_bit 2 (take_bit 4 b) + drop_bit 6 c) = unat b mod 16 * 4 + unat c div 64"
    using m unat_push_add_u8 [of "take_bit 4 b" 2 "drop_bit 6 c"] by (simp add: unat_take_u8 unat_drop_u8)
  show ?thesis
    unfolding char_array_4_def sextet_bits by (simp add: 1 2 unat_take_u8 unat_drop_u8)
qed

text \<open>The four characters of a group, and those of a last group.\<close>

lemma digits_24:
  fixes x y z :: nat
  assumes "x < 256" and "y < 256" and "z < 256"
  defines "n \<equiv> x * 2 ^ 16 + y * 2 ^ 8 + z"
  shows "n div 2 ^ 18 mod 64 = x div 4" "n div 2 ^ 12 mod 64 = x mod 4 * 16 + y div 16"
    "n div 2 ^ 6 mod 64 = y mod 16 * 4 + z div 64" "n mod 64 = z mod 64"
proof -
  obtain p q where x: "x = 4 * p + q" "q < 4" using that [of "x div 4" "x mod 4"] by simp
  obtain r s where y: "y = 16 * r + s" "s < 16" using that [of "y div 16" "y mod 16"] by simp
  obtain t u where z: "z = 64 * t + u" "u < 64" using that [of "z div 64" "z mod 64"] by simp
  have b: "p < 64" "r < 16" "t < 4" using assms(1-3) x y z by auto
  have div: "k * d + v = m \<Longrightarrow> v < d \<Longrightarrow> m div d = k" for k d v m :: nat by auto
  have rest: "k * 64 + v = m \<Longrightarrow> v < 64 \<Longrightarrow> m mod 64 = v" for k v m :: nat by auto
  have d: "x div 4 = p" "x mod 4 = q" "y div 16 = r" "y mod 16 = s" "z div 64 = t" "z mod 64 = u"
    using x y z by auto
  have "n div 2 ^ 18 = p"
    by (rule div [of _ _ "(q * 16 + r) * 2 ^ 12 + (s * 4 + t) * 2 ^ 6 + u"]) (use b x y z in \<open>auto simp: n_def\<close>)
  then show "n div 2 ^ 18 mod 64 = x div 4" using d b by simp
  have "n div 2 ^ 12 = p * 64 + (q * 16 + r)"
    by (rule div [of _ _ "(s * 4 + t) * 2 ^ 6 + u"]) (use b x y z in \<open>auto simp: n_def\<close>)
  then show "n div 2 ^ 12 mod 64 = x mod 4 * 16 + y div 16"
    unfolding d by (intro rest [of p]) (use b x in auto)
  have "n div 2 ^ 6 = (p * 64 + (q * 16 + r)) * 64 + (s * 4 + t)"
    by (rule div [of _ _ u]) (use b x y z in \<open>auto simp: n_def\<close>)
  then show "n div 2 ^ 6 mod 64 = y mod 16 * 4 + z div 64"
    unfolding d by (intro rest [of "p * 64 + (q * 16 + r)"]) (use b y in auto)
  show "n mod 64 = z mod 64"
    unfolding d by (rule rest [of "(p * 64 + (q * 16 + r)) * 64 + (s * 4 + t)"]) (use x y z in \<open>auto simp: n_def\<close>)
qed

lemma b64_char_digit: "unat v mod 64 = n mod 64 \<Longrightarrow> unat v < 64 \<Longrightarrow> b64_char v = b64_digit n"
  by (simp add: b64_char_def b64_digit_def)

lemma map_b64_char: "map b64_char vs = map (\<lambda>n. base64_chars ! n) (map unat vs)"
  by (simp add: b64_char_def)

lemma group_digits:
  fixes a b c :: u8
  defines "n \<equiv> unat a * 2 ^ 16 + unat b * 2 ^ 8 + unat c"
  shows "map b64_char (char_array_4 a b c) =
    [b64_digit (n div 2 ^ 18), b64_digit (n div 2 ^ 12), b64_digit (n div 2 ^ 6), b64_digit n]"
  using digits_24 [of "unat a" "unat b" "unat c", folded n_def]
  unfolding map_b64_char unat_sextets by (simp add: b64_digit_def)

lemma tail_digits:
  fixes a b :: u8
  shows "map b64_char (take 2 (char_array_4 a 0 0)) = [b64_digit (unat a * 2 ^ 4 div 2 ^ 6), b64_digit (unat a * 2 ^ 4)]"
    and "map b64_char (take 3 (char_array_4 a b 0)) =
      (let n = (unat a * 2 ^ 8 + unat b) * 2 ^ 2 in [b64_digit (n div 2 ^ 12), b64_digit (n div 2 ^ 6), b64_digit n])"
proof -
  have "unat a * 2 ^ 16 div 2 ^ 18 = unat a * 2 ^ 4 div 2 ^ 6" "unat a * 2 ^ 16 div 2 ^ 12 = unat a * 2 ^ 4"
    using div_mult_mult2 [of "2 ^ 12" "unat a * 2 ^ 4" "2 ^ 6"] by simp_all
  then show "map b64_char (take 2 (char_array_4 a 0 0)) = [b64_digit (unat a * 2 ^ 4 div 2 ^ 6), b64_digit (unat a * 2 ^ 4)]"
    using group_digits [of a 0 0] by (simp add: take_map [symmetric] mult.commute)
  define n where "n = (unat a * 2 ^ 8 + unat b) * 2 ^ 2"
  have m: "unat a * 2 ^ 16 + unat b * 2 ^ 8 + unat (0 :: u8) = n * 2 ^ 6" by (simp add: n_def)
  have "n * 2 ^ 6 div 2 ^ 18 = n div 2 ^ 12" "n * 2 ^ 6 div 2 ^ 12 = n div 2 ^ 6"
    using div_mult_mult2 [of "2 ^ 6" n "2 ^ 12"] div_mult_mult2 [of "2 ^ 6" n "2 ^ 6"] by simp_all
  then have "map b64_char (take 3 (char_array_4 a b 0)) = [b64_digit (n div 2 ^ 12), b64_digit (n div 2 ^ 6), b64_digit n]"
    using group_digits [of a b 0, unfolded m] by (simp add: take_map [symmetric] numeral_3_eq_3)
  then show "map b64_char (take 3 (char_array_4 a b 0)) =
      (let n = (unat a * 2 ^ 8 + unat b) * 2 ^ 2 in [b64_digit (n div 2 ^ 12), b64_digit (n div 2 ^ 6), b64_digit n])"
    by (simp add: n_def Let_def)
qed

section \<open>The encoder\<close>

definition encode_tail :: "bytes \<times> string \<Rightarrow> string" where
  "encode_tail = (\<lambda>(a3, ret).
     if a3 = [] then ret
     else let p = a3 @ replicate (3 - length a3) 0 in
       ret @ map b64_char (take (length a3 + 1) (char_array_4 (p ! 0) (p ! 1) (p ! 2))) @ replicate (3 - length a3) (CHR ''=''))"

lemma base64_encode_tail: "base64_encode m = encode_tail (encode_loop m [] [])"
  by (simp add: base64_encode_def encode_tail_def case_prod_beta Let_def)

lemma encode_loop_rfc4648: "encode_tail (encode_loop m [] ret) = ret @ rfc4648 m"
proof (induction m arbitrary: ret rule: rfc4648.induct)
  case (2 a)
  then show ?case using tail_digits(1) [of a] by (simp add: encode_tail_def numeral_2_eq_2 Let_def)
next
  case (3 a b)
  then show ?case using tail_digits(2) [of a b] by (simp add: encode_tail_def numeral_3_eq_3 Let_def)
next
  case (4 a b c r)
  then show ?case using group_digits [of a b c] by (simp add: Let_def)
qed (simp add: encode_tail_def)

section \<open>The decoder\<close>

lemma find_index_distinct: "distinct xs \<Longrightarrow> i < length xs \<Longrightarrow> find_index ((=) (xs ! i)) xs = Some i"
  by (rule find_index_SomeI) (auto simp: nth_eq_iff_index_eq)

lemma base64_chars_props: "distinct base64_chars" "length base64_chars = 64"
  "\<forall>c \<in> set base64_chars. c \<noteq> CHR ''='' \<and> is_base64 c"
  by (simp_all add: base64_chars_def is_base64_def)

lemma b64_char_read:
  assumes "unat v < 64"
  shows "b64_find (b64_char v) = v" "b64_char v \<noteq> CHR ''=''" "is_base64 (b64_char v)"
proof -
  show "b64_find (b64_char v) = v"
    using find_index_distinct [OF base64_chars_props(1), of "unat v"] assms base64_chars_props(2)
    by (simp add: b64_find_def b64_char_def)
  have "b64_char v \<in> set base64_chars" using assms base64_chars_props(2) by (simp add: b64_char_def)
  then show "b64_char v \<noteq> CHR ''=''" "is_base64 (b64_char v)" using base64_chars_props(3) by auto
qed

lemma octet_bits:
  fixes x y :: u8
  shows "drop_bit 4 (x AND 0x30) = take_bit 2 (drop_bit 4 x)" and "x AND 0xf = take_bit 4 x"
    and "drop_bit 2 (y AND 0x3c) = take_bit 4 (drop_bit 2 y)" and "y AND 0x3 = take_bit 2 y"
proof -
  have m: "(0x30 :: u8) = push_bit 4 (mask 2)" "(0x3c :: u8) = push_bit 2 (mask 4)"
      "(0x03 :: u8) = mask 2" "(0x0f :: u8) = mask 4"
    by (simp_all add: mask_eq_exp_minus_1)
  show "drop_bit 4 (x AND 0x30) = take_bit 2 (drop_bit 4 x)" "drop_bit 2 (y AND 0x3c) = take_bit 4 (drop_bit 2 y)"
    unfolding m by (rule bit_word_eqI; auto simp: bit_simps dest: bit_imp_le_length)+
  show "x AND 0xf = take_bit 4 x" "y AND 0x3 = take_bit 2 y" unfolding m by (simp_all add: take_bit_eq_mask)
qed

lemma group_read:
  assumes "char_array_4 a b c = [w, x, y, z]"
  shows "char_array_3 w x y z = [a, b, c]"
proof -
  have u: "unat w = unat a div 4" "unat x = unat a mod 4 * 16 + unat b div 16"
      "unat y = unat b mod 16 * 4 + unat c div 64" "unat z = unat c mod 64"
    using unat_sextets [of a b c] assms by simp_all
  have l: "unat a < 256" "unat b < 256" "unat c < 256" by simp_all
  have m: "unat a div 4 < 64" "unat b div 16 < 16" "unat c div 64 < 4" "unat b mod 16 < 16" "unat a mod 4 < 4"
    using l by (simp_all add: less_mult_imp_div_less)
  have x: "unat x div 16 = unat a mod 4" "unat x mod 16 = unat b div 16" using m u(2) by auto
  have y: "unat y div 4 = unat b mod 16" "unat y mod 4 = unat c div 64" using m u(3) by auto
  have "unat (push_bit 2 w + take_bit 2 (drop_bit 4 x)) = unat a"
    using m x u(1) unat_push_add_u8 [of w 2 "take_bit 2 (drop_bit 4 x)"] by (simp add: unat_take_u8 unat_drop_u8)
  moreover have "unat (push_bit 4 (take_bit 4 x) + take_bit 4 (drop_bit 2 y)) = unat b"
    using m x y unat_push_add_u8 [of "take_bit 4 x" 4 "take_bit 4 (drop_bit 2 y)"] by (simp add: unat_take_u8 unat_drop_u8)
  moreover have "unat (push_bit 6 (take_bit 2 y) + z) = unat c"
    using m y u(4) unat_push_add_u8 [of "take_bit 2 y" 6 z] by (simp add: unat_take_u8 unat_drop_u8)
  ultimately show ?thesis
    unfolding char_array_3_def octet_bits by (simp add: word_unat_eq_iff)
qed

lemma sextets_small: "char_array_4 a b c = [w, x, y, z] \<Longrightarrow> \<forall>v \<in> {w, x, y, z}. unat v < 64"
proof -
  assume "char_array_4 a b c = [w, x, y, z]"
  then have u: "unat w = unat a div 4" "unat x = unat a mod 4 * 16 + unat b div 16"
      "unat y = unat b mod 16 * 4 + unat c div 64" "unat z = unat c mod 64"
    using unat_sextets [of a b c] by simp_all
  have "unat a < 256" "unat b < 256" "unat c < 256" by simp_all
  then have "unat a div 4 < 64" "unat b div 16 < 16" "unat c div 64 < 4" by (simp_all add: less_mult_imp_div_less)
  moreover have "unat a mod 4 < 4" "unat b mod 16 < 16" "unat c mod 64 < 64" by simp_all
  ultimately have "unat w < 64" "unat x < 64" "unat y < 64" "unat z < 64" using u by linarith+
  then show ?thesis by simp
qed

lemma decode_group:
  assumes "char_array_4 a b c = [w, x, y, z]"
  shows "decode_loop (map b64_char [w, x, y, z] @ r) [] ret = decode_loop r [] (ret @ [a, b, c])"
    and "decode_loop (map b64_char [w, x] @ CHR ''='' # r) [] ret = ([w, x], ret)"
    and "decode_loop (map b64_char [w, x, y] @ CHR ''='' # r) [] ret = ([w, x, y], ret)"
  using sextets_small [OF assms] group_read [OF assms] by (simp_all add: b64_char_read)

definition decode_tail :: "u8 list \<times> bytes \<Rightarrow> bytes" where
  "decode_tail = (\<lambda>(a4, ret). let p = a4 @ replicate (4 - length a4) 0 in
     ret @ take (length a4 - 1) (char_array_3 (p ! 0) (p ! 1) (p ! 2) (p ! 3)))"

lemma encode_group: obtains w x y z where "char_array_4 a b c = [w, x, y, z]"
  by (simp add: char_array_4_def)

lemma decode_loop_rfc4648: "decode_tail (decode_loop (rfc4648 m) [] ret) = ret @ m"
proof (induction m arbitrary: ret rule: rfc4648.induct)
  case 1
  then show ?case by (simp add: decode_tail_def)
next
  case (2 a)
  obtain w x y z where g: "char_array_4 a 0 0 = [w, x, y, z]" by (rule encode_group)
  have "rfc4648 [a] = map b64_char [w, x] @ CHR ''='' # ''=''"
    using tail_digits(1) [of a] g by (simp add: Let_def)
  moreover have "take 1 (char_array_3 w x 0 0) = [a]"
    using group_read [OF g] by (simp add: char_array_3_def)
  ultimately show ?case by (simp only: decode_group(2) [OF g]) (simp add: decode_tail_def)
next
  case (3 a b)
  obtain w x y z where g: "char_array_4 a b 0 = [w, x, y, z]" by (rule encode_group)
  have "rfc4648 [a, b] = map b64_char [w, x, y] @ CHR ''='' # []"
    using tail_digits(2) [of a b] g by (simp add: Let_def numeral_3_eq_3)
  moreover have "take 2 (char_array_3 w x y 0) = [a, b]"
    using group_read [OF g] by (simp add: char_array_3_def)
  ultimately show ?case by (simp only: decode_group(3) [OF g]) (simp add: decode_tail_def numeral_2_eq_2)
next
  case (4 a b c r)
  obtain w x y z where g: "char_array_4 a b c = [w, x, y, z]" by (rule encode_group)
  have "rfc4648 (a # b # c # r) = map b64_char [w, x, y, z] @ rfc4648 r"
    using group_digits [of a b c] g by (simp add: Let_def)
  then show ?case using "4.IH" [of _ "ret @ [a, b, c]"] by (simp only: decode_group(1) [OF g]) simp
qed

text \<open>C30: The base64 coding of the remote control is that of RFC 4648: the encoder's characters are the
  six-bit digits of the message with the pads of the standard, and the decoder reads every encoded
  message back.\<close>

theorem base64_correct: "base64_encode m = rfc4648 m \<and> base64_decode (base64_encode m) = m"
proof -
  have e: "base64_encode m = rfc4648 m"
    using encode_loop_rfc4648 [of m "[]"] by (simp add: base64_encode_tail)
  have "base64_decode s = decode_tail (decode_loop s [] [])" for s
    by (simp add: base64_decode_def decode_tail_def case_prod_beta Let_def)
  then show ?thesis using e decode_loop_rfc4648 [of m "[]"] by simp
qed

end
