(* ===== verification/Rpc_Ws.thy ===== *)
theory Rpc_Ws
  imports Rpc_Tcp Base64
begin

text \<open>
  The websocket transport of the remote control (\<open>rpc/rpc-ws-server.cpp\<close>): the HTTP request and its answer, the files served
  to a browser, the frames of an upgraded connection and the commands in them. Text in the request is read by \<open>ReadLine\<close>,
  frames are read from \<open>BufferList\<close>. What is written to the socket is a list of texts; the requests to the file system are
  a list too.
\<close>

section \<open>State\<close>

datatype ws_state =
  DO_HEADER | WAIT_HTTP | WAIT_DECODE_HEADER | WAITING_FOR_16_BIT_LENGTH | WAITING_FOR_64_BIT_LENGTH
| WAITING_FOR_MASK_KEY | WAITING_FOR_PAYLOAD | DEAD

record ws_frame =
  fr_fin :: bool
  fr_rsv1 :: bool
  fr_rsv2 :: bool
  fr_rsv3 :: bool
  fr_mask :: bool
  fr_opcode :: u8
  fr_length :: nat
  fr_maskBytes :: bytes

definition frame_clear :: ws_frame where
  "frame_clear = \<lparr>fr_fin = False, fr_rsv1 = False, fr_rsv2 = False, fr_rsv3 = False, fr_mask = False, fr_opcode = 0, fr_length = 0, fr_maskBytes = replicate 4 0\<rparr>"

datatype file_req = Fs_open string | Fs_stat | Fs_read nat nat | Fs_close

record ws_conn =
  ws_wsState :: ws_state
  ws_authed :: bool
  ws_pos :: nat
  ws_token :: string
  ws_path :: string
  ws_headers :: "string \<Rightarrow> string"
  ws_bl :: buffer_list
  ws_frame :: ws_frame
  ws_closed :: bool
  ws_out :: "string list"
  ws_files :: "file_req list"

definition new_ws :: "string \<Rightarrow> ws_conn" where
  "new_ws token =
     \<lparr>ws_wsState = DO_HEADER, ws_authed = False, ws_pos = 0, ws_token = token, ws_path = [], ws_headers = (\<lambda>_. []),
      ws_bl = bl_empty, ws_frame = frame_clear, ws_closed = False, ws_out = [], ws_files = []\<rparr>"

section \<open>The HTTP request\<close>

abbreviation CRLF :: string where "CRLF \<equiv> [CR, LF]"

definition HTTP_RESP_400 :: string where
  "HTTP_RESP_400 = ''HTTP/1.1 400 Bad Request'' @ CRLF @ ''Content-Length: 0'' @ CRLF @ ''Connection: Close'' @ CRLF @ CRLF"

definition HTTP_RESP_404 :: string where
  "HTTP_RESP_404 = ''HTTP/1.1 404 Not Found'' @ CRLF @ ''Content-Length: 0'' @ CRLF @ ''Connection: Close'' @ CRLF @ CRLF"

definition HTTP_RESP_200 :: string where
  "HTTP_RESP_200 = ''HTTP/1.1 200 OK'' @ CRLF @ ''Connection: Close'' @ CRLF @ ''Content-Length: ''"

definition HTTP_RESP_101_PART :: string where
  "HTTP_RESP_101_PART =
     ''HTTP/1.1 101 Switching Protocols'' @ CRLF @ ''Upgrade: websocket'' @ CRLF @ ''Connection: Upgrade'' @ CRLF @
     ''Sec-WebSocket-Protocol: switch-lan-play-rpc'' @ CRLF @ ''Sec-WebSocket-Accept: ''"

definition WS_GUID :: string where "WS_GUID = ''258EAFA5-E914-47DA-95CA-C5AB0DC85B11''"

text \<open>What is before and behind the first occurrence of a character.\<close>

definition split_at :: "char \<Rightarrow> string \<Rightarrow> (string \<times> string) option" where
  "split_at c s =
     (let a = takeWhile (\<lambda>x. x \<noteq> c) s in if length a = length s then None else Some (a, drop (length a + 1) s))"

definition getPath :: "string \<Rightarrow> string" where
  "getPath str =
     (case split_at (CHR '' '') str of
        None \<Rightarrow> []
      | Some (method, line) \<Rightarrow>
          (case split_at (CHR '' '') line of
             None \<Rightarrow> []
           | Some (path, line') \<Rightarrow> if line' \<noteq> ''HTTP/1.1'' then [] else path))"

definition ws_tolower :: "string \<Rightarrow> string" where
  "ws_tolower str = lowercase str"

definition ws_write :: "string \<Rightarrow> ws_conn \<Rightarrow> ws_conn" where
  "ws_write s c = (if s = [] \<or> ws_closed c then c else c\<lparr>ws_out := ws_out c @ [s]\<rparr>)"

definition READ_SIZE :: nat where "READ_SIZE = 65536"

definition sendFile :: "string \<Rightarrow> ws_conn \<Rightarrow> string \<times> ws_conn" where
  "sendFile path c =
     (if contains_str ''..'' path then (HTTP_RESP_400, c)
      else
        let filename = (if path = [] then ''index.html'' else path) in
        ([], c\<lparr>ws_pos := 0, ws_files := ws_files c @ [Fs_open (''http_root/'' @ filename)]\<rparr>))"

text \<open>The events of the file: an error, with whether it is \<open>ENOENT\<close>, the end of \<open>open\<close> and of \<open>stat\<close>, and what was read.\<close>

datatype file_event = File_error bool | File_opened | File_stat nat | File_read string

fun on_file :: "file_event \<Rightarrow> ws_conn \<Rightarrow> ws_conn" where
  "on_file (File_error enoent) c = ws_write (if enoent then HTTP_RESP_404 else HTTP_RESP_400) c"
| "on_file File_opened c = c\<lparr>ws_files := ws_files c @ [Fs_stat]\<rparr>"
| "on_file (File_stat n) c =
     (let c1 = ws_write (to_string (int n) @ CRLF @ CRLF) (ws_write HTTP_RESP_200 c) in
      c1\<lparr>ws_files := ws_files c1 @ [Fs_read 0 READ_SIZE]\<rparr>)"
| "on_file (File_read d) c =
     (if d = [] then c\<lparr>ws_files := ws_files c @ [Fs_close]\<rparr>
      else
        let c1 = (ws_write d c)\<lparr>ws_pos := ws_pos c + length d\<rparr> in
        c1\<lparr>ws_files := ws_files c1 @ [Fs_read (ws_pos c1) READ_SIZE]\<rparr>)"

text \<open>The headers of an upgrade, with what the map gives for a header that is not there.\<close>

definition upgrade_ok :: "ws_conn \<Rightarrow> bool" where
  "upgrade_ok c \<longleftrightarrow>
     ws_path c = ''/'' \<and> ws_headers c ''upgrade'' = ''websocket'' \<and> ws_headers c ''connection'' = ''Upgrade'' \<and>
     ws_headers c ''sec-websocket-version'' = ''13'' \<and> ws_headers c ''sec-websocket-protocol'' = ''switch-lan-play-rpc'' \<and>
     ws_headers c ''sec-websocket-key'' \<noteq> []"

definition ws_accept :: "string \<Rightarrow> string res" where
  "ws_accept hkey =
     (let key = hkey @ WS_GUID in
      rbind (SHA1Update SHA1Init (bytes_of key) (length key)) (\<lambda>hashctx.
      rbind (SHA1Final hashctx) (\<lambda>digest.
      Inr (base64_encode digest))))"

text \<open>The callback of the request's lines: what it returns and the connection.\<close>

definition ws_request :: "string \<Rightarrow> ws_conn \<Rightarrow> (string \<times> ws_conn) res" where
  "ws_request line c =
     (if ws_wsState c = DO_HEADER then
        let path = getPath line in
        if path = [] then Inr (HTTP_RESP_400, c\<lparr>ws_path := path, ws_wsState := DEAD\<rparr>)
        else Inr ([], c\<lparr>ws_path := path, ws_wsState := WAIT_HTTP\<rparr>)
      else if ws_wsState c = WAIT_HTTP then
        if line \<noteq> [] then
          case split_at (CHR '':'') line of
            None \<Rightarrow> Inr (HTTP_RESP_400, c\<lparr>ws_wsState := DEAD\<rparr>)
          | Some (k, r) \<Rightarrow>
              Inr ([], c\<lparr>ws_headers := (ws_headers c)(ws_tolower k := dropWhile (\<lambda>x. x = CHR '' '') r)\<rparr>)
        else if upgrade_ok c then
          rbind (ws_accept (ws_headers c ''sec-websocket-key'')) (\<lambda>accept.
          Inr (HTTP_RESP_101_PART @ accept @ CRLF @ CRLF, c\<lparr>ws_wsState := WAIT_DECODE_HEADER\<rparr>))
        else Inr (sendFile (drop 1 (ws_path c)) (c\<lparr>ws_wsState := DEAD\<rparr>))
      else Inr ([], c))"

definition ws_line :: "string \<Rightarrow> ws_conn \<Rightarrow> ws_conn res" where
  "ws_line line c = rbind (ws_request line c) (\<lambda>(result, c'). Inr (ws_write result c'))"

section \<open>Frames\<close>

definition text_of :: "bytes \<Rightarrow> string" where
  "text_of bs = map (\<lambda>b. char_of (unat b)) bs"

definition sendText :: "string \<Rightarrow> ws_conn \<Rightarrow> ws_conn" where
  "sendText str c =
     (let len = length str in
      if len < 126 then ws_write str (ws_write (text_of [0x81, of_nat len AND 0x7f]) c)
      else if len < 65536 then
        ws_write str (ws_write (text_of [0x81, 126 AND 0x7f, of_nat (len div 256), of_nat (len mod 256)]) c)
      else c)"

definition ws_message :: "rpc_env \<Rightarrow> string \<Rightarrow> ws_conn \<times> lan_play_class \<Rightarrow> (ws_conn \<times> lan_play_class) res" where
  "ws_message R line = (\<lambda>(c, lc).
     rbind (if ws_authed c then rbind (onMessage R line lc) (\<lambda>(result, lc'). Inr (result, c, lc'))
            else if line = ws_token c then Inr (AUTH_OK, c\<lparr>ws_authed := True\<rparr>, lc)
            else Inr (AUTH_FAIL, c, lc)) (\<lambda>(result, c1, lc1).
     Inr (if result \<noteq> [] then sendText result c1 else c1, lc1)))"

definition onFrame :: "rpc_env \<Rightarrow> bytes \<Rightarrow> ws_conn \<times> lan_play_class \<Rightarrow> (ws_conn \<times> lan_play_class) res" where
  "onFrame R data = (\<lambda>(c, lc).
     if fr_opcode (ws_frame c) = 8 then Inr (c\<lparr>ws_closed := True\<rparr>, lc)
     else if fr_opcode (ws_frame c) \<noteq> 1 then Inr (c, lc)
     else ws_message R (text_of data) (c, lc))"

text \<open>The steps of the loop of \<open>onData\<close>, in their order. The first may leave the loop.\<close>

definition step_header :: "ws_conn \<Rightarrow> (bool \<times> ws_conn) res" where
  "step_header c =
     (if ws_wsState c = WAIT_DECODE_HEADER then
        if bl_size (ws_bl c) \<ge> 2 then
          rbind (bl_get (ws_bl c) 0) (\<lambda>firstByte.
          rbind (bl_get (ws_bl c) 1) (\<lambda>secondByte.
          let len = unat (secondByte AND 0x7F);
              fr = frame_clear
                \<lparr>fr_fin := firstByte AND 0x80 \<noteq> 0, fr_rsv1 := firstByte AND 0x40 \<noteq> 0,
                 fr_rsv2 := firstByte AND 0x20 \<noteq> 0, fr_rsv3 := firstByte AND 0x10 \<noteq> 0,
                 fr_mask := secondByte AND 0x80 \<noteq> 0, fr_opcode := firstByte AND 0x0F, fr_length := len\<rparr>;
              st = (if len = 126 then WAITING_FOR_16_BIT_LENGTH else if len = 127 then WAITING_FOR_64_BIT_LENGTH
                    else WAITING_FOR_MASK_KEY) in
          rbind (bl_advance 2 (ws_bl c)) (\<lambda>b.
          Inr (True, c\<lparr>ws_frame := fr, ws_wsState := st, ws_bl := b\<rparr>))))
        else Inr (False, c)
      else Inr (True, c))"

definition step_len16 :: "ws_conn \<Rightarrow> ws_conn res" where
  "step_len16 c =
     (if ws_wsState c = WAITING_FOR_16_BIT_LENGTH \<and> bl_size (ws_bl c) \<ge> 2 then
        rbind (bl_get (ws_bl c) 0) (\<lambda>a.
        rbind (bl_get (ws_bl c) 1) (\<lambda>b.
        rbind (bl_advance 2 (ws_bl c)) (\<lambda>bl.
        Inr (c\<lparr>ws_frame := (ws_frame c)\<lparr>fr_length := 256 * unat a + unat b\<rparr>, ws_bl := bl, ws_wsState := WAITING_FOR_MASK_KEY\<rparr>))))
      else Inr c)"

text \<open>The shift of an \<open>int\<close> by 56 bits.\<close>

definition step_len64 :: "ws_conn \<Rightarrow> ws_conn res" where
  "step_len64 c =
     (if ws_wsState c = WAITING_FOR_64_BIT_LENGTH \<and> bl_size (ws_bl c) \<ge> 8 then
        rbind (bl_get (ws_bl c) 0) (\<lambda>_. Inl Bad_shift)
      else Inr c)"

definition step_mask :: "ws_conn \<Rightarrow> ws_conn res" where
  "step_mask c =
     (if ws_wsState c = WAITING_FOR_MASK_KEY then
        if fr_mask (ws_frame c) then
          if bl_size (ws_bl c) \<ge> 4 then
            rbind (bl_copyTo (ws_bl c) 0 4) (\<lambda>k.
            rbind (bl_advance 4 (ws_bl c)) (\<lambda>b.
            Inr (c\<lparr>ws_frame := (ws_frame c)\<lparr>fr_maskBytes := k\<rparr>, ws_bl := b, ws_wsState := WAITING_FOR_PAYLOAD\<rparr>)))
          else Inr c
        else Inr (c\<lparr>ws_wsState := WAITING_FOR_PAYLOAD\<rparr>)
      else Inr c)"

definition unmask :: "bytes \<Rightarrow> bytes \<Rightarrow> bytes" where
  "unmask k d = map (\<lambda>i. d ! i XOR k ! (i mod 4)) [0..<length d]"

definition step_payload :: "rpc_env \<Rightarrow> ws_conn \<times> lan_play_class \<Rightarrow> (ws_conn \<times> lan_play_class) res" where
  "step_payload R = (\<lambda>(c, lc).
     if ws_wsState c = WAITING_FOR_PAYLOAD \<and> bl_size (ws_bl c) \<ge> fr_length (ws_frame c) then
       rbind (bl_copyTo (ws_bl c) 0 (fr_length (ws_frame c))) (\<lambda>d.
       rbind (bl_advance (fr_length (ws_frame c)) (ws_bl c)) (\<lambda>b.
       onFrame R (if fr_mask (ws_frame c) then unmask (fr_maskBytes (ws_frame c)) d else d)
         (c\<lparr>ws_bl := b, ws_wsState := WAIT_DECODE_HEADER\<rparr>, lc)))
     else Inr (c, lc))"

definition ws_turn :: "rpc_env \<Rightarrow> ws_conn \<times> lan_play_class \<Rightarrow> (bool \<times> ws_conn \<times> lan_play_class) res" where
  "ws_turn R = (\<lambda>(c, lc).
     rbind (step_header c) (\<lambda>(go, c1).
     if \<not> go then Inr (False, c1, lc)
     else
       rbind (step_len16 c1) (\<lambda>c2.
       rbind (step_len64 c2) (\<lambda>c3.
       rbind (step_mask c3) (\<lambda>c4.
       rbind (step_payload R (c4, lc)) (\<lambda>(c5, lc5).
       Inr (ws_wsState c5 = WAIT_DECODE_HEADER, c5, lc5)))))))"

text \<open>Every turn after which the loop goes on has taken bytes off the queue, but for a first turn that ends a frame.\<close>

lemma bl_advance_size:
  assumes "bl_advance n b = Inr b'" and "n \<le> bl_size b"
  shows "bl_size b' = bl_size b - n"
proof -
  have "bl_advance_loop segs tot off = Inr b' \<Longrightarrow> off \<le> tot \<Longrightarrow> bl_size b' = tot - off" for segs tot off
    by (induction segs arbitrary: tot off) (auto simp: bl_size_def split: if_splits)
  moreover have "bl_advance_loop segs tot off = Inr b' \<Longrightarrow> tot \<le> off \<Longrightarrow> bl_size b' = 0" for segs tot off
    by (induction segs arbitrary: tot off) (auto simp: bl_size_def split: if_splits)
  ultimately show ?thesis using assms unfolding bl_advance_def bl_size_def
    by (metis add.commute diff_diff_left diff_is_0_eq le_add_diff_inverse le_diff_conv nat_le_linear)
qed

lemma sendText_keeps [simp]:
  "ws_wsState (sendText t c) = ws_wsState c" "ws_bl (sendText t c) = ws_bl c" "ws_files (sendText t c) = ws_files c"
  by (simp_all add: sendText_def ws_write_def Let_def)

lemma ws_message_keeps:
  "ws_message R l (c, lc) = Inr (c', lc') \<Longrightarrow> ws_wsState c' = ws_wsState c \<and> ws_bl c' = ws_bl c \<and> ws_files c' = ws_files c"
  by (auto simp: ws_message_def rbind_eq_Inr split: if_splits)

lemma onFrame_keeps:
  "onFrame R d (c, lc) = Inr (c', lc') \<Longrightarrow> ws_wsState c' = ws_wsState c \<and> ws_bl c' = ws_bl c \<and> ws_files c' = ws_files c"
  using ws_message_keeps [of R "text_of d" c lc c' lc'] by (auto simp: onFrame_def split: if_splits)

definition ws_left :: "ws_conn \<Rightarrow> nat" where
  "ws_left c = 2 * bl_size (ws_bl c) + (if ws_wsState c = WAIT_DECODE_HEADER then 0 else 1)"

lemma step_header_left:
  "step_header c = Inr (True, c') \<Longrightarrow>
     bl_size (ws_bl c') \<le> bl_size (ws_bl c) \<and> ws_wsState c' \<noteq> WAIT_DECODE_HEADER \<and> ws_files c' = ws_files c \<and>
     (ws_wsState c = WAIT_DECODE_HEADER \<longrightarrow> bl_size (ws_bl c') < bl_size (ws_bl c))"
  by (auto simp: step_header_def rbind_eq_Inr Let_def dest!: bl_advance_size split: if_splits)

lemma step_len16_left:
  "step_len16 c = Inr c' \<Longrightarrow> ws_wsState c \<noteq> WAIT_DECODE_HEADER \<Longrightarrow>
     bl_size (ws_bl c') \<le> bl_size (ws_bl c) \<and> ws_wsState c' \<noteq> WAIT_DECODE_HEADER \<and> ws_files c' = ws_files c"
  by (auto simp: step_len16_def rbind_eq_Inr dest!: bl_advance_size split: if_splits)

lemma step_len64_left: "step_len64 c = Inr c' \<Longrightarrow> c' = c"
  by (auto simp: step_len64_def rbind_eq_Inr split: if_splits)

lemma step_mask_left:
  "step_mask c = Inr c' \<Longrightarrow> ws_wsState c \<noteq> WAIT_DECODE_HEADER \<Longrightarrow>
     bl_size (ws_bl c') \<le> bl_size (ws_bl c) \<and> ws_wsState c' \<noteq> WAIT_DECODE_HEADER \<and> ws_files c' = ws_files c"
  by (auto simp: step_mask_def rbind_eq_Inr dest!: bl_advance_size split: if_splits)

lemma step_payload_left:
  "step_payload R (c, lc) = Inr (c', lc') \<Longrightarrow> bl_size (ws_bl c') \<le> bl_size (ws_bl c) \<and> ws_files c' = ws_files c"
  by (auto simp: step_payload_def rbind_eq_Inr dest!: bl_advance_size onFrame_keeps split: if_splits)

lemma ws_turn_steps:
  assumes "ws_turn R (c, lc) = Inr (again, c', lc')"
  shows "(again \<longrightarrow> ws_left c' < ws_left c) \<and> ws_files c' = ws_files c"
proof -
  obtain go c1 where h: "step_header c = Inr (go, c1)" using assms by (auto simp: ws_turn_def rbind_eq_Inr)
  show ?thesis
  proof (cases go)
    case True
    with assms h obtain c2 c3 c4 where
      "step_len16 c1 = Inr c2" "step_len64 c2 = Inr c3" "step_mask c3 = Inr c4" "step_payload R (c4, lc) = Inr (c', lc')"
      and again: "again \<longleftrightarrow> ws_wsState c' = WAIT_DECODE_HEADER"
      by (auto simp: ws_turn_def rbind_eq_Inr)
    then have "bl_size (ws_bl c') \<le> bl_size (ws_bl c1)" "ws_files c' = ws_files c1"
      using step_len16_left [of c1 c2] step_len64_left [of c2 c3] step_mask_left [of c3 c4] step_payload_left [of R c4 lc c' lc']
        step_header_left [of c c1] h True by auto
    then show ?thesis using step_header_left [of c c1] h True again by (auto simp: ws_left_def)
  next
    case False
    with assms h have "\<not> again" "c' = c1" by (auto simp: ws_turn_def)
    moreover have "c1 = c" using h False by (auto simp: step_header_def rbind_eq_Inr Let_def split: if_splits)
    ultimately show ?thesis by simp
  qed
qed

function ws_loop :: "rpc_env \<Rightarrow> ws_conn \<times> lan_play_class \<Rightarrow> (ws_conn \<times> lan_play_class) res" where
  "ws_loop R st = rbind (ws_turn R st) (\<lambda>(again, st'). if again then ws_loop R st' else Inr st')"
  by auto
termination
  by (relation "measure (\<lambda>(R, c, lc). ws_left c)") (auto dest: ws_turn_steps)

declare ws_loop.simps [simp del]

text \<open>\<open>onData\<close>: the text of \<open>ReadLine\<close>, the connection and the object shared by the connections.\<close>

type_synonym ws_st = "string \<times> ws_conn \<times> lan_play_class"

definition ws_onData :: "rpc_env \<Rightarrow> bytes \<Rightarrow> ws_st \<Rightarrow> ws_st res" where
  "ws_onData R data = (\<lambda>(rl, c, lc).
     if ws_wsState c = DO_HEADER \<or> ws_wsState c = WAIT_HTTP then
       rbind (feed ws_line (text_of data) (rl, c)) (\<lambda>(rl', c'). Inr (rl', c', lc))
     else if ws_wsState c = DEAD then Inr (rl, c, lc)
     else rbind (ws_loop R (c\<lparr>ws_bl := bl_add data (ws_bl c)\<rparr>, lc)) (\<lambda>(c', lc'). Inr (rl, c', lc')))"

fun ws_segments :: "rpc_env \<Rightarrow> bytes list \<Rightarrow> ws_st \<Rightarrow> ws_st res" where
  "ws_segments R [] st = Inr st"
| "ws_segments R (d # ds) st = rbind (ws_onData R d st) (ws_segments R ds)"

section \<open>The upgrade\<close>

lemma text_of_eq_Nil: "text_of bs = [] \<longleftrightarrow> bs = []"
  by (simp add: text_of_def)

lemma length_bytes_of: "length (bytes_of s) = length s"
  by (simp add: bytes_of_def)

lemma text_of_bytes_of [simp]: "text_of (bytes_of s) = s"
proof -
  have "unat (of_char c :: u8) = of_char c" for c :: char
  proof -
    have "unat (of_char c :: u8) = unat (of_nat (of_char c) :: u8)" by (simp only: of_nat_of_char)
    also have "\<dots> = of_char c" by (simp only: unat_of_nat) (simp add: take_bit_eq_mod)
    finally show ?thesis .
  qed
  then show ?thesis by (induction s) (simp_all add: text_of_def bytes_of_def)
qed

lemma split_at_first: "x \<notin> set a \<Longrightarrow> split_at x (a @ x # b) = Some (a, b)"
  by (simp add: split_at_def takeWhile_ne)

lemma getPath_request:
  assumes "CHR '' '' \<notin> set method" and "CHR '' '' \<notin> set path"
  shows "getPath (method @ '' '' @ path @ '' HTTP/1.1'') = path"
  using assms by (simp add: getPath_def split_at_first)

lemma ws_accept_rfc:
  assumes "length key < 2 ^ 31"
  shows "ws_accept key = Inr (rfc4648 (sha1 (bytes_of (key @ WS_GUID))))"
proof -
  let ?m = "bytes_of (key @ WS_GUID)"
  have len: "length ?m = length key + 36" by (simp add: bytes_of_def WS_GUID_def)
  then obtain c where c: "SHA1Update SHA1Init ?m (length ?m) = Inr c" "absorbed c ?m"
    using SHA1Update_absorbed [OF absorbed_init, of "length ?m" ?m] assms by auto
  then have "SHA1Final c = Inr (sha1 ?m)" using len assms by (intro SHA1Final_eq) auto
  moreover have "base64_encode (sha1 ?m) = rfc4648 (sha1 ?m)"
    using encode_loop_rfc4648 [of "sha1 ?m" "[]"] by (simp add: base64_encode_tail)
  ultimately show ?thesis using c(1) by (simp add: ws_accept_def bytes_of_def)
qed

text \<open>A header as a client writes it, and the map the headers give.\<close>

definition header_line :: "string \<times> string \<Rightarrow> string" where
  "header_line h = fst h @ '': '' @ snd h"

definition header_ok :: "string \<times> string \<Rightarrow> bool" where
  "header_ok h \<longleftrightarrow> CHR '':'' \<notin> set (fst h) \<and> takeWhile (\<lambda>x. x = CHR '' '') (snd h) = [] \<and>
     LF \<notin> set (fst h) \<and> LF \<notin> set (snd h)"

fun header_map :: "(string \<times> string) list \<Rightarrow> (string \<Rightarrow> string) \<Rightarrow> string \<Rightarrow> string" where
  "header_map [] m = m"
| "header_map (h # hs) m = header_map hs (m(lowercase (fst h) := snd h))"

lemma ws_line_header:
  assumes "ws_wsState c = WAIT_HTTP" and "header_ok h"
  shows "ws_line (header_line h) c = Inr (c\<lparr>ws_headers := (ws_headers c)(lowercase (fst h) := snd h)\<rparr>)"
proof -
  have "dropWhile (\<lambda>x. x = CHR '' '') (snd h) = snd h"
    using assms(2) by (metis header_ok_def append_Nil takeWhile_dropWhile_id)
  moreover have "split_at (CHR '':'') (header_line h) = Some (fst h, CHR '' '' # snd h)"
    using assms(2) split_at_first [of "CHR '':''" "fst h" "CHR '' '' # snd h"] by (simp add: header_line_def header_ok_def)
  moreover have "header_line h \<noteq> []" by (simp add: header_line_def)
  ultimately show ?thesis
    using assms(1) by (simp add: ws_line_def ws_request_def ws_write_def ws_tolower_def)
qed

lemma run_headers:
  assumes "ws_wsState c = WAIT_HTTP" and "\<forall>h \<in> set hs. header_ok h"
  shows "run_lines ws_line (map header_line hs) c = Inr (c\<lparr>ws_headers := header_map hs (ws_headers c)\<rparr>)"
  using assms
proof (induction hs arbitrary: c)
  case (Cons h hs)
  then show ?case using Cons.IH [of "c\<lparr>ws_headers := (ws_headers c)(lowercase (fst h) := snd h)\<rparr>"]
    by (simp add: ws_line_header)
qed simp

text \<open>While the request is read, \<open>onData\<close> is \<open>feed\<close>; a connection leaves this state at the empty line only.\<close>

definition ws_reading :: "ws_conn \<Rightarrow> bool" where
  "ws_reading c \<longleftrightarrow> ws_wsState c = DO_HEADER \<or> ws_wsState c = WAIT_HTTP"

lemma ws_line_passive: "\<not> ws_reading c \<Longrightarrow> ws_line l c = Inr c"
  by (simp add: ws_reading_def ws_line_def ws_request_def ws_write_def)

lemma feed_passive: "cb = ws_line \<Longrightarrow> feed_loop cb b c = Inr (b', c') \<Longrightarrow> \<not> ws_reading c \<Longrightarrow> c' = c"
proof (induction cb b c rule: feed_loop.induct)
  case (1 cb b c)
  show ?case
  proof (cases "cut_line b")
    case None
    with "1.prems" feed_loop.simps [of cb b c] show ?thesis by simp
  next
    case (Some p)
    obtain line rest where p: "p = (line, rest)" by fastforce
    have eq: "feed_loop cb b c = rbind (strip_cr line) (\<lambda>l. feed_loop cb rest c)"
      using Some p feed_loop.simps [of cb b c] "1.prems"(1,3) by (simp add: ws_line_passive cong: rbind_cong)
    then obtain l where l: "strip_cr line = Inr l" "feed_loop cb rest c = Inr (b', c')"
      using "1.prems"(2) by (metis rbind_eq_Inr)
    show ?thesis using "1.IH" [OF Some p [symmetric] l(1) _ "1.prems"(1) l(2)] "1.prems" by (simp add: ws_line_passive)
  qed
qed

lemma feeds_passive: "feeds ws_line ds (b, c) = Inr (b', c') \<Longrightarrow> \<not> ws_reading c \<Longrightarrow> c' = c"
proof (induction ds arbitrary: b c)
  case (Cons d ds)
  from Cons.prems(1) obtain b1 c1 where "feed ws_line d (b, c) = Inr (b1, c1)" "feeds ws_line ds (b1, c1) = Inr (b', c')"
    by (auto simp: rbind_eq_Inr)
  moreover from this(1) Cons.prems(2) have "c1 = c" using feed_passive [OF refl, of "b @ d" c b1 c1] by (simp add: feed_def)
  ultimately show ?case using Cons.IH Cons.prems(2) by blast
qed simp

lemma ws_segments_feeds:
  "feeds ws_line (map text_of ds) (b, c) = Inr (b', c') \<Longrightarrow> ws_reading c' \<Longrightarrow> ws_segments R ds (b, c, lc) = Inr (b', c', lc)"
proof (induction ds arbitrary: b c)
  case (Cons d ds)
  from Cons.prems(1) obtain b1 c1 where f: "feed ws_line (text_of d) (b, c) = Inr (b1, c1)"
      "feeds ws_line (map text_of ds) (b1, c1) = Inr (b', c')"
    by (auto simp: rbind_eq_Inr)
  have "ws_reading c" using feeds_passive [OF Cons.prems(1)] Cons.prems(2) by auto
  with f Cons.IH [OF f(2) Cons.prems(2)] show ?case by (simp add: ws_onData_def ws_reading_def)
qed simp

lemma ws_segments_append: "ws_segments R (a @ b) st = rbind (ws_segments R a st) (ws_segments R b)"
  by (induction a arbitrary: st) (simp_all add: rbind_assoc cong: rbind_cong)

lemma ws_request_read:
  assumes "concat (map text_of ds) = concat (map (\<lambda>l. l @ [CR, LF]) ls) @ [CR, LF]" and "[] \<notin> set ds"
    and "\<forall>l \<in> set ls. LF \<notin> set l" and "run_lines ws_line ls c = Inr cH" and "ws_reading cH"
  shows "ws_segments R ds ([], c, lc) = rbind (ws_line [] cH) (\<lambda>c'. Inr ([], c', lc))"
proof -
  let ?W = "concat (map (\<lambda>l. l @ [CR, LF]) ls)"
  have "ds \<noteq> []" using assms(1) by auto
  then obtain ds' d where ds: "ds = ds' @ [d]" by (metis rev_exhaust)
  have d: "text_of d \<noteq> []" using assms(2) ds by (auto simp: text_of_def)
  have cat: "concat (map text_of ds') @ text_of d = (?W @ [CR]) @ [LF]" using assms(1) ds by simp
  define q where "q = butlast (text_of d)"
  have q: "text_of d = q @ [LF]"
    using cat d by (metis q_def append_butlast_last_id last_appendR last_snoc)
  have W: "?W @ [CR] = concat (map text_of ds') @ q" using cat q by (metis append_assoc butlast_snoc)
  have "feed ws_line (?W @ [CR]) ([], c) = Inr ([CR], cH)"
    using feed_loop_lines [OF assms(3), of ws_line "[CR]" c] assms(4) by (simp add: feed_def feed_done)
  then obtain b1 c1 where b1: "feed ws_line (concat (map text_of ds')) ([], c) = Inr (b1, c1)"
      "feed ws_line q (b1, c1) = Inr ([CR], cH)"
    unfolding W feed_append by (auto simp: rbind_eq_Inr)
  have "ws_reading c1" using feed_passive [OF refl, of "b1 @ q" c1] b1(2) assms(5) by (auto simp: feed_def)
  moreover have "feeds ws_line (map text_of ds') ([], c) = Inr (b1, c1)" using b1(1) by (simp add: feeds_concat)
  ultimately have "ws_segments R ds' ([], c, lc) = Inr (b1, c1, lc)" by (rule ws_segments_feeds [rotated])
  moreover have "feed ws_line (text_of d) (b1, c1) = rbind (ws_line [] cH) (\<lambda>c'. Inr ([], c'))"
    using b1(2) feed_loop_line [of "[]" ws_line "[]" cH] unfolding q feed_append
    by (simp add: feed_def feed_done cong: rbind_cong)
  ultimately show ?thesis using \<open>ws_reading c1\<close>
    by (simp add: ds ws_segments_append ws_onData_def ws_reading_def rbind_assoc)
qed

text \<open>The connection at the end of the headers of a request.\<close>

definition requested :: "string \<Rightarrow> string \<Rightarrow> (string \<times> string) list \<Rightarrow> ws_conn" where
  "requested token path hs = (new_ws token)\<lparr>ws_wsState := WAIT_HTTP, ws_path := path, ws_headers := header_map hs (\<lambda>_. [])\<rparr>"

definition answered :: "ws_conn \<Rightarrow> ws_conn" where
  "answered c =
     (if upgrade_ok c then
        c\<lparr>ws_wsState := WAIT_DECODE_HEADER,
          ws_out := [HTTP_RESP_101_PART @ rfc4648 (sha1 (bytes_of (ws_headers c ''sec-websocket-key'' @ WS_GUID))) @ CRLF @ CRLF]\<rparr>
      else if contains_str ''..'' (drop 1 (ws_path c)) then c\<lparr>ws_wsState := DEAD, ws_out := [HTTP_RESP_400]\<rparr>
      else c\<lparr>ws_wsState := DEAD,
             ws_files := [Fs_open (''http_root/'' @ (if drop 1 (ws_path c) = [] then ''index.html'' else drop 1 (ws_path c)))]\<rparr>)"

lemma request_end:
  assumes "length (header_map hs (\<lambda>_. []) ''sec-websocket-key'') < 2 ^ 31"
  shows "ws_line [] (requested token path hs) = Inr (answered (requested token path hs))"
  using ws_accept_rfc [OF assms]
  by (simp add: ws_line_def ws_request_def requested_def answered_def upgrade_ok_def sendFile_def ws_write_def Let_def
      new_ws_def HTTP_RESP_101_PART_def HTTP_RESP_400_def)

text \<open>C9: A request is answered. However the bytes of a request line and of its headers are cut into segments, a connection
  of the websocket server answers the request once, at its empty line: a request for \<open>/\<close> with the headers of an upgrade gets
  the answer 101 whose accept value is the base64 text of the SHA-1 digest of the key and the protocol's constant, and the
  connection waits for frames; every other request is the end of the connection's reading, with the answer 400 where the path
  has two dots in a row and else with the opening of the named file of \<open>http_root\<close>.\<close>

theorem ws_request_answered:
  assumes "concat ds = bytes_of (concat (map (\<lambda>l. l @ [CR, LF]) ((method @ '' '' @ path @ '' HTTP/1.1'') # map header_line hs)) @ [CR, LF])"
    and "[] \<notin> set ds" and "path \<noteq> []" and "\<forall>x \<in> set (method @ path). x \<noteq> CHR '' '' \<and> x \<noteq> LF"
    and "\<forall>h \<in> set hs. header_ok h" and "length (header_map hs (\<lambda>_. []) ''sec-websocket-key'') < 2 ^ 31"
  shows "ws_segments R ds ([], new_ws token, lc) = Inr ([], answered (requested token path hs), lc)"
proof -
  let ?rq = "method @ '' '' @ path @ '' HTTP/1.1''"
  have cat: "concat (map text_of ds) = text_of (concat ds)" by (induction ds) (simp_all add: text_of_def)
  have "getPath ?rq = path" using assms(4) by (intro getPath_request) auto
  then have "ws_line ?rq (new_ws token) = Inr ((new_ws token)\<lparr>ws_path := path, ws_wsState := WAIT_HTTP\<rparr>)"
    using assms(3) by (simp add: ws_line_def ws_request_def new_ws_def ws_write_def del: append_Cons append_Nil)
  then have "run_lines ws_line (?rq # map header_line hs) (new_ws token) = Inr (requested token path hs)"
    using run_headers [OF _ assms(5), of "(new_ws token)\<lparr>ws_path := path, ws_wsState := WAIT_HTTP\<rparr>"]
    by (simp add: requested_def new_ws_def del: append_Cons append_Nil)
  moreover have "\<forall>l \<in> set (?rq # map header_line hs). LF \<notin> set l"
    using assms(4,5) by (auto simp: header_line_def header_ok_def)
  moreover have "ws_reading (requested token path hs)" by (simp add: ws_reading_def requested_def)
  ultimately have "ws_segments R ds ([], new_ws token, lc) =
      rbind (ws_line [] (requested token path hs)) (\<lambda>c'. Inr ([], c', lc))"
    using assms(2) cat assms(1) by (intro ws_request_read [of ds "?rq # map header_line hs"]) simp_all
  then show ?thesis by (simp add: request_end [OF assms(6)])
qed

theorem ws_request_answered_witness:
  "ws_segments example_rpc [bytes_of (''GET /a.js HTTP'' @ ''/1.1'' @ [CR, LF] @ ''Host: x''), bytes_of ([CR, LF] @ [CR, LF])]
     ([], new_ws ''key'', new_LanPlay boot) =
   Inr ([], answered (requested ''key'' ''/a.js'' [(''Host'', ''x'')]), new_LanPlay boot) \<and>
   ws_files (answered (requested ''key'' ''/a.js'' [(''Host'', ''x'')])) = [Fs_open ''http_root/a.js'']"
proof -
  have "ws_files (answered (requested ''key'' ''/a.js'' [(''Host'', ''x'')])) = [Fs_open ''http_root/a.js'']"
    by code_simp
  moreover have "length (header_map [(''Host'', ''x'')] (\<lambda>_. []) ''sec-websocket-key'') < 2 ^ 31" by (simp add: lowercase_def)
  ultimately show ?thesis
    using ws_request_answered [of "[bytes_of (''GET /a.js HTTP'' @ ''/1.1'' @ [CR, LF] @ ''Host: x''), bytes_of ([CR, LF] @ [CR, LF])]"
        "''GET''" "''/a.js''" "[(''Host'', ''x'')]" example_rpc "''key''" "new_LanPlay boot"]
    by (simp add: bytes_of_def header_line_def header_ok_def)
qed

section \<open>The files that are served\<close>

datatype ws_event = Ws_data bytes | Ws_file file_event

fun ws_handle :: "rpc_env \<Rightarrow> ws_event \<Rightarrow> ws_st \<Rightarrow> ws_st res" where
  "ws_handle R (Ws_data d) st = ws_onData R d st"
| "ws_handle R (Ws_file e) (rl, c, lc) = Inr (rl, on_file e c, lc)"

fun ws_events :: "rpc_env \<Rightarrow> ws_event list \<Rightarrow> ws_st \<Rightarrow> ws_st res" where
  "ws_events R [] st = Inr st"
| "ws_events R (e # es) st = rbind (ws_handle R e st) (ws_events R es)"

fun opened_files :: "file_req list \<Rightarrow> string list" where
  "opened_files [] = []"
| "opened_files (Fs_open f # rs) = f # opened_files rs"
| "opened_files (_ # rs) = opened_files rs"

lemma opened_append: "opened_files (a @ b) = opened_files a @ opened_files b"
  by (induction a rule: opened_files.induct) simp_all

definition confined :: "ws_conn \<Rightarrow> bool" where
  "confined c \<longleftrightarrow> opened_files (ws_files c) = [] \<or>
     ws_wsState c = DEAD \<and> (\<exists>f. opened_files (ws_files c) = [''http_root/'' @ f] \<and> \<not> contains_str ''..'' f)"

lemma confined_write [simp]: "confined (ws_write t c) = confined c"
  by (simp add: confined_def ws_write_def)

lemma confined_file: "confined c \<Longrightarrow> confined (on_file e c)"
  by (cases e) (auto simp: confined_def ws_write_def opened_append Let_def)

lemma confined_sendFile:
  "sendFile p c = (t, c') \<Longrightarrow> opened_files (ws_files c) = [] \<Longrightarrow> ws_wsState c = DEAD \<Longrightarrow> confined c'"
  by (auto simp: sendFile_def confined_def opened_append Let_def split: if_splits)

lemma ws_request_files:
  "ws_request l c = Inr (t, c') \<Longrightarrow>
     ws_files c' = ws_files c \<or> sendFile (drop 1 (ws_path c)) (c\<lparr>ws_wsState := DEAD\<rparr>) = (t, c')"
  by (auto simp: ws_request_def rbind_eq_Inr Let_def split: if_splits option.splits)

lemma confined_line:
  assumes "confined c" and "ws_line l c = Inr c'"
  shows "confined c'"
proof (cases "ws_reading c")
  case True
  have none: "opened_files (ws_files c) = []" using assms(1) True by (auto simp: confined_def ws_reading_def)
  obtain t c1 where r: "ws_request l c = Inr (t, c1)" and c': "c' = ws_write t c1"
    using assms(2) by (auto simp: ws_line_def rbind_eq_Inr)
  have "confined c1"
    using ws_request_files [OF r] confined_sendFile [of _ "c\<lparr>ws_wsState := DEAD\<rparr>" t c1] none by (auto simp: confined_def)
  then show ?thesis by (simp add: c')
next
  case False
  then show ?thesis using assms by (simp add: ws_line_passive)
qed

lemma confined_feed: "cb = ws_line \<Longrightarrow> feed_loop cb b c = Inr (b', c') \<Longrightarrow> confined c \<Longrightarrow> confined c'"
proof (induction cb b c rule: feed_loop.induct)
  case (1 cb b c)
  show ?case
  proof (cases "cut_line b")
    case None
    with "1.prems" feed_loop.simps [of cb b c] show ?thesis by simp
  next
    case (Some p)
    obtain line rest where p: "p = (line, rest)" by fastforce
    have "rbind (strip_cr line) (\<lambda>l. rbind (cb l c) (feed_loop cb rest)) = Inr (b', c')"
      using Some p feed_loop.simps [of cb b c] "1.prems"(2) by simp
    then obtain l c1 where l: "strip_cr line = Inr l" "cb l c = Inr c1" "feed_loop cb rest c1 = Inr (b', c')"
      by (auto simp: rbind_eq_Inr)
    show ?thesis using "1.IH" [OF Some p [symmetric] l(1,2) "1.prems"(1) l(3)] "1.prems"(1,3) l(2) confined_line by blast
  qed
qed

lemma ws_loop_files: "ws_loop R st = Inr st' \<Longrightarrow> ws_files (fst st') = ws_files (fst st)"
proof (induction R st arbitrary: st' rule: ws_loop.induct)
  case (1 R st)
  from "1.prems" ws_loop.simps [of R st] obtain again st1 where
    t: "ws_turn R st = Inr (again, st1)" "(if again then ws_loop R st1 else Inr st1) = Inr st'"
    by (auto simp: rbind_eq_Inr)
  have "ws_files (fst st1) = ws_files (fst st)" using t(1) ws_turn_steps by (metis prod.collapse)
  then show ?case using "1.IH" [OF t(1) refl] t(2) by (auto split: if_splits)
qed

lemma confined_event:
  assumes "ws_handle R e (rl, c, lc) = Inr (rl', c', lc')" and "confined c"
  shows "confined c'"
proof (cases e)
  case (Ws_data d)
  consider "ws_reading c" | "ws_wsState c = DEAD" | "\<not> ws_reading c" "ws_wsState c \<noteq> DEAD" by blast
  then show ?thesis
  proof cases
    case 1
    then have "feed_loop ws_line (rl @ text_of d) c = Inr (rl', c')"
      using assms(1) Ws_data by (auto simp: ws_onData_def ws_reading_def rbind_eq_Inr feed_def)
    then show ?thesis using assms(2) confined_feed [OF refl] by blast
  next
    case 2
    then show ?thesis using assms Ws_data by (simp add: ws_onData_def)
  next
    case 3
    then obtain st' where "ws_loop R (c\<lparr>ws_bl := bl_add d (ws_bl c)\<rparr>, lc) = Inr st'" "fst st' = c'"
      using assms(1) Ws_data by (auto simp: ws_onData_def ws_reading_def rbind_eq_Inr)
    then have "ws_files c' = ws_files c" using ws_loop_files by fastforce
    then show ?thesis using assms(2) 3(2) by (auto simp: confined_def)
  qed
qed (use assms confined_file in auto)

lemma confined_events: "ws_events R es (rl, c, lc) = Inr (rl', c', lc') \<Longrightarrow> confined c \<Longrightarrow> confined c'"
proof (induction es arbitrary: rl c lc)
  case (Cons e es)
  then show ?case using confined_event by (auto simp: rbind_eq_Inr)
qed simp

text \<open>C10: The websocket server serves nothing outside its directory. Whatever bytes a client sends, and whatever the file system
  answers, a connection opens at most one file, its name is \<open>http_root/\<close> and a path in which no two dots follow each other,
  and a connection that has opened one reads no more requests.\<close>

theorem ws_files_confined:
  assumes "ws_events R es ([], new_ws token, lc) = Inr (rl, c, lc')"
  shows "opened_files (ws_files c) = [] \<or>
    ws_wsState c = DEAD \<and> (\<exists>f. opened_files (ws_files c) = [''http_root/'' @ f] \<and> \<not> contains_str ''..'' f)"
  using confined_events [OF assms] by (simp add: confined_def new_ws_def)

theorem ws_files_confined_witness:
  "\<exists>rl c lc'. ws_events example_rpc [Ws_data (bytes_of (''GET /../x HTTP/1.1'' @ [CR, LF] @ [CR, LF])), Ws_file File_opened]
      ([], new_ws ''key'', new_LanPlay boot) = Inr (rl, c, lc') \<and>
    (opened_files (ws_files c) = [] \<or>
     ws_wsState c = DEAD \<and> (\<exists>f. opened_files (ws_files c) = [''http_root/'' @ f] \<and> \<not> contains_str ''..'' f))"
proof -
  let ?d = "bytes_of (''GET /../x HTTP/1.1'' @ [CR, LF] @ [CR, LF])"
  have "run_lines ws_line [''GET /../x HTTP/1.1''] (new_ws ''key'') = Inr (requested ''key'' ''/../x'' [])"
    by (simp add: ws_line_def ws_request_def getPath_def split_at_def new_ws_def requested_def ws_write_def)
  then have "ws_segments example_rpc [?d] ([], new_ws ''key'', new_LanPlay boot) =
      rbind (ws_line [] (requested ''key'' ''/../x'' [])) (\<lambda>c'. Inr ([], c', new_LanPlay boot))"
    by (intro ws_request_read [of _ "[''GET /../x HTTP/1.1'']"])
      (simp_all del: append_Cons add: ws_reading_def requested_def, simp_all add: bytes_of_def)
  then have "ws_onData example_rpc ?d ([], new_ws ''key'', new_LanPlay boot) =
      Inr ([], answered (requested ''key'' ''/../x'' []), new_LanPlay boot)"
    using request_end [of "[]" "''key''" "''/../x''"]
    by (cases "ws_onData example_rpc ?d ([], new_ws ''key'', new_LanPlay boot)") simp_all
  then have "ws_events example_rpc [Ws_data ?d, Ws_file File_opened] ([], new_ws ''key'', new_LanPlay boot) =
      Inr ([], on_file File_opened (answered (requested ''key'' ''/../x'' [])), new_LanPlay boot)"
    by simp
  from ws_files_confined [OF this] this show ?thesis by blast
qed

section \<open>Frames in one segment\<close>

definition one_segment :: "bytes \<Rightarrow> nat \<Rightarrow> buffer_list" where
  "one_segment seg off = \<lparr>bl_list = [seg], bl_totalSize = length seg, bl_offset = off\<rparr>"

lemma one_segment_ops:
  "bl_size (one_segment seg off) = length seg - off"
  "off + n < length seg \<Longrightarrow> bl_advance n (one_segment seg off) = Inr (one_segment seg (off + n))"
  "off + n = length seg \<Longrightarrow> bl_advance n (one_segment seg off) = Inl Out_of_bounds"
  "off + k < length seg \<Longrightarrow> bl_get (one_segment seg off) k = Inr (seg ! (off + k))"
  by (simp_all add: one_segment_def bl_size_def bl_advance_def bl_get_def rd_def add.commute)

lemma one_segment_copyTo:
  "off + n \<le> length seg \<Longrightarrow> bl_copyTo (one_segment seg off) 0 n = Inr (take n (drop off seg))"
  using bl_copyTo_first [of "one_segment seg off" seg "[]" 0 n] by (simp add: one_segment_def bl_text_def)

text \<open>A masked text frame as RFC 6455 has it, from the key and the text: octet \<open>i\<close> of the payload is the exclusive or of octet \<open>i\<close> of the
  text with octet \<open>i mod 4\<close> of the key.\<close>

fun masked :: "bytes \<Rightarrow> bytes \<Rightarrow> bytes" where
  "masked k [] = []"
| "masked k (x # xs) = (hd k XOR x) # masked (rotate1 k) xs"

definition frame_head :: "nat \<Rightarrow> bytes" where
  "frame_head n =
     (if n < 126 then [0x81, of_nat (128 + n)] else [0x81, 0xFE, of_nat (n div 256), of_nat (n mod 256)])"

definition frame_bytes :: "bytes \<times> bytes \<Rightarrow> bytes" where
  "frame_bytes f = frame_head (length (snd f)) @ fst f @ masked (fst f) (snd f)"

definition frame_ok :: "bytes \<times> bytes \<Rightarrow> bool" where
  "frame_ok f \<longleftrightarrow> length (fst f) = 4 \<and> length (snd f) < 65536"

definition frame_read :: "bytes \<times> bytes \<Rightarrow> ws_frame" where
  "frame_read f = frame_clear\<lparr>fr_fin := True, fr_mask := True, fr_opcode := 1, fr_length := length (snd f), fr_maskBytes := fst f\<rparr>"

lemma length_unmask [simp]: "length (unmask k d) = length d"
  by (simp add: unmask_def)

lemma length_masked [simp]: "length (masked k d) = length d"
  by (induction k d rule: masked.induct) simp_all

lemma masked_nth: "length k = 4 \<Longrightarrow> i < length d \<Longrightarrow> masked k d ! i = k ! (i mod 4) XOR d ! i"
proof (induction k d arbitrary: i rule: masked.induct)
  case (2 k x xs)
  have hd: "hd k = k ! 0" using "2.prems"(1) by (cases k) simp_all
  show ?case
  proof (cases i)
    case (Suc j)
    have "rotate1 k ! (j mod 4) = k ! (Suc (j mod 4) mod 4)" using "2.prems"(1) by (simp add: nth_rotate1)
    then show ?thesis using "2.IH" [of j] "2.prems" Suc by (simp add: mod_Suc_eq)
  qed (use hd in simp)
qed simp

lemma unmask_masked: "length k = 4 \<Longrightarrow> unmask k (masked k d) = d"
  by (rule nth_equalityI) (simp_all add: unmask_def masked_nth xor.commute xor.left_commute)

lemma length_frame_head: "length (frame_head n) = (if n < 126 then 2 else 4)"
  by (simp add: frame_head_def)

lemma length_byte:
  assumes "n < 126"
  shows "(of_nat (128 + n) :: u8) AND 0x80 \<noteq> 0" and "unat ((of_nat (128 + n) :: u8) AND 0x7F) = n"
proof -
  have "\<forall>n \<in> {0..<126}. (of_nat (128 + n) :: u8) AND 0x80 \<noteq> 0 \<and> unat ((of_nat (128 + n) :: u8) AND 0x7F) = n"
    by code_simp
  then show "(of_nat (128 + n) :: u8) AND 0x80 \<noteq> 0" and "unat ((of_nat (128 + n) :: u8) AND 0x7F) = n" using assms by auto
qed

lemma step_header_frame:
  assumes "ws_wsState c = WAIT_DECODE_HEADER" and "ws_bl c = one_segment (pre @ frame_bytes f @ post) (length pre)" and "frame_ok f"
  shows "step_header c = Inr (True, c\<lparr>
      ws_frame := frame_clear\<lparr>fr_fin := True, fr_mask := True, fr_opcode := 1, fr_length := min 126 (length (snd f))\<rparr>,
      ws_wsState := (if length (snd f) < 126 then WAITING_FOR_MASK_KEY else WAITING_FOR_16_BIT_LENGTH),
      ws_bl := one_segment (pre @ frame_bytes f @ post) (length pre + 2)\<rparr>)"
  using assms length_byte [of "length (snd f)"]
  by (cases "length (snd f) < 126")
    (auto simp: step_header_def one_segment_ops frame_bytes_def frame_head_def frame_ok_def nth_append Let_def frame_clear_def)

lemma len16: "n < 65536 \<Longrightarrow> 256 * unat (of_nat (n div 256) :: u8) + unat (of_nat (n mod 256) :: u8) = n"
  by (simp add: unat_of_nat take_bit_eq_mod)

lemma step_len16_one:
  assumes "ws_wsState c = WAITING_FOR_16_BIT_LENGTH" and "ws_bl c = one_segment seg off" and "off + 2 < length seg"
  shows "step_len16 c = Inr (c\<lparr>ws_frame := (ws_frame c)\<lparr>fr_length := 256 * unat (seg ! off) + unat (seg ! (off + 1))\<rparr>,
      ws_wsState := WAITING_FOR_MASK_KEY, ws_bl := one_segment seg (off + 2)\<rparr>)"
  using assms by (cases c) (simp add: step_len16_def one_segment_ops)

lemma step_len16_frame:
  assumes "ws_wsState c = WAITING_FOR_16_BIT_LENGTH" and "ws_bl c = one_segment (pre @ frame_bytes f @ post) (length pre + 2)"
    and "frame_ok f" and "126 \<le> length (snd f)"
  shows "step_len16 c = Inr (c\<lparr>ws_frame := (ws_frame c)\<lparr>fr_length := length (snd f)\<rparr>, ws_wsState := WAITING_FOR_MASK_KEY,
      ws_bl := one_segment (pre @ frame_bytes f @ post) (length pre + 4)\<rparr>)"
proof -
  let ?n = "length (snd f)"
  let ?seg = "pre @ frame_bytes f @ post"
  have seg: "?seg = (pre @ [0x81, 0xFE]) @ of_nat (?n div 256) # of_nat (?n mod 256) # fst f @ masked (fst f) (snd f) @ post"
    using assms(4) by (simp add: frame_bytes_def frame_head_def)
  have "?seg ! (length pre + 2) = of_nat (?n div 256)" "?seg ! (length pre + 2 + 1) = of_nat (?n mod 256)"
    unfolding seg by (simp_all add: nth_append)
  moreover have "length pre + 2 + 2 < length ?seg" unfolding seg using assms(3) by (simp add: frame_ok_def)
  moreover have "256 * unat (of_nat (?n div 256) :: u8) + unat (of_nat (?n mod 256) :: u8) = ?n"
    using assms(3) by (intro len16) (simp add: frame_ok_def)
  moreover have "length pre + 4 = length pre + 2 + 2" by simp
  ultimately show ?thesis using step_len16_one [OF assms(1,2)] by (simp only:)
qed

text \<open>What the turn does up to the text of the frame.\<close>

lemma turn_payload:
  assumes "ws_wsState c = WAIT_DECODE_HEADER" and "ws_bl c = one_segment (pre @ frame_bytes f @ post) (length pre)" and "frame_ok f"
    and "snd f \<noteq> [] \<or> post \<noteq> []"
  shows "ws_turn R (c, lc) =
    rbind (step_payload R (c\<lparr>ws_frame := frame_read f,
      ws_bl := one_segment (pre @ frame_bytes f @ post) (length pre + length (frame_head (length (snd f))) + 4),
      ws_wsState := WAITING_FOR_PAYLOAD\<rparr>, lc)) (\<lambda>(c5, lc5).
    Inr (ws_wsState c5 = WAIT_DECODE_HEADER, c5, lc5))"
proof -
  let ?seg = "pre @ frame_bytes f @ post"
  let ?o = "length pre + length (frame_head (length (snd f)))"
  let ?fr = "frame_clear\<lparr>fr_fin := True, fr_mask := True, fr_opcode := 1, fr_length := length (snd f)\<rparr>"
  let ?c2 = "c\<lparr>ws_frame := ?fr, ws_wsState := WAITING_FOR_MASK_KEY, ws_bl := one_segment ?seg ?o\<rparr>"
  obtain c1 where c1: "step_header c = Inr (True, c1)" "step_len16 c1 = Inr ?c2"
    using step_header_frame [OF assms(1,2,3)] step_len16_frame [of _ pre f post] assms(3)
    by (cases "length (snd f) < 126") (auto simp: step_len16_def length_frame_head)
  have len: "?o + 4 < length ?seg" using assms(3,4) by (auto simp: frame_bytes_def frame_ok_def)
  have "take 4 (drop ?o ?seg) = fst f" using assms(3) by (simp add: frame_bytes_def frame_ok_def)
  then have "step_mask ?c2 = Inr (?c2\<lparr>ws_frame := frame_read f, ws_bl := one_segment ?seg (?o + 4), ws_wsState := WAITING_FOR_PAYLOAD\<rparr>)"
    using len one_segment_copyTo [of ?o 4 ?seg]
    by (simp add: step_mask_def one_segment_ops frame_read_def del: length_append append_assoc)
  with c1 show ?thesis by (simp add: ws_turn_def step_len64_def)
qed

lemma turn_frame:
  assumes "ws_wsState c = WAIT_DECODE_HEADER" and "ws_bl c = one_segment (pre @ frame_bytes f @ post) (length pre)" and "frame_ok f"
    and "post \<noteq> []"
  shows "ws_turn R (c, lc) =
    rbind (ws_message R (text_of (snd f)) (c\<lparr>ws_frame := frame_read f,
      ws_bl := one_segment (pre @ frame_bytes f @ post) (length (pre @ frame_bytes f))\<rparr>, lc)) (\<lambda>(c5, lc5).
    Inr (ws_wsState c5 = WAIT_DECODE_HEADER, c5, lc5))"
proof -
  let ?seg = "pre @ frame_bytes f @ post"
  let ?o = "length pre + length (frame_head (length (snd f))) + 4"
  let ?c4 = "c\<lparr>ws_frame := frame_read f, ws_bl := one_segment ?seg ?o, ws_wsState := WAITING_FOR_PAYLOAD\<rparr>"
  have len: "?o + length (snd f) = length (pre @ frame_bytes f)" "?o + length (snd f) < length ?seg"
    using assms(3,4) by (auto simp: frame_bytes_def frame_ok_def)
  have "take (length (snd f)) (drop ?o ?seg) = masked (fst f) (snd f)" using assms(3) by (simp add: frame_bytes_def frame_ok_def)
  then have copy: "bl_copyTo (one_segment ?seg ?o) 0 (length (snd f)) = Inr (masked (fst f) (snd f))"
    using one_segment_copyTo [of ?o "length (snd f)" ?seg] len(2) by (simp del: length_append)
  have adv: "bl_advance (length (snd f)) (one_segment ?seg ?o) = Inr (one_segment ?seg (length (pre @ frame_bytes f)))"
    using one_segment_ops(2) [OF len(2)] len(1) by simp
  have size: "length (snd f) \<le> bl_size (one_segment ?seg ?o)" using len(2) by (simp add: one_segment_ops(1) del: length_append)
  have "c\<lparr>ws_frame := g, ws_bl := b, ws_wsState := WAIT_DECODE_HEADER\<rparr> = c\<lparr>ws_frame := g, ws_bl := b\<rparr>" for g b
    using assms(1) by (cases c) simp
  then have "step_payload R (?c4, lc) = ws_message R (text_of (snd f)) (c\<lparr>ws_frame := frame_read f,
      ws_bl := one_segment ?seg (length (pre @ frame_bytes f))\<rparr>, lc)"
    using copy adv size unmask_masked [of "fst f" "snd f"] assms(3)
    by (simp add: step_payload_def onFrame_def frame_read_def frame_ok_def del: length_append append_assoc)
  then show ?thesis using turn_payload [OF assms(1,2,3)] assms(4) by simp
qed

lemma sendText_commute: "sendText t (c\<lparr>ws_frame := f, ws_bl := b\<rparr>) = (sendText t c)\<lparr>ws_frame := f, ws_bl := b\<rparr>"
  "sendText t (c\<lparr>ws_frame := f, ws_bl := b, ws_authed := a\<rparr>) = (sendText t (c\<lparr>ws_authed := a\<rparr>))\<lparr>ws_frame := f, ws_bl := b\<rparr>"
  by (simp_all add: sendText_def ws_write_def Let_def)

lemma ws_message_commute:
  "ws_message R l (c\<lparr>ws_frame := f, ws_bl := b\<rparr>, lc) =
     rbind (ws_message R l (c, lc)) (\<lambda>(c', lc'). Inr (c'\<lparr>ws_frame := f, ws_bl := b\<rparr>, lc'))"
  by (cases "onMessage R l lc") (auto simp: ws_message_def sendText_commute)

text \<open>The loop over a segment of frames and one more byte.\<close>

lemma loop_frames:
  assumes "ws_wsState c = WAIT_DECODE_HEADER" and "\<forall>f \<in> set fs. frame_ok f"
  shows "ws_loop R (c\<lparr>ws_frame := f0, ws_bl := one_segment (pre @ concat (map frame_bytes fs) @ [x]) (length pre)\<rparr>, lc) =
    rbind (run_lines (ws_message R) (map (\<lambda>f. text_of (snd f)) fs) (c, lc)) (\<lambda>(c', lc').
    Inr (c'\<lparr>ws_frame := last (f0 # map frame_read fs),
            ws_bl := one_segment (pre @ concat (map frame_bytes fs) @ [x]) (length (pre @ concat (map frame_bytes fs)))\<rparr>, lc'))"
  using assms
proof (induction fs arbitrary: c lc f0 pre)
  case Nil
  have "ws_turn R (c\<lparr>ws_frame := f0, ws_bl := one_segment (pre @ [x]) (length pre)\<rparr>, lc) =
      Inr (False, c\<lparr>ws_frame := f0, ws_bl := one_segment (pre @ [x]) (length pre)\<rparr>, lc)"
    using Nil.prems by (simp add: ws_turn_def step_header_def one_segment_ops)
  then show ?case by (simp add: ws_loop.simps)
next
  case (Cons f fs)
  let ?post = "concat (map frame_bytes fs) @ [x]"
  let ?seg = "pre @ frame_bytes f @ ?post"
  let ?c = "c\<lparr>ws_frame := f0, ws_bl := one_segment ?seg (length pre)\<rparr>"
  have turn: "ws_turn R (?c, lc) = rbind (ws_message R (text_of (snd f)) (c, lc)) (\<lambda>(c1, lc1).
      Inr (ws_wsState c1 = WAIT_DECODE_HEADER,
        c1\<lparr>ws_frame := frame_read f, ws_bl := one_segment ?seg (length (pre @ frame_bytes f))\<rparr>, lc1))"
    using turn_frame [of ?c pre f ?post R lc] Cons.prems
      ws_message_commute [of R "text_of (snd f)" "one_segment ?seg (length (pre @ frame_bytes f))" "frame_read f" c lc]
    by (cases "ws_message R (text_of (snd f)) (c, lc)") (auto simp del: length_append)
  show ?case
  proof (cases "ws_message R (text_of (snd f)) (c, lc)")
    case (Inl e)
    then show ?thesis using turn by (simp add: ws_loop.simps del: length_append)
  next
    case (Inr p)
    obtain c1 lc1 where p: "p = (c1, lc1)" by fastforce
    have c1: "ws_wsState c1 = WAIT_DECODE_HEADER" using ws_message_keeps [of R _ c lc c1 lc1] Inr p Cons.prems(1) by simp
    have "ws_loop R (?c, lc) =
        ws_loop R (c1\<lparr>ws_frame := frame_read f, ws_bl := one_segment ?seg (length (pre @ frame_bytes f))\<rparr>, lc1)"
      using turn Inr p c1 by (simp add: ws_loop.simps [of R "(?c, lc)"] del: length_append)
    also have "\<dots> = rbind (run_lines (ws_message R) (map (\<lambda>f. text_of (snd f)) fs) (c1, lc1)) (\<lambda>(c', lc').
      Inr (c'\<lparr>ws_frame := last (frame_read f # map frame_read fs),
              ws_bl := one_segment ?seg (length (pre @ concat (map frame_bytes (f # fs))))\<rparr>, lc'))"
      using Cons.IH [where c = c1 and ?f0.0 = "frame_read f" and pre = "pre @ frame_bytes f" and lc = lc1] c1 Cons.prems(2) by (simp del: length_append)
    finally show ?thesis using Inr p by (simp del: length_append)
  qed
qed



text \<open>C38: A frame that ends where the received bytes end is not run. A segment that is exactly one masked text frame, as
  clients send them, reads the size of the first segment of the emptied queue before the frame is handled, whatever its text.\<close>

theorem ws_single_frame_faults:
  assumes "ws_wsState c = WAIT_DECODE_HEADER" and "ws_bl c = bl_empty" and "frame_ok f" and "snd f \<noteq> []"
  shows "ws_onData R (frame_bytes f) (rl, c, lc) = Inl Out_of_bounds"
proof -
  let ?c = "c\<lparr>ws_bl := one_segment (frame_bytes f) 0\<rparr>"
  let ?o = "length (frame_head (length (snd f))) + 4"
  have add: "bl_add (frame_bytes f) (ws_bl c) = one_segment (frame_bytes f) 0"
    using assms(2) by (simp add: bl_add_def bl_empty_def one_segment_def)
  have len: "?o + length (snd f) = length (frame_bytes f)" using assms(3) by (simp add: frame_bytes_def frame_ok_def)
  then have "step_payload R (?c\<lparr>ws_frame := frame_read f, ws_bl := one_segment (frame_bytes f) ?o,
      ws_wsState := WAITING_FOR_PAYLOAD\<rparr>, lc) = Inl Out_of_bounds"
    using one_segment_copyTo [of ?o "length (snd f)" "frame_bytes f"] one_segment_ops(3) [OF len]
    by (simp add: step_payload_def one_segment_ops(1) frame_read_def)
  then have "ws_turn R (?c, lc) = Inl Out_of_bounds"
    using turn_payload [of ?c "[]" f "[]" R lc] assms by simp
  then show ?thesis using assms(1) add by (simp add: ws_onData_def ws_loop.simps)
qed

theorem ws_single_frame_faults_witness:
  "ws_onData example_rpc (frame_bytes ([1, 2, 3, 4], bytes_of ''key''))
     ([], (new_ws ''key'')\<lparr>ws_wsState := WAIT_DECODE_HEADER\<rparr>, new_LanPlay boot) = Inl Out_of_bounds"
  by (rule ws_single_frame_faults) (simp_all add: new_ws_def frame_ok_def bytes_of_def)

end
