(* ===== verification/Uvl.thy ===== *)
theory Uvl
  imports Prelude
begin

text \<open>
  The sockets that \<open>uv_lwip.c\<close> puts on top of the TCP stack lwIP: the queue of write requests with
  their progress, the receive buffer, and the closing of a connection. The stack is only called: its
  part of a connection is the free space of its send buffer, the bytes it has accepted, and how many
  of them are not acknowledged; its answers are a parameter. The calls of the owner's callbacks are a
  log, in order.
\<close>

section \<open>State\<close>

definition ERR_OK :: int where "ERR_OK = 0"
definition ERR_MEM :: int where "ERR_MEM = -1"
definition ERR_IF :: int where "ERR_IF = -12"
definition ERR_ABRT :: int where "ERR_ABRT = -13"
definition UV_EOF :: int where "UV_EOF = -4095"
definition UV_ECANCELED :: int where "UV_ECANCELED = -125"
definition UV_EALREADY :: int where "UV_EALREADY = -114"
definition UVL_NBUF_LEN :: nat where "UVL_NBUF_LEN = 10"

record tcp_pcb =
  tp_sndbuf :: nat
  tp_out :: bytes
  tp_unacked :: nat

text \<open>What the stack and libuv answer: the result of the next \<open>tcp_write\<close>, of \<open>tcp_output\<close>, of
  \<open>tcp_close\<close> and of \<open>uv_async_send\<close>, and the size \<open>TCP_WND\<close> of the receive buffer.\<close>

record stack =
  sk_write :: "tcp_pcb \<Rightarrow> int"
  sk_output :: int
  sk_close :: int
  sk_async :: int
  sk_wnd :: nat

record uvl_write =
  uw_id :: nat
  uw_bufs :: "bytes list"
  uw_sent_bufs :: nat
  uw_sent :: nat
  uw_pending :: nat
  uw_total_sent :: nat
  uw_total_len :: nat

datatype uvl_cb = Read_cb int bytes | Write_cb nat int | Close_cb

record uvl_tcp =
  ut_recv :: bytes
  ut_writes :: "uvl_write list"
  ut_reading :: bool
  ut_closed :: bool
  ut_pcb :: "tcp_pcb option"
  ut_closed_handle :: nat
  ut_closing :: bool
  ut_log :: "uvl_cb list"

definition uvl_tcp_init :: uvl_tcp where
  "uvl_tcp_init =
     \<lparr>ut_recv = [], ut_writes = [], ut_reading = False, ut_closed = False, ut_pcb = None,
      ut_closed_handle = 0, ut_closing = False, ut_log = []\<rparr>"

definition uvl_accept :: "tcp_pcb \<Rightarrow> uvl_tcp \<Rightarrow> uvl_tcp" where
  "uvl_accept newpcb c = c\<lparr>ut_pcb := Some newpcb, ut_closed_handle := 0\<rparr>"

section \<open>Closing\<close>

text \<open>The callback that reading has, if any, is told the end and then dropped.\<close>

definition read_end :: "int \<Rightarrow> uvl_tcp \<Rightarrow> uvl_tcp" where
  "read_end status c =
     (if ut_reading c then c\<lparr>ut_log := ut_log c @ [Read_cb status []], ut_reading := False\<rparr> else c)"

definition uvl_client_freed :: "uvl_tcp \<Rightarrow> uvl_tcp" where
  "uvl_client_freed c = read_end UV_EOF (c\<lparr>ut_pcb := None, ut_closed := True\<rparr>)"

definition uvl_client_abort :: "uvl_tcp \<Rightarrow> (int \<times> uvl_tcp) res" where
  "uvl_client_abort c =
     (if ut_pcb c = None \<or> ut_closed c then Inl Assert_failed else Inr (ERR_ABRT, uvl_client_freed c))"

definition uvl_client_close_func :: "stack \<Rightarrow> uvl_tcp \<Rightarrow> (int \<times> uvl_tcp) res" where
  "uvl_client_close_func S c =
     (if ut_closed c then Inl Assert_failed
      else if ut_pcb c = None then Inl Out_of_bounds
      else if sk_close S = ERR_OK then Inr (ERR_OK, uvl_client_freed c)
      else uvl_client_abort c)"

definition uvl_client_err_func :: "uvl_tcp \<Rightarrow> uvl_tcp" where
  "uvl_client_err_func c = uvl_client_freed c"

definition uvl_cancel_reqs :: "uvl_tcp \<Rightarrow> uvl_tcp" where
  "uvl_cancel_reqs c =
     read_end UV_ECANCELED (c\<lparr>ut_log := ut_log c @ map (\<lambda>r. Write_cb (uw_id r) UV_ECANCELED) (ut_writes c), ut_writes := []\<rparr>)"

definition uvl_tcp_close :: "stack \<Rightarrow> uvl_tcp \<Rightarrow> (int \<times> uvl_tcp) res" where
  "uvl_tcp_close S c =
     rbind (if ut_closed c then Inr (0, c) else uvl_client_close_func S c) (\<lambda>(_, c1).
     Inr (0, (uvl_cancel_reqs c1)\<lparr>ut_closing := True\<rparr>))"

text \<open>The two handles of a connection are closed by libuv one after the other.\<close>

definition uvl_tcp_close_handle_cb :: "uvl_tcp \<Rightarrow> uvl_tcp" where
  "uvl_tcp_close_handle_cb c =
     (let c1 = c\<lparr>ut_closed_handle := ut_closed_handle c + 1\<rparr> in
      if ut_closed_handle c1 = 2 then
        c1\<lparr>ut_recv := [], ut_writes := [], ut_reading := False, ut_pcb := None, ut_closed_handle := 0,
           ut_closing := False, ut_log := ut_log c1 @ [Close_cb]\<rparr>
      else c1)"

section \<open>Writing\<close>

definition uvl_write_req :: "nat \<Rightarrow> bytes list \<Rightarrow> uvl_tcp \<Rightarrow> uvl_tcp" where
  "uvl_write_req i bufs c =
     c\<lparr>ut_writes := ut_writes c @ [\<lparr>uw_id = i, uw_bufs = bufs, uw_sent_bufs = 0, uw_sent = 0, uw_pending = 0,
        uw_total_sent = 0, uw_total_len = length (concat bufs)\<rparr>]\<rparr>"

definition tcp_write :: "bytes \<Rightarrow> tcp_pcb \<Rightarrow> tcp_pcb" where
  "tcp_write bs p =
     p\<lparr>tp_sndbuf := tp_sndbuf p - length bs, tp_out := tp_out p @ bs, tp_unacked := tp_unacked p + length bs\<rparr>"

definition req_wrote :: "nat \<Rightarrow> uvl_write \<Rightarrow> uvl_write" where
  "req_wrote n r =
     r\<lparr>uw_sent := uw_sent r + n, uw_pending := uw_pending r + n, uw_total_sent := uw_total_sent r + n\<rparr>"

text \<open>The loop of \<open>uvl_imp_write_buf_to_tcp\<close>: it goes on to \<open>may_next\<close>, or the function returns.\<close>

datatype buf_end = May_next | Return int

function write_buf_loop :: "stack \<Rightarrow> bytes \<Rightarrow> uvl_tcp \<Rightarrow> uvl_write \<Rightarrow> (buf_end \<times> uvl_tcp \<times> uvl_write) res" where
  "write_buf_loop S buf c r =
     (case ut_pcb c of
        None \<Rightarrow> Inl Out_of_bounds
      | Some p \<Rightarrow>
          let to_write = min (length buf - uw_sent r) (tp_sndbuf p) in
          if to_write = 0 then Inr (May_next, c, r)
          else if sk_write S p \<noteq> ERR_OK then
            if sk_write S p = ERR_MEM then Inr (Return 0, c, r)
            else rbind (uvl_client_close_func S c) (\<lambda>(e, c'). Inr (Return e, c', r))
          else
            let c' = c\<lparr>ut_pcb := Some (tcp_write (take to_write (drop (uw_sent r) buf)) p)\<rparr>;
                r' = req_wrote to_write r in
            if uw_sent r' < length buf then write_buf_loop S buf c' r' else Inr (May_next, c', r'))"
  by auto
termination
  by (relation "measure (\<lambda>(S, buf, c, r). length buf - uw_sent r)") (auto simp: req_wrote_def)

declare write_buf_loop.simps [simp del]

lemma close_func_result: "uvl_client_close_func S c = Inr (e, c') \<Longrightarrow> e = 0 \<or> e = ERR_ABRT"
  by (auto simp: uvl_client_close_func_def uvl_client_abort_def ERR_OK_def split: if_splits)

lemma write_buf_loop_keeps:
  "write_buf_loop S buf c r = Inr (e, c', r') \<Longrightarrow>
     uw_bufs r' = uw_bufs r \<and> uw_sent_bufs r' = uw_sent_bufs r \<and> uw_id r' = uw_id r \<and>
     uw_total_len r' = uw_total_len r \<and> (e = May_next \<or> e = Return 0 \<or> e = Return ERR_ABRT)"
proof (induction S buf c r rule: write_buf_loop.induct)
  case (1 S buf c r)
  note unf = write_buf_loop.simps [of S buf c r]
  obtain p where p: "ut_pcb c = Some p" using "1.prems" unf by (cases "ut_pcb c") auto
  define n where "n = min (length buf - uw_sent r) (tp_sndbuf p)"
  define c1 where "c1 = c\<lparr>ut_pcb := Some (tcp_write (take n (drop (uw_sent r) buf)) p)\<rparr>"
  define r1 where "r1 = req_wrote n r"
  have r1: "uw_bufs r1 = uw_bufs r" "uw_sent_bufs r1 = uw_sent_bufs r" "uw_id r1 = uw_id r" "uw_total_len r1 = uw_total_len r"
    by (simp_all add: r1_def req_wrote_def)
  consider "n = 0 \<or> sk_write S p \<noteq> ERR_OK" | "n \<noteq> 0" "sk_write S p = ERR_OK" "uw_sent r1 < length buf"
    | "n \<noteq> 0" "sk_write S p = ERR_OK" "\<not> uw_sent r1 < length buf" by blast
  then show ?case
  proof cases
    case 1
    then show ?thesis using "1.prems" unf p
      by (auto simp: Let_def n_def [symmetric] rbind_eq_Inr dest: close_func_result split: if_splits)
  next
    case 2
    then have "write_buf_loop S buf c1 r1 = Inr (e, c', r')"
      using "1.prems" unf p by (simp add: Let_def n_def [symmetric] c1_def [symmetric] r1_def [symmetric])
    with "1.IH" [OF p n_def _ _ c1_def r1_def] 2 r1 show ?thesis by simp
  next
    case 3
    then show ?thesis
      using "1.prems" unf p r1 by (simp add: Let_def n_def [symmetric] c1_def [symmetric] r1_def [symmetric])
  qed
qed

definition uvl_imp_write_buf_to_tcp :: "stack \<Rightarrow> uvl_tcp \<Rightarrow> uvl_write \<Rightarrow> (int \<times> uvl_tcp \<times> uvl_write) res" where
  "uvl_imp_write_buf_to_tcp S c r =
     (if \<not> uw_sent_bufs r < length (uw_bufs r) then Inl Out_of_bounds
      else
        rbind (write_buf_loop S (uw_bufs r ! uw_sent_bufs r) c r) (\<lambda>(e, c1, r1).
        case e of
          Return ret \<Rightarrow> Inr (ret, c1, r1)
        | May_next \<Rightarrow>
            (case ut_pcb c1 of
               None \<Rightarrow> Inl Out_of_bounds
             | Some p \<Rightarrow>
                 if tp_sndbuf p = 0 then Inr (0, c1, r1)
                 else Inr (1, c1, r1\<lparr>uw_sent := 0, uw_sent_bufs := uw_sent_bufs r1 + 1\<rparr>))))"

lemma imp_write_buf_next:
  assumes "uvl_imp_write_buf_to_tcp S c r = Inr (1, c1, r1)"
  shows "uw_bufs r1 = uw_bufs r \<and> uw_sent_bufs r1 = Suc (uw_sent_bufs r) \<and> uw_sent_bufs r < length (uw_bufs r)"
proof -
  from assms obtain e c2 r2 where w: "write_buf_loop S (uw_bufs r ! uw_sent_bufs r) c r = Inr (e, c2, r2)"
    and lt: "uw_sent_bufs r < length (uw_bufs r)"
    by (auto simp: uvl_imp_write_buf_to_tcp_def rbind_eq_Inr split: if_splits)
  note k = write_buf_loop_keeps [OF w]
  show ?thesis using assms k lt
    by (auto simp: uvl_imp_write_buf_to_tcp_def w ERR_ABRT_def split: buf_end.splits option.splits if_splits)
qed

text \<open>The second loop of \<open>uvl_imp_write_to_tcp\<close>, over the requests in \<open>todo\<close>; \<open>passed\<close> are those it has
  worked off. A result other than 0, 1 and -1 comes from an aborted connection and goes into the next turn,
  which asks the freed connection for its send buffer.\<close>

function write_reqs :: "stack \<Rightarrow> uvl_tcp \<Rightarrow> uvl_write list \<Rightarrow> uvl_write list \<Rightarrow> (bool \<times> uvl_tcp) res" where
  "write_reqs S c passed todo =
     (case todo of
        [] \<Rightarrow> Inr (True, c\<lparr>ut_writes := passed\<rparr>)
      | r # rest \<Rightarrow>
          rbind (uvl_imp_write_buf_to_tcp S c r) (\<lambda>(ret, c1, r1).
          if ret = 0 then Inr (True, c1\<lparr>ut_writes := passed @ r1 # rest\<rparr>)
          else if ret = -1 then Inr (False, c1\<lparr>ut_writes := passed @ r1 # rest\<rparr>)
          else if ret \<noteq> 1 then Inl Out_of_bounds
          else if uw_sent_bufs r1 = length (uw_bufs r1) then write_reqs S c1 (passed @ [r1]) rest
          else write_reqs S c1 passed (r1 # rest)))"
  by auto
termination
proof (relation "measure (\<lambda>(S, c, passed, todo). sum_list (map (\<lambda>r. Suc (length (uw_bufs r) - uw_sent_bufs r)) todo))",
    goal_cases)
  case (3 S c passed todo r rest p ret q c1 r1)
  from imp_write_buf_next [of S c r c1 r1] 3 show ?case by auto
qed auto

declare write_reqs.simps [simp del]

definition uvl_imp_write_to_tcp :: "stack \<Rightarrow> uvl_tcp \<Rightarrow> uvl_tcp res" where
  "uvl_imp_write_to_tcp S c =
     (if ut_writes c = [] \<or> ut_pcb c = None then Inl Assert_failed
      else
        let passed = takeWhile (\<lambda>r. \<not> uw_sent_bufs r < length (uw_bufs r)) (ut_writes c);
            todo = dropWhile (\<lambda>r. \<not> uw_sent_bufs r < length (uw_bufs r)) (ut_writes c) in
        rbind (write_reqs S c passed todo) (\<lambda>(go, c1).
        if \<not> go then Inr c1
        else if ut_pcb c1 = None then Inl Out_of_bounds
        else if sk_output S \<noteq> ERR_OK then rbind (uvl_client_close_func S c1) (\<lambda>(_, c2). Inr c2)
        else Inr c1))"

text \<open>The requests whose bytes are all acknowledged are reported and dropped, in order.\<close>

definition req_done :: "uvl_write \<Rightarrow> bool" where
  "req_done r \<longleftrightarrow> uw_total_sent r = uw_total_len r \<and> uw_pending r = 0"

definition uvl_async_tcp_write_cb :: "stack \<Rightarrow> uvl_tcp \<Rightarrow> uvl_tcp res" where
  "uvl_async_tcp_write_cb S c =
     (let c1 = c\<lparr>ut_log := ut_log c @ map (\<lambda>r. Write_cb (uw_id r) 0) (takeWhile req_done (ut_writes c)),
                 ut_writes := dropWhile req_done (ut_writes c)\<rparr> in
      if ut_closed c1 then Inr (uvl_cancel_reqs c1)
      else if ut_writes c1 \<noteq> [] then uvl_imp_write_to_tcp S c1
      else Inr c1)"

text \<open>An acknowledgement of \<open>len\<close> bytes, taken off the requests in order.\<close>

fun sent_loop :: "nat \<Rightarrow> uvl_write list \<Rightarrow> uvl_write list res" where
  "sent_loop len rs =
     (if len = 0 then Inr rs
      else case rs of
             [] \<Rightarrow> Inl Out_of_bounds
           | r # rest \<Rightarrow>
               let to_sub = min (uw_pending r) len in
               rbind (sent_loop (len - to_sub) rest) (\<lambda>rest'.
               Inr (r\<lparr>uw_pending := uw_pending r - to_sub\<rparr> # rest')))"

declare sent_loop.simps [simp del]

definition uvl_client_sent_func :: "nat \<Rightarrow> uvl_tcp \<Rightarrow> uvl_tcp res" where
  "uvl_client_sent_func len c =
     (if ut_closed c \<or> len = 0 then Inl Assert_failed
      else rbind (sent_loop len (ut_writes c)) (\<lambda>ws. Inr (c\<lparr>ut_writes := ws\<rparr>)))"

section \<open>Reading\<close>

definition uvl_client_recv_func :: "stack \<Rightarrow> bytes option \<Rightarrow> uvl_tcp \<Rightarrow> (int \<times> uvl_tcp) res" where
  "uvl_client_recv_func S p c =
     (if ut_closed c then Inl Assert_failed
      else case p of
             None \<Rightarrow> uvl_client_close_func S c
           | Some d \<Rightarrow>
               if d = [] then Inl Assert_failed
               else if length d > sk_wnd S - length (ut_recv c) then Inr (ERR_MEM, c)
               else Inr (if sk_async S = 0 then ERR_OK else ERR_ABRT, c\<lparr>ut_recv := ut_recv c @ d\<rparr>))"

text \<open>The owner's allocation gives the 64 KB it is asked for, which hold every receive buffer.\<close>

definition uvl_async_tcp_read_cb :: "stack \<Rightarrow> uvl_tcp \<Rightarrow> uvl_tcp res" where
  "uvl_async_tcp_read_cb S c =
     (if length (ut_recv c) > sk_wnd S then Inl Assert_failed
      else if ut_reading c \<and> ut_recv c \<noteq> [] then
        Inr (c\<lparr>ut_recv := [], ut_log := ut_log c @ [Read_cb (int (length (ut_recv c))) (ut_recv c)]\<rparr>)
      else Inr c)"

definition uvl_read_start :: "stack \<Rightarrow> uvl_tcp \<Rightarrow> int \<times> uvl_tcp" where
  "uvl_read_start S c =
     (if ut_reading c then (UV_EALREADY, c)
      else if ut_closed c then (0, c\<lparr>ut_log := ut_log c @ [Read_cb UV_EOF []]\<rparr>)
      else if sk_async S = 0 then (0, c\<lparr>ut_reading := True\<rparr>)
      else (sk_async S, c))"

definition uvl_read_stop :: "uvl_tcp \<Rightarrow> int \<times> uvl_tcp" where
  "uvl_read_stop c = (0, c\<lparr>ut_reading := False\<rparr>)"

section \<open>The network interface\<close>

text \<open>Output: the pieces of a packet, of which there is room for fewer than ten, and \<open>onUvlOutput\<close> of
  the owner, which joins them in a buffer of 8192 bytes.\<close>

definition uvl_netif_output_func :: "bytes list \<Rightarrow> bytes list res" where
  "uvl_netif_output_func bufs =
     (if length bufs > UVL_NBUF_LEN then Inl Out_of_bounds
      else if \<not> length bufs < UVL_NBUF_LEN then Inl Assert_failed
      else Inr bufs)"

fun onUvlOutput :: "bytes list \<Rightarrow> bytes \<Rightarrow> bytes res" where
  "onUvlOutput [] acc = Inr acc"
| "onUvlOutput (b # bs) acc =
     (if length acc + length b < 8192 then onUvlOutput bs (acc @ b) else Inl Assert_failed)"

datatype ip_input = Ip4_input bytes | Ip6_input bytes | Dropped

definition uvl_netif_input_func :: "bytes \<Rightarrow> ip_input" where
  "uvl_netif_input_func p =
     (let ip_version = (if length p > 0 then drop_bit 4 (p ! 0) else 0) in
      if ip_version = 4 then Ip4_input p else if ip_version = 6 then Ip6_input p else Dropped)"

text \<open>Every fourth tick of the timer runs the slow timers.\<close>

definition uvl_timer :: "nat \<Rightarrow> nat \<times> bool" where
  "uvl_timer tcp_timer_mod4 = (let m = (tcp_timer_mod4 + 1) mod 4 in (m, m = 0))"

section \<open>The queue of writes as a stream\<close>

definition good :: "stack \<Rightarrow> bool" where
  "good S \<longleftrightarrow> (\<forall>p. sk_write S p = ERR_OK \<or> sk_write S p = ERR_MEM) \<and> sk_output S = ERR_OK"

definition req_unsent :: "uvl_write \<Rightarrow> bytes" where
  "req_unsent r = drop (uw_total_sent r) (concat (uw_bufs r))"

definition passed :: "uvl_write \<Rightarrow> bool" where
  "passed r \<longleftrightarrow> uw_sent_bufs r = length (uw_bufs r)"

definition req_ok :: "uvl_write \<Rightarrow> bool" where
  "req_ok r \<longleftrightarrow> uw_bufs r \<noteq> [] \<and> uw_total_len r = length (concat (uw_bufs r)) \<and> uw_pending r \<le> uw_total_sent r \<and>
     (if passed r then uw_total_sent r = uw_total_len r
      else uw_sent_bufs r < length (uw_bufs r) \<and> uw_sent r \<le> length (uw_bufs r ! uw_sent_bufs r) \<and>
           uw_total_sent r = length (concat (take (uw_sent_bufs r) (uw_bufs r))) + uw_sent r)"

definition fresh :: "uvl_write \<Rightarrow> bool" where
  "fresh r \<longleftrightarrow> uw_sent_bufs r = 0 \<and> uw_sent r = 0 \<and> uw_total_sent r = 0 \<and> uw_pending r = 0"

text \<open>Requests are worked off in order: those before the first unfinished one are passed, those after
  it are untouched.\<close>

fun queue_ok :: "uvl_write list \<Rightarrow> bool" where
  "queue_ok [] = True"
| "queue_ok (r # rs) \<longleftrightarrow> req_ok r \<and> (if passed r then queue_ok rs else \<forall>x \<in> set rs. req_ok x \<and> fresh x)"

lemma tcp_write_write: "tcp_write b (tcp_write a p) = tcp_write (a @ b) p"
  by (simp add: tcp_write_def)

lemma tcp_write_Nil [simp]: "tcp_write [] p = p"
  by (simp add: tcp_write_def)

lemma req_wrote_wrote: "req_wrote b (req_wrote a r) = req_wrote (a + b) r"
  by (simp add: req_wrote_def)

lemma req_wrote_0 [simp]: "req_wrote 0 r = r"
  by (simp add: req_wrote_def)

lemma queue_ok_fresh: "\<forall>x \<in> set rs. req_ok x \<and> fresh x \<Longrightarrow> queue_ok rs"
  by (induction rs) (auto simp: passed_def)

lemma queue_ok_req: "queue_ok rs \<Longrightarrow> r \<in> set rs \<Longrightarrow> req_ok r"
  by (induction rs) (auto split: if_splits)

lemma queue_ok_append: "(\<forall>x \<in> set as. req_ok x \<and> passed x) \<Longrightarrow> queue_ok bs \<Longrightarrow> queue_ok (as @ bs)"
  by (induction as) auto

lemma write_buf_loop_good:
  assumes "good S" and "ut_pcb c = Some p" and "uw_sent r \<le> length buf"
  shows "\<exists>e n. write_buf_loop S buf c r =
      Inr (e, c\<lparr>ut_pcb := Some (tcp_write (take n (drop (uw_sent r) buf)) p)\<rparr>, req_wrote n r) \<and>
    n \<le> length buf - uw_sent r \<and> n \<le> tp_sndbuf p \<and>
    (e = Return 0 \<and> (\<exists>q. sk_write S q \<noteq> ERR_OK) \<or> e = May_next \<and> (uw_sent r + n = length buf \<or> n = tp_sndbuf p))"
  using assms
proof (induction S buf c r arbitrary: p rule: write_buf_loop.induct)
  case (1 S buf c r)
  note unf = write_buf_loop.simps [of S buf c r] and p = "1.prems"(2)
  define m where "m = min (length buf - uw_sent r) (tp_sndbuf p)"
  define bs where "bs = take m (drop (uw_sent r) buf)"
  define c1 where "c1 = c\<lparr>ut_pcb := Some (tcp_write bs p)\<rparr>"
  define r1 where "r1 = req_wrote m r"
  have bs: "length bs = m" by (simp add: bs_def m_def)
  have same: "c\<lparr>ut_pcb := Some p\<rparr> = c" using p by simp
  consider "m = 0" | "m \<noteq> 0" "sk_write S p = ERR_MEM" "sk_write S p \<noteq> ERR_OK"
    | "m \<noteq> 0" "sk_write S p = ERR_OK" "uw_sent r1 < length buf"
    | "m \<noteq> 0" "sk_write S p = ERR_OK" "\<not> uw_sent r1 < length buf"
    using "1.prems"(1) unfolding good_def by (metis)
  then show ?case
  proof cases
    case 1
    then have "write_buf_loop S buf c r = Inr (May_next, c, r)"
      using unf p by (simp add: Let_def m_def [symmetric])
    moreover have "uw_sent r + 0 = length buf \<or> 0 = tp_sndbuf p" using 1 "1.prems"(3) by (auto simp: m_def min_def split: if_splits)
    ultimately show ?thesis using same by (intro exI [of _ May_next] exI [of _ 0]) simp
  next
    case 2
    then have "write_buf_loop S buf c r = Inr (Return 0, c, r)"
      using unf p by (simp add: Let_def m_def [symmetric])
    moreover have "\<exists>q. sk_write S q \<noteq> ERR_OK" using 2(3) by blast
    ultimately show ?thesis using same by (intro exI [of _ "Return 0"] exI [of _ 0]) simp
  next
    case 3
    then have step: "write_buf_loop S buf c r = write_buf_loop S buf c1 r1"
      using unf p by (simp add: Let_def m_def [symmetric] bs_def [symmetric] c1_def [symmetric] r1_def [symmetric])
    have "ut_pcb c1 = Some (tcp_write bs p)" by (simp add: c1_def)
    from "1.IH" [OF p m_def _ _ c1_def [unfolded bs_def] r1_def 3(3) "1.prems"(1) this [unfolded bs_def]] 3
    obtain e n where n: "write_buf_loop S buf c1 r1 =
        Inr (e, c1\<lparr>ut_pcb := Some (tcp_write (take n (drop (uw_sent r1) buf)) (tcp_write bs p))\<rparr>, req_wrote n r1)"
      "n \<le> length buf - uw_sent r1" "n \<le> tp_sndbuf (tcp_write bs p)"
      "e = Return 0 \<and> (\<exists>q. sk_write S q \<noteq> ERR_OK) \<or> e = May_next \<and> (uw_sent r1 + n = length buf \<or> n = tp_sndbuf (tcp_write bs p))"
      by (auto simp: bs_def)
    have sent: "uw_sent r1 = uw_sent r + m" by (simp add: r1_def req_wrote_def)
    have room: "tp_sndbuf (tcp_write bs p) = tp_sndbuf p - m" using bs by (simp add: tcp_write_def)
    have m: "m \<le> tp_sndbuf p" "m \<le> length buf - uw_sent r" by (simp_all add: m_def)
    have "bs @ take n (drop (uw_sent r1) buf) = take (m + n) (drop (uw_sent r) buf)"
      by (simp add: bs_def sent take_add add.commute)
    then have "write_buf_loop S buf c r = Inr (e, c\<lparr>ut_pcb := Some (tcp_write (take (m + n) (drop (uw_sent r) buf)) p)\<rparr>, req_wrote (m + n) r)"
      using step n(1) by (simp add: tcp_write_write req_wrote_wrote r1_def c1_def)
    moreover have "m + n \<le> length buf - uw_sent r" "m + n \<le> tp_sndbuf p" using n(2,3) sent room m by auto
    moreover have "e = Return 0 \<and> (\<exists>q. sk_write S q \<noteq> ERR_OK) \<or>
        e = May_next \<and> (uw_sent r + (m + n) = length buf \<or> m + n = tp_sndbuf p)"
      using n(4) sent room m by auto
    ultimately show ?thesis by blast
  next
    case 4
    then have "write_buf_loop S buf c r = Inr (May_next, c1, r1)"
      using unf p by (simp add: Let_def m_def [symmetric] bs_def [symmetric] c1_def [symmetric] r1_def [symmetric])
    moreover have "uw_sent r1 = uw_sent r + m" by (simp add: r1_def req_wrote_def)
    then have "uw_sent r + m = length buf" using 4(3) "1.prems"(3) by (auto simp: m_def)
    ultimately show ?thesis
      by (intro exI [of _ May_next] exI [of _ m]) (auto simp: c1_def bs_def r1_def m_def)
  qed
qed

lemma unsent_split:
  assumes "req_ok r" and "\<not> passed r"
  defines "buf \<equiv> uw_bufs r ! uw_sent_bufs r"
  shows "req_unsent r = drop (uw_sent r) buf @ concat (drop (Suc (uw_sent_bufs r)) (uw_bufs r))"
proof -
  let ?k = "uw_sent_bufs r"
  have k: "?k < length (uw_bufs r)" "uw_sent r \<le> length buf"
    and t: "uw_total_sent r = length (concat (take ?k (uw_bufs r))) + uw_sent r"
    using assms by (auto simp: req_ok_def)
  have "uw_bufs r = take ?k (uw_bufs r) @ buf # drop (Suc ?k) (uw_bufs r)"
    using k(1) by (simp add: id_take_nth_drop buf_def)
  then have "concat (uw_bufs r) = concat (take ?k (uw_bufs r)) @ buf @ concat (drop (Suc ?k) (uw_bufs r))"
    by (metis concat.simps(2) concat_append)
  then show ?thesis using t k(2) by (simp add: req_unsent_def)
qed

text \<open>One turn for a request: bytes are taken off its unsent part and given to the stack.\<close>

lemma imp_write_buf_good:
  assumes "good S" and "ut_pcb c = Some p" and "req_ok r" and "\<not> passed r"
  shows "\<exists>ret bs r1. uvl_imp_write_buf_to_tcp S c r = Inr (ret, c\<lparr>ut_pcb := Some (tcp_write bs p)\<rparr>, r1) \<and>
    (ret = 0 \<or> ret = 1) \<and> req_ok r1 \<and> req_unsent r = bs @ req_unsent r1 \<and>
    uw_pending r1 = uw_pending r + length bs \<and> uw_id r1 = uw_id r \<and> length bs \<le> tp_sndbuf p \<and>
    uw_bufs r1 = uw_bufs r \<and> (ret = 1 \<longrightarrow> uw_sent_bufs r1 = Suc (uw_sent_bufs r)) \<and>
    (ret = 0 \<longrightarrow> (\<exists>q. sk_write S q \<noteq> ERR_OK) \<or> length bs = tp_sndbuf p)"
proof -
  define k where "k = uw_sent_bufs r"
  define buf where "buf = uw_bufs r ! k"
  have r: "k < length (uw_bufs r)" "uw_sent r \<le> length buf" "uw_total_len r = length (concat (uw_bufs r))"
    "uw_pending r \<le> uw_total_sent r" "uw_total_sent r = length (concat (take k (uw_bufs r))) + uw_sent r"
    using assms(3,4) by (auto simp: req_ok_def k_def buf_def)
  obtain e n where w: "write_buf_loop S buf c r =
      Inr (e, c\<lparr>ut_pcb := Some (tcp_write (take n (drop (uw_sent r) buf)) p)\<rparr>, req_wrote n r)"
    "n \<le> length buf - uw_sent r" "n \<le> tp_sndbuf p"
    "e = Return 0 \<and> (\<exists>q. sk_write S q \<noteq> ERR_OK) \<or> e = May_next \<and> (uw_sent r + n = length buf \<or> n = tp_sndbuf p)"
    using write_buf_loop_good [OF assms(1,2) r(2)] by blast
  define bs where "bs = take n (drop (uw_sent r) buf)"
  have bs: "length bs = n" using w(2) by (simp add: bs_def)
  have split: "req_unsent r = drop (uw_sent r) buf @ concat (drop (Suc k) (uw_bufs r))"
    using unsent_split [OF assms(3,4)] by (simp add: k_def buf_def)
  have rest: "drop (uw_total_sent r + n) (concat (uw_bufs r)) = drop n (req_unsent r)"
    by (simp add: req_unsent_def add.commute)
  have cut: "req_unsent r = bs @ drop n (req_unsent r)"
  proof -
    have "bs = take n (req_unsent r)" using split w(2) by (simp add: bs_def)
    then show ?thesis by simp
  qed
  have np: "\<not> passed (req_wrote n r)" using assms(4) by (simp add: passed_def req_wrote_def)
  have ok1: "req_ok (req_wrote n r)"
    using assms(3) np r w(2) assms(4) by (simp add: req_ok_def req_wrote_def k_def [symmetric] buf_def [symmetric] passed_def)
  have unsent1: "req_unsent (req_wrote n r) = drop n (req_unsent r)"
    using rest by (simp add: req_unsent_def req_wrote_def)
  have room: "tp_sndbuf (tcp_write bs p) = tp_sndbuf p - n" using bs by (simp add: tcp_write_def)
  note unf = uvl_imp_write_buf_to_tcp_def [of S c r, folded k_def, folded buf_def]
  consider (stop) "e = Return 0" "\<exists>q. sk_write S q \<noteq> ERR_OK" | (full) "e = May_next" "n = tp_sndbuf p"
    | (next_buf) "e = May_next" "n \<noteq> tp_sndbuf p" "uw_sent r + n = length buf" using w(4) by blast
  then show ?thesis
  proof cases
    case stop
    then have "uvl_imp_write_buf_to_tcp S c r = Inr (0, c\<lparr>ut_pcb := Some (tcp_write bs p)\<rparr>, req_wrote n r)"
      using unf r(1) w(1) by (simp add: bs_def)
    with ok1 cut unsent1 bs w(3) stop show ?thesis
      by (intro exI [of _ 0] exI [of _ bs] exI [of _ "req_wrote n r"]) (simp add: req_wrote_def)
  next
    case full
    then have "uvl_imp_write_buf_to_tcp S c r = Inr (0, c\<lparr>ut_pcb := Some (tcp_write bs p)\<rparr>, req_wrote n r)"
      using unf r(1) w(1) room by (simp add: bs_def)
    with ok1 cut unsent1 bs w(3) full show ?thesis
      by (intro exI [of _ 0] exI [of _ bs] exI [of _ "req_wrote n r"]) (simp add: req_wrote_def)
  next
    case next_buf
    define r1 where "r1 = (req_wrote n r)\<lparr>uw_sent := 0, uw_sent_bufs := Suc k\<rparr>"
    have r1: "uvl_imp_write_buf_to_tcp S c r = Inr (1, c\<lparr>ut_pcb := Some (tcp_write bs p)\<rparr>, r1)"
      using unf r(1) w(1,3) room next_buf by (simp add: bs_def r1_def req_wrote_def k_def)
    have total: "uw_total_sent r + n = length (concat (take (Suc k) (uw_bufs r)))"
      using r(1,5) next_buf(3) by (simp add: take_Suc_conv_app_nth buf_def)
    have "uw_total_sent r + n = length (concat (uw_bufs r))" if "Suc k = length (uw_bufs r)"
      using total that by simp
    then have "req_ok r1"
      using assms(3) r total by (auto simp: req_ok_def r1_def req_wrote_def passed_def)
    moreover have "req_unsent r1 = drop n (req_unsent r)"
      using rest by (simp add: req_unsent_def req_wrote_def r1_def)
    ultimately show ?thesis using r1 cut bs w(3) next_buf
      by (intro exI [of _ 1] exI [of _ bs] exI [of _ r1]) (auto simp: r1_def req_wrote_def k_def)
  qed
qed

lemma write_reqs_good:
  assumes "good S" and "ut_pcb c = Some p" and "\<forall>x \<in> set done. req_ok x \<and> passed x" and "queue_ok todo"
    and "\<forall>x \<in> set todo. \<not> passed x"
  shows "\<exists>bs ws. write_reqs S c done todo = Inr (True, c\<lparr>ut_pcb := Some (tcp_write bs p), ut_writes := done @ ws\<rparr>) \<and>
    queue_ok ws \<and> concat (map req_unsent todo) = bs @ concat (map req_unsent ws) \<and>
    sum_list (map uw_pending ws) = sum_list (map uw_pending todo) + length bs \<and> map uw_id ws = map uw_id todo \<and> map uw_bufs ws = map uw_bufs todo \<and>
    length bs \<le> tp_sndbuf p \<and>
    (concat (map req_unsent ws) \<noteq> [] \<longrightarrow> (\<exists>q. sk_write S q \<noteq> ERR_OK) \<or> length bs = tp_sndbuf p)"
  using assms
proof (induction S c "done" todo arbitrary: p rule: write_reqs.induct)
  case (1 S c "done" todo)
  note unf = write_reqs.simps [of S c "done" todo] and prems = "1.prems"
  show ?case
  proof (cases todo)
    case Nil
    have "c\<lparr>ut_pcb := Some p, ut_writes := done\<rparr> = c\<lparr>ut_writes := done\<rparr>" using prems(2) by simp
    then show ?thesis using Nil unf by (intro exI [of _ "[]"] exI [of _ "[]"]) simp
  next
    case (Cons r rest)
    have r: "req_ok r" "\<not> passed r" "\<forall>x \<in> set rest. req_ok x \<and> fresh x" using prems(4,5) Cons by auto
    obtain ret bs r1 where w: "uvl_imp_write_buf_to_tcp S c r = Inr (ret, c\<lparr>ut_pcb := Some (tcp_write bs p)\<rparr>, r1)"
      and r1: "ret = 0 \<or> ret = 1" "req_ok r1" "req_unsent r = bs @ req_unsent r1"
        "uw_pending r1 = uw_pending r + length bs" "uw_id r1 = uw_id r" "length bs \<le> tp_sndbuf p" "uw_bufs r1 = uw_bufs r"
        "ret = 1 \<longrightarrow> uw_sent_bufs r1 = Suc (uw_sent_bufs r)"
        "ret = 0 \<longrightarrow> (\<exists>q. sk_write S q \<noteq> ERR_OK) \<or> length bs = tp_sndbuf p"
      using imp_write_buf_good [OF prems(1,2) r(1,2)] by blast
    let ?c = "c\<lparr>ut_pcb := Some (tcp_write bs p)\<rparr>"
    have pcb: "ut_pcb ?c = Some (tcp_write bs p)" by simp
    have room: "tp_sndbuf (tcp_write bs p) = tp_sndbuf p - length bs" by (simp add: tcp_write_def)
    have fresh_rest: "\<forall>x \<in> set rest. \<not> passed x"
      using r(3) by (auto simp: passed_def fresh_def req_ok_def)
    consider (stop) "ret = 0" | (req) "ret = 1" "passed r1" | (buf) "ret = 1" "\<not> passed r1" using r1(1) by blast
    then show ?thesis
    proof cases
      case stop
      then have "write_reqs S c done todo = Inr (True, c\<lparr>ut_pcb := Some (tcp_write bs p), ut_writes := done @ r1 # rest\<rparr>)"
        using unf Cons w by simp
      with stop r1 r(3) queue_ok_fresh [of rest] Cons show ?thesis
        by (intro exI [of _ bs] exI [of _ "r1 # rest"]) simp
    next
      case req
      then have step: "write_reqs S c done todo = write_reqs S ?c (done @ [r1]) rest"
        using unf Cons w by (simp add: passed_def)
      obtain bs' ws where i: "write_reqs S ?c (done @ [r1]) rest =
          Inr (True, ?c\<lparr>ut_pcb := Some (tcp_write bs' (tcp_write bs p)), ut_writes := (done @ [r1]) @ ws\<rparr>)"
        "queue_ok ws" "concat (map req_unsent rest) = bs' @ concat (map req_unsent ws)"
        "sum_list (map uw_pending ws) = sum_list (map uw_pending rest) + length bs'" "map uw_id ws = map uw_id rest" "map uw_bufs ws = map uw_bufs rest"
        "length bs' \<le> tp_sndbuf (tcp_write bs p)"
        "concat (map req_unsent ws) \<noteq> [] \<longrightarrow> (\<exists>q. sk_write S q \<noteq> ERR_OK) \<or> length bs' = tp_sndbuf (tcp_write bs p)"
        using "1.IH"(1) [OF Cons w refl refl _ _ _ _ prems(1) pcb] req prems(3) r1(2) queue_ok_fresh [OF r(3)] fresh_rest
        by (auto simp: passed_def)
      have "req_unsent r1 = []" using r1(2) req(2) by (simp add: req_unsent_def req_ok_def)
      with step i r1 req Cons room show ?thesis
        by (intro exI [of _ "bs @ bs'"] exI [of _ "r1 # ws"]) (auto simp: tcp_write_write)
    next
      case buf
      then have step: "write_reqs S c done todo = write_reqs S ?c done (r1 # rest)"
        using unf Cons w by (simp add: passed_def)
      obtain bs' ws where i: "write_reqs S ?c done (r1 # rest) =
          Inr (True, ?c\<lparr>ut_pcb := Some (tcp_write bs' (tcp_write bs p)), ut_writes := done @ ws\<rparr>)"
        "queue_ok ws" "concat (map req_unsent (r1 # rest)) = bs' @ concat (map req_unsent ws)"
        "sum_list (map uw_pending ws) = sum_list (map uw_pending (r1 # rest)) + length bs'" "map uw_id ws = map uw_id (r1 # rest)" "map uw_bufs ws = map uw_bufs (r1 # rest)"
        "length bs' \<le> tp_sndbuf (tcp_write bs p)"
        "concat (map req_unsent ws) \<noteq> [] \<longrightarrow> (\<exists>q. sk_write S q \<noteq> ERR_OK) \<or> length bs' = tp_sndbuf (tcp_write bs p)"
        using "1.IH"(2) [OF Cons w refl refl _ _ _ _ prems(1) pcb prems(3)] buf r1(2) r(3) fresh_rest
        by (auto simp: passed_def simp del: list.map)
      from step i r1 buf Cons room show ?thesis
        by (intro exI [of _ "bs @ bs'"] exI [of _ ws]) (auto simp: tcp_write_write)
    qed
  qed
qed

lemma fresh_not_passed: "req_ok r \<Longrightarrow> fresh r \<Longrightarrow> \<not> passed r"
  by (simp add: passed_def fresh_def req_ok_def)

lemma queue_ok_split:
  assumes "queue_ok rs"
  shows "(\<forall>x \<in> set (takeWhile passed rs). req_ok x \<and> passed x) \<and> queue_ok (dropWhile passed rs) \<and>
    (\<forall>x \<in> set (dropWhile passed rs). \<not> passed x)"
  using assms
proof (induction rs)
  case (Cons r rs)
  show ?case
  proof (cases "passed r")
    case True
    then have r: "req_ok r" "queue_ok rs" using Cons.prems by simp_all
    have "takeWhile passed (r # rs) = r # takeWhile passed rs" "dropWhile passed (r # rs) = dropWhile passed rs"
      using True by simp_all
    then show ?thesis using Cons.IH [OF r(2)] r(1) True by (metis set_ConsD)
  next
    case False
    then have "\<forall>x \<in> set (r # rs). \<not> passed x" using Cons.prems fresh_not_passed by auto
    moreover have "takeWhile passed (r # rs) = []" "dropWhile passed (r # rs) = r # rs" using False by simp_all
    ultimately show ?thesis using Cons.prems by (metis empty_iff empty_set)
  qed
qed simp

lemma passed_unsent: "req_ok r \<Longrightarrow> passed r \<Longrightarrow> req_unsent r = []"
  by (simp add: req_ok_def req_unsent_def)

lemma imp_write_good:
  assumes "good S" and "ut_pcb c = Some p" and "queue_ok (ut_writes c)" and "ut_writes c \<noteq> []"
  shows "\<exists>bs ws. uvl_imp_write_to_tcp S c = Inr (c\<lparr>ut_pcb := Some (tcp_write bs p), ut_writes := ws\<rparr>) \<and>
    queue_ok ws \<and> concat (map req_unsent (ut_writes c)) = bs @ concat (map req_unsent ws) \<and>
    sum_list (map uw_pending ws) = sum_list (map uw_pending (ut_writes c)) + length bs \<and>
    map uw_id ws = map uw_id (ut_writes c) \<and> map uw_bufs ws = map uw_bufs (ut_writes c) \<and> length bs \<le> tp_sndbuf p \<and>
    (concat (map req_unsent ws) \<noteq> [] \<longrightarrow> (\<exists>q. sk_write S q \<noteq> ERR_OK) \<or> length bs = tp_sndbuf p)"
proof -
  define as where "as = takeWhile passed (ut_writes c)"
  define todo where "todo = dropWhile passed (ut_writes c)"
  have split: "ut_writes c = as @ todo" by (simp add: as_def todo_def)
  have not_yet: "x \<in> set (ut_writes c) \<Longrightarrow> (\<not> uw_sent_bufs x < length (uw_bufs x)) = passed x" for x
    using queue_ok_req [OF assms(3), of x] by (auto simp: passed_def req_ok_def split: if_splits)
  have cut: "takeWhile (\<lambda>r. \<not> uw_sent_bufs r < length (uw_bufs r)) (ut_writes c) = as"
    "dropWhile (\<lambda>r. \<not> uw_sent_bufs r < length (uw_bufs r)) (ut_writes c) = todo"
    unfolding as_def todo_def using not_yet by (auto intro: takeWhile_cong dropWhile_cong)
  have q: "\<forall>x \<in> set as. req_ok x \<and> passed x" "queue_ok todo" "\<forall>x \<in> set todo. \<not> passed x"
    using queue_ok_split [OF assms(3)] by (simp_all add: as_def todo_def)
  have none: "concat (map req_unsent as) = []" using q(1) passed_unsent by auto
  from write_reqs_good [OF assms(1,2) q]
  obtain bs ws where "write_reqs S c as todo = Inr (True, c\<lparr>ut_pcb := Some (tcp_write bs p), ut_writes := as @ ws\<rparr>)"
    and w: "queue_ok ws" "concat (map req_unsent todo) = bs @ concat (map req_unsent ws)"
      "sum_list (map uw_pending ws) = sum_list (map uw_pending todo) + length bs" "map uw_id ws = map uw_id todo"
      "map uw_bufs ws = map uw_bufs todo" "length bs \<le> tp_sndbuf p"
      "concat (map req_unsent ws) \<noteq> [] \<longrightarrow> (\<exists>q. sk_write S q \<noteq> ERR_OK) \<or> length bs = tp_sndbuf p"
    by blast
  then have "uvl_imp_write_to_tcp S c = Inr (c\<lparr>ut_pcb := Some (tcp_write bs p), ut_writes := as @ ws\<rparr>)"
    using assms(1,2,4) by (simp add: uvl_imp_write_to_tcp_def Let_def cut good_def)
  moreover have "queue_ok (as @ ws)" by (rule queue_ok_append [OF q(1) w(1)])
  moreover have "concat (map req_unsent (ut_writes c)) = bs @ concat (map req_unsent (as @ ws))"
    using w(2) none by (simp only: split map_append concat_append append_Nil)
  moreover have "concat (map req_unsent (as @ ws)) = concat (map req_unsent ws)"
    using none by (simp only: map_append concat_append append_Nil)
  ultimately show ?thesis using w split
    by (intro exI [of _ bs] exI [of _ "as @ ws"]) (simp del: concat_eq_Nil_conv)
qed

text \<open>Acknowledgements only lower the counts of pending bytes.\<close>

definition acked_req :: "uvl_write \<Rightarrow> uvl_write \<Rightarrow> bool" where
  "acked_req r r' \<longleftrightarrow> uw_pending r' \<le> uw_pending r \<and> r' = r\<lparr>uw_pending := uw_pending r'\<rparr>"

lemma acked_req_refl: "list_all2 acked_req rs rs"
  by (simp add: list_all2_refl acked_req_def)

lemma acked_req_keeps:
  assumes "acked_req r r'"
  shows "req_unsent r' = req_unsent r" "uw_id r' = uw_id r" "uw_bufs r' = uw_bufs r" "passed r' = passed r"
    and "req_ok r \<Longrightarrow> req_ok r'" and "fresh r \<Longrightarrow> fresh r'"
proof -
  obtain k where k: "r' = r\<lparr>uw_pending := k\<rparr>" "k \<le> uw_pending r" using assms by (auto simp: acked_req_def)
  then show "req_unsent r' = req_unsent r" "uw_id r' = uw_id r" "uw_bufs r' = uw_bufs r" "passed r' = passed r"
    by (simp_all add: req_unsent_def passed_def)
  show "req_ok r \<Longrightarrow> req_ok r'" "fresh r \<Longrightarrow> fresh r'"
    using k by (auto simp: req_ok_def passed_def fresh_def split: if_splits)
qed

lemma acked_queue_maps:
  assumes "list_all2 acked_req rs rs'"
  shows "map req_unsent rs' = map req_unsent rs \<and> map uw_id rs' = map uw_id rs \<and> map uw_bufs rs' = map uw_bufs rs"
  using assms by (induction rs rs') (simp_all add: acked_req_keeps(1-3))

lemma acked_queue_fresh:
  assumes "list_all2 acked_req rs rs'" and "\<forall>x \<in> set rs. req_ok x \<and> fresh x"
  shows "\<forall>x \<in> set rs'. req_ok x \<and> fresh x"
proof
  fix x' assume "x' \<in> set rs'"
  with assms(1) obtain x where "x \<in> set rs" "acked_req x x'"
    by (metis in_set_conv_nth list_all2_conv_all_nth)
  with assms(2) show "req_ok x' \<and> fresh x'" using acked_req_keeps(5,6) by blast
qed

lemma acked_queue_ok: "list_all2 acked_req rs rs' \<Longrightarrow> queue_ok rs \<Longrightarrow> queue_ok rs'"
proof (induction rs rs' rule: list_all2_induct)
  case (Cons r rs r' rs')
  note keeps = acked_req_keeps [OF Cons.hyps(1)]
  show ?case
  proof (cases "passed r")
    case True
    then show ?thesis using Cons.prems Cons.IH keeps(4,5) by simp
  next
    case False
    then have "req_ok r" and "\<forall>x \<in> set rs. req_ok x \<and> fresh x"
      using Cons.prems unfolding queue_ok.simps by presburger+
    with acked_queue_fresh [OF Cons.hyps(2)] have "\<forall>x \<in> set rs'. req_ok x \<and> fresh x" by blast
    with False \<open>req_ok r\<close> keeps(4,5) show ?thesis unfolding queue_ok.simps by (simp only: if_False)
  qed
qed simp

lemma sent_loop_ok:
  assumes "len \<le> sum_list (map uw_pending rs)"
  shows "\<exists>rs'. sent_loop len rs = Inr rs' \<and> list_all2 acked_req rs rs' \<and>
    sum_list (map uw_pending rs') = sum_list (map uw_pending rs) - len"
  using assms
proof (induction len rs rule: sent_loop.induct)
  case (1 len rs)
  show ?case
  proof (cases "len = 0")
    case True
    then show ?thesis using acked_req_refl by (simp add: sent_loop.simps)
  next
    case False
    with "1.prems" obtain r rest where rs: "rs = r # rest" by (cases rs) auto
    define m where "m = min (uw_pending r) len"
    have "len - m \<le> sum_list (map uw_pending rest)" using "1.prems" rs by (simp add: m_def)
    with "1.IH" [OF False rs m_def] obtain rest' where r': "sent_loop (len - m) rest = Inr rest'"
      "list_all2 acked_req rest rest'" "sum_list (map uw_pending rest') = sum_list (map uw_pending rest) - (len - m)"
      by blast
    have "sent_loop len rs = Inr (r\<lparr>uw_pending := uw_pending r - m\<rparr> # rest')"
      using False rs r'(1) by (simp add: sent_loop.simps [of len] m_def Let_def)
    moreover have "acked_req r (r\<lparr>uw_pending := uw_pending r - m\<rparr>)" by (simp add: acked_req_def)
    ultimately show ?thesis using rs r'(2,3) "1.prems" by (auto simp: m_def min_def)
  qed
qed

section \<open>The life of a connection\<close>

text \<open>What happens to a connection: the owner writes, starts and stops reading, and closes; libuv runs the two
  asynchronous handles and reports that they are closed; the stack acknowledges bytes, delivers data or the
  end of the stream, and reports that it dropped the connection.\<close>

datatype tcp_event =
  T_write nat bytes | T_write_async | T_acked nat | T_recv "bytes option" | T_err
| T_read_async | T_read_start | T_read_stop | T_close | T_handle_closed

definition acked_pcb :: "nat \<Rightarrow> tcp_pcb \<Rightarrow> tcp_pcb" where
  "acked_pcb n p = p\<lparr>tp_sndbuf := tp_sndbuf p + n, tp_unacked := tp_unacked p - n\<rparr>"

fun tcp_handle :: "stack \<Rightarrow> tcp_event \<Rightarrow> uvl_tcp \<Rightarrow> uvl_tcp res" where
  "tcp_handle S (T_write i b) c = Inr (uvl_write_req i [b] c)"
| "tcp_handle S T_write_async c = uvl_async_tcp_write_cb S c"
| "tcp_handle S (T_acked n) c = uvl_client_sent_func n (c\<lparr>ut_pcb := map_option (acked_pcb n) (ut_pcb c)\<rparr>)"
| "tcp_handle S (T_recv d) c = rbind (uvl_client_recv_func S d c) (\<lambda>(_, c'). Inr c')"
| "tcp_handle S T_err c = Inr (uvl_client_err_func c)"
| "tcp_handle S T_read_async c = uvl_async_tcp_read_cb S c"
| "tcp_handle S T_read_start c = Inr (snd (uvl_read_start S c))"
| "tcp_handle S T_read_stop c = Inr (snd (uvl_read_stop c))"
| "tcp_handle S T_close c = rbind (uvl_tcp_close S c) (\<lambda>(_, c'). Inr c')"
| "tcp_handle S T_handle_closed c = Inr (uvl_tcp_close_handle_cb c)"

text \<open>The stack calls back only for a connection it still has, and acknowledges only what it was given;
  the owner calls nothing after \<open>uvl_tcp_close\<close>, and libuv only closes the handles then.\<close>

fun tcp_event_ok :: "uvl_tcp \<Rightarrow> tcp_event \<Rightarrow> bool" where
  "tcp_event_ok c (T_acked n) \<longleftrightarrow> \<not> ut_closing c \<and> (case ut_pcb c of None \<Rightarrow> False | Some p \<Rightarrow> 0 < n \<and> n \<le> tp_unacked p)"
| "tcp_event_ok c (T_recv d) \<longleftrightarrow> \<not> ut_closing c \<and> ut_pcb c \<noteq> None \<and> d \<noteq> Some []"
| "tcp_event_ok c T_err \<longleftrightarrow> \<not> ut_closing c \<and> ut_pcb c \<noteq> None"
| "tcp_event_ok c T_handle_closed \<longleftrightarrow> ut_closing c"
| "tcp_event_ok c _ \<longleftrightarrow> \<not> ut_closing c"

fun event_write :: "tcp_event \<Rightarrow> (nat \<times> bytes) list" where
  "event_write (T_write i b) = [(i, b)]"
| "event_write _ = []"

fun event_data :: "stack \<Rightarrow> uvl_tcp \<Rightarrow> tcp_event \<Rightarrow> bytes" where
  "event_data S c (T_recv (Some d)) = (if length d > sk_wnd S - length (ut_recv c) then [] else d)"
| "event_data S c _ = []"

text \<open>\<open>tcp_reached S p ws rcv c\<close>: a connection accepted with \<open>p\<close> comes to \<open>c\<close>, the requests \<open>ws\<close> having been
  written and the bytes \<open>rcv\<close> taken from the stack.\<close>

inductive tcp_reached :: "stack \<Rightarrow> tcp_pcb \<Rightarrow> (nat \<times> bytes) list \<Rightarrow> bytes \<Rightarrow> uvl_tcp \<Rightarrow> bool"
  for S :: stack and p :: tcp_pcb where
  accepted: "tp_out p = [] \<Longrightarrow> tp_unacked p = 0 \<Longrightarrow> tcp_reached S p [] [] (uvl_accept p uvl_tcp_init)"
| handled: "tcp_reached S p ws rcv c \<Longrightarrow> Close_cb \<notin> set (ut_log c) \<Longrightarrow> tcp_event_ok c e \<Longrightarrow> tcp_handle S e c = Inr c' \<Longrightarrow>
    tcp_reached S p (ws @ event_write e) (rcv @ event_data S c e) c'"

definition cb_ids :: "uvl_cb list \<Rightarrow> nat list" where
  "cb_ids l = concat (map (\<lambda>x. case x of Write_cb i _ \<Rightarrow> [i] | _ \<Rightarrow> []) l)"

definition delivered :: "uvl_cb list \<Rightarrow> bytes" where
  "delivered l = concat (map (\<lambda>x. case x of Read_cb _ d \<Rightarrow> d | _ \<Rightarrow> []) l)"

lemma cb_ids_append [simp]: "cb_ids (a @ b) = cb_ids a @ cb_ids b"
  and cb_ids_simps [simp]: "cb_ids [] = []" "cb_ids (Read_cb n d # l) = cb_ids l" "cb_ids (Close_cb # l) = cb_ids l"
    "cb_ids (Write_cb i e # l) = i # cb_ids l"
    "cb_ids (map (\<lambda>r. Write_cb (uw_id r) st) rs) = map uw_id rs"
  by (simp_all add: cb_ids_def comp_def)

lemma delivered_append [simp]: "delivered (a @ b) = delivered a @ delivered b"
  and delivered_simps [simp]: "delivered [] = []" "delivered (Read_cb n d # l) = d @ delivered l" "delivered (Close_cb # l) = delivered l"
    "delivered (Write_cb i e # l) = delivered l"
    "delivered (map (\<lambda>r. Write_cb (uw_id r) st) rs) = []"
  by (simp_all add: delivered_def comp_def)

text \<open>The invariant of an open connection, and of one that the stack no longer has.\<close>

definition open_inv :: "stack \<Rightarrow> tcp_pcb \<Rightarrow> (nat \<times> bytes) list \<Rightarrow> bytes \<Rightarrow> uvl_tcp \<Rightarrow> bool" where
  "open_inv S p ws rcv c \<longleftrightarrow>
     ut_pcb c = Some p \<and> \<not> ut_closed c \<and> \<not> ut_closing c \<and> Close_cb \<notin> set (ut_log c) \<and> queue_ok (ut_writes c) \<and>
     concat (map snd ws) = tp_out p @ concat (map req_unsent (ut_writes c)) \<and>
     tp_unacked p = sum_list (map uw_pending (ut_writes c)) \<and>
     (\<exists>reported. ws = reported @ map (\<lambda>r. (uw_id r, concat (uw_bufs r))) (ut_writes c) \<and>
        cb_ids (ut_log c) = map fst reported) \<and>
     delivered (ut_log c) @ ut_recv c = rcv \<and> length (ut_recv c) \<le> sk_wnd S"

definition shut_inv :: "stack \<Rightarrow> (nat \<times> bytes) list \<Rightarrow> bytes \<Rightarrow> uvl_tcp \<Rightarrow> bool" where
  "shut_inv S ws rcv c \<longleftrightarrow>
     ut_pcb c = None \<and> ut_closed c \<and> \<not> ut_reading c \<and> (ut_closing c \<longrightarrow> ut_writes c = []) \<and>
     (Close_cb \<in> set (ut_log c) \<longrightarrow> ut_writes c = []) \<and> length (filter ((=) Close_cb) (ut_log c)) \<le> 1 \<and>
     cb_ids (ut_log c) @ map uw_id (ut_writes c) = map fst ws \<and>
     (\<exists>rest. rcv = delivered (ut_log c) @ rest) \<and> length (ut_recv c) \<le> sk_wnd S"

lemma no_close_filter: "Close_cb \<notin> set l \<Longrightarrow> filter ((=) Close_cb) l = []"
  by (auto simp: filter_empty_conv)

lemma no_close_write: "Close_cb \<notin> set (map (\<lambda>r. Write_cb (uw_id r) st) rs)"
  by auto

lemma queue_ok_snoc: "queue_ok rs \<Longrightarrow> req_ok r \<Longrightarrow> fresh r \<Longrightarrow> queue_ok (rs @ [r])"
  by (induction rs) (simp_all split: if_splits)

lemma open_accepted: "tp_out p = [] \<Longrightarrow> tp_unacked p = 0 \<Longrightarrow> open_inv S p [] [] (uvl_accept p uvl_tcp_init)"
  by (simp add: open_inv_def uvl_accept_def uvl_tcp_init_def)

lemma open_write:
  assumes "open_inv S p ws rcv c"
  shows "open_inv S p (ws @ [(i, b)]) rcv (uvl_write_req i [b] c)"
proof -
  define r where "r = \<lparr>uw_id = i, uw_bufs = [b], uw_sent_bufs = 0, uw_sent = 0, uw_pending = 0,
    uw_total_sent = 0, uw_total_len = length (concat [b])\<rparr>"
  have r: "req_ok r" "fresh r" "req_unsent r = b" "uw_pending r = 0" "uw_id r = i" "uw_bufs r = [b]"
    by (simp_all add: r_def req_ok_def fresh_def passed_def req_unsent_def)
  have c: "uvl_write_req i [b] c = c\<lparr>ut_writes := ut_writes c @ [r]\<rparr>" by (simp add: uvl_write_req_def r_def)
  have "queue_ok (ut_writes c @ [r])" using assms r queue_ok_snoc by (simp add: open_inv_def)
  then show ?thesis using assms r(3-6) by (auto simp: open_inv_def c)
qed

lemma done_queue:
  assumes "queue_ok rs"
  shows "queue_ok (dropWhile req_done rs)"
    and "concat (map req_unsent (takeWhile req_done rs)) = []"
    and "sum_list (map uw_pending (takeWhile req_done rs)) = 0"
proof -
  have ok: "req_ok x" if "x \<in> set rs" for x using queue_ok_req [OF assms that] .
  have dn: "req_done x \<and> x \<in> set rs" if "x \<in> set (takeWhile req_done rs)" for x
    using set_takeWhileD [OF that] by blast
  show "concat (map req_unsent (takeWhile req_done rs)) = []"
    using dn ok by (fastforce simp: req_unsent_def req_done_def req_ok_def)
  have "uw_pending x = 0" if "x \<in> set (takeWhile req_done rs)" for x using dn [OF that] by (simp add: req_done_def)
  then show "sum_list (map uw_pending (takeWhile req_done rs)) = 0" by simp
  show "queue_ok (dropWhile req_done rs)" using assms
  proof (induction rs)
    case (Cons r rs)
    have "queue_ok rs" using Cons.prems queue_ok_fresh by (auto split: if_splits)
    then show ?case using Cons by (simp add: dropWhile.simps)
  qed simp
qed

text \<open>The step of the write handle, as one equation: what is reported, what goes out, what stays.\<close>

lemma write_async_good:
  assumes "good S" and "open_inv S p ws rcv c"
  shows "\<exists>bs rs. uvl_async_tcp_write_cb S c = Inr (c\<lparr>ut_pcb := Some (tcp_write bs p), ut_writes := rs,
      ut_log := ut_log c @ map (\<lambda>r. Write_cb (uw_id r) 0) (takeWhile req_done (ut_writes c))\<rparr>) \<and>
    queue_ok rs \<and> concat (map req_unsent (ut_writes c)) = bs @ concat (map req_unsent rs) \<and>
    sum_list (map uw_pending rs) = sum_list (map uw_pending (ut_writes c)) + length bs \<and>
    map uw_id rs = map uw_id (dropWhile req_done (ut_writes c)) \<and>
    map uw_bufs rs = map uw_bufs (dropWhile req_done (ut_writes c)) \<and>
    length bs \<le> tp_sndbuf p \<and>
    (concat (map req_unsent rs) \<noteq> [] \<longrightarrow> (\<exists>q. sk_write S q \<noteq> ERR_OK) \<or> length bs = tp_sndbuf p)"
proof -
  define as where "as = takeWhile req_done (ut_writes c)"
  define rs where "rs = dropWhile req_done (ut_writes c)"
  have split: "ut_writes c = as @ rs" by (simp add: as_def rs_def)
  have o: "ut_pcb c = Some p" "\<not> ut_closed c" "queue_ok (ut_writes c)" using assms(2) by (simp_all add: open_inv_def)
  note d = done_queue [OF o(3), folded as_def rs_def]
  have sums: "concat (map req_unsent (ut_writes c)) = concat (map req_unsent rs)"
    "sum_list (map uw_pending (ut_writes c)) = sum_list (map uw_pending rs)"
    using d(2,3) by (simp_all only: split map_append concat_append sum_list_append append_Nil add_0)
  define c1 where "c1 = c\<lparr>ut_log := ut_log c @ map (\<lambda>r. Write_cb (uw_id r) 0) as, ut_writes := rs\<rparr>"
  have unf: "uvl_async_tcp_write_cb S c = (if rs \<noteq> [] then uvl_imp_write_to_tcp S c1 else Inr c1)"
    using o(2) by (simp add: uvl_async_tcp_write_cb_def Let_def as_def [symmetric] rs_def [symmetric] c1_def)
  show ?thesis
  proof (cases "rs = []")
    case True
    then have "c1 = c\<lparr>ut_pcb := Some (tcp_write [] p), ut_writes := [],
        ut_log := ut_log c @ map (\<lambda>r. Write_cb (uw_id r) 0) as\<rparr>" using o(1) by (simp add: c1_def)
    with True unf sums show ?thesis unfolding as_def [symmetric] rs_def [symmetric]
      by (intro exI [of _ "[]"]) simp
  next
    case False
    have c1: "ut_pcb c1 = Some p" "ut_writes c1 = rs" using o(1) by (simp_all add: c1_def)
    from imp_write_good [OF assms(1) c1(1)] c1(2) d(1) False obtain bs rs' where
      w: "uvl_imp_write_to_tcp S c1 = Inr (c1\<lparr>ut_pcb := Some (tcp_write bs p), ut_writes := rs'\<rparr>)"
      "queue_ok rs'" "concat (map req_unsent rs) = bs @ concat (map req_unsent rs')"
      "sum_list (map uw_pending rs') = sum_list (map uw_pending rs) + length bs"
      "map uw_id rs' = map uw_id rs" "map uw_bufs rs' = map uw_bufs rs" "length bs \<le> tp_sndbuf p"
      "concat (map req_unsent rs') \<noteq> [] \<longrightarrow> (\<exists>q. sk_write S q \<noteq> ERR_OK) \<or> length bs = tp_sndbuf p"
      by metis
    then show ?thesis using False unf sums unfolding as_def [symmetric] rs_def [symmetric]
      by (intro exI [of _ bs] exI [of _ rs']) (simp add: c1_def del: concat_eq_Nil_conv)
  qed
qed

lemma map_pair_eq:
  assumes "map f xs = map f ys" and "map g xs = map g ys"
  shows "map (\<lambda>x. (f x, h (g x))) xs = map (\<lambda>x. (f x, h (g x))) ys"
proof -
  have "map (\<lambda>x. (f x, h (g x))) zs = zip (map f zs) (map h (map g zs))" for zs by (induction zs) simp_all
  then show ?thesis using assms by presburger
qed

lemma open_write_async:
  assumes "good S" and "open_inv S p ws rcv c"
  shows "\<exists>c' q. uvl_async_tcp_write_cb S c = Inr c' \<and> open_inv S q ws rcv c'"
proof -
  from write_async_good [OF assms] obtain bs rs where
    w: "uvl_async_tcp_write_cb S c = Inr (c\<lparr>ut_pcb := Some (tcp_write bs p), ut_writes := rs,
      ut_log := ut_log c @ map (\<lambda>r. Write_cb (uw_id r) 0) (takeWhile req_done (ut_writes c))\<rparr>)"
    "queue_ok rs" "concat (map req_unsent (ut_writes c)) = bs @ concat (map req_unsent rs)"
    "sum_list (map uw_pending rs) = sum_list (map uw_pending (ut_writes c)) + length bs"
    "map uw_id rs = map uw_id (dropWhile req_done (ut_writes c))"
    "map uw_bufs rs = map uw_bufs (dropWhile req_done (ut_writes c))" by blast
  let ?as = "takeWhile req_done (ut_writes c)" and ?rs = "dropWhile req_done (ut_writes c)"
  let ?pair = "\<lambda>r. (uw_id r, concat (uw_bufs r))"
  from assms(2) obtain reported where rep: "ws = reported @ map ?pair (ut_writes c)" "cb_ids (ut_log c) = map fst reported"
    by (auto simp: open_inv_def)
  have "map ?pair (ut_writes c) = map ?pair ?as @ map ?pair ?rs" by (metis map_append takeWhile_dropWhile_id)
  moreover have "map ?pair rs = map ?pair ?rs" using map_pair_eq [OF w(5,6)] .
  ultimately have "ws = (reported @ map ?pair ?as) @ map ?pair rs" using rep(1) by simp
  moreover have "cb_ids (ut_log c @ map (\<lambda>r. Write_cb (uw_id r) 0) ?as) = map fst (reported @ map ?pair ?as)"
    using rep(2) by (simp add: comp_def)
  ultimately have "\<exists>reported. ws = reported @ map ?pair rs \<and>
      cb_ids (ut_log c @ map (\<lambda>r. Write_cb (uw_id r) 0) ?as) = map fst reported" by blast
  then have "open_inv S (tcp_write bs p) ws rcv (c\<lparr>ut_pcb := Some (tcp_write bs p), ut_writes := rs,
      ut_log := ut_log c @ map (\<lambda>r. Write_cb (uw_id r) 0) ?as\<rparr>)"
    using assms(2) w(2-4) no_close_write by (simp add: open_inv_def tcp_write_def)
  with w(1) show ?thesis by blast
qed

lemma open_acked:
  assumes "open_inv S p ws rcv c" and "0 < n" and "n \<le> tp_unacked p"
  shows "\<exists>c'. uvl_client_sent_func n (c\<lparr>ut_pcb := Some (acked_pcb n p)\<rparr>) = Inr c' \<and> open_inv S (acked_pcb n p) ws rcv c'"
proof -
  have "n \<le> sum_list (map uw_pending (ut_writes c))" using assms(1,3) by (simp add: open_inv_def)
  from sent_loop_ok [OF this] obtain rs where rs: "sent_loop n (ut_writes c) = Inr rs" "list_all2 acked_req (ut_writes c) rs"
    "sum_list (map uw_pending rs) = sum_list (map uw_pending (ut_writes c)) - n" by blast
  have m: "map req_unsent rs = map req_unsent (ut_writes c)" "map uw_id rs = map uw_id (ut_writes c)"
    "map uw_bufs rs = map uw_bufs (ut_writes c)" using acked_queue_maps [OF rs(2)] by simp_all
  have "queue_ok rs" using acked_queue_ok [OF rs(2)] assms(1) by (simp add: open_inv_def)
  then show ?thesis using assms rs(1,3) m(1) map_pair_eq [OF m(2,3), of concat]
    by (simp add: uvl_client_sent_func_def open_inv_def acked_pcb_def)
qed

lemma open_freed:
  assumes "open_inv S p ws rcv c"
  shows "shut_inv S ws rcv (uvl_client_freed c)"
proof -
  obtain reported where "ws = reported @ map (\<lambda>r. (uw_id r, concat (uw_bufs r))) (ut_writes c)"
    "cb_ids (ut_log c) = map fst reported" using assms by (auto simp: open_inv_def)
  then have "cb_ids (ut_log c) @ map uw_id (ut_writes c) = map fst ws" by (simp add: comp_def)
  then show ?thesis using assms no_close_filter [of "ut_log c"]
    by (auto simp: open_inv_def shut_inv_def uvl_client_freed_def read_end_def)
qed

lemma close_func_open:
  assumes "open_inv S p ws rcv c"
  shows "\<exists>e. uvl_client_close_func S c = Inr (e, uvl_client_freed c)"
  using assms by (simp add: open_inv_def uvl_client_close_func_def uvl_client_abort_def)

lemma shut_cancel: "shut_inv S ws rcv c \<Longrightarrow> Close_cb \<notin> set (ut_log c) \<Longrightarrow>
    shut_inv S ws rcv (uvl_cancel_reqs c) \<and> ut_writes (uvl_cancel_reqs c) = []"
  by (auto simp: shut_inv_def uvl_cancel_reqs_def read_end_def no_close_filter filter_empty_conv)

lemma shut_close:
  assumes "shut_inv S ws rcv c" and "Close_cb \<notin> set (ut_log c)"
  shows "shut_inv S ws rcv ((uvl_cancel_reqs c)\<lparr>ut_closing := True\<rparr>)"
  using shut_cancel [OF assms] by (auto simp: shut_inv_def)

lemma freed_log: "Close_cb \<notin> set (ut_log c) \<Longrightarrow> Close_cb \<notin> set (ut_log (uvl_client_freed c))"
  by (simp add: uvl_client_freed_def read_end_def)

definition conn_inv :: "stack \<Rightarrow> (nat \<times> bytes) list \<Rightarrow> bytes \<Rightarrow> uvl_tcp \<Rightarrow> bool" where
  "conn_inv S ws rcv c \<longleftrightarrow> (\<exists>p. open_inv S p ws rcv c) \<or> shut_inv S ws rcv c"

lemma open_step:
  assumes "good S" and "open_inv S p ws rcv c" and "tcp_event_ok c e"
  shows "\<exists>c'. tcp_handle S e c = Inr c' \<and> conn_inv S (ws @ event_write e) (rcv @ event_data S c e) c'"
proof (cases e)
  case (T_write i b)
  then show ?thesis using open_write [OF assms(2), of i b] by (auto simp: conn_inv_def)
next
  case T_write_async
  then show ?thesis using open_write_async [OF assms(1,2)] by (auto simp: conn_inv_def)
next
  case (T_acked n)
  have "ut_pcb c = Some p" using assms(2) by (simp add: open_inv_def)
  then show ?thesis using T_acked assms(3) open_acked [OF assms(2), of n] by (auto simp: conn_inv_def)
next
  case (T_recv d)
  show ?thesis
  proof (cases d)
    case None
    from close_func_open [OF assms(2)] obtain err where "uvl_client_close_func S c = Inr (err, uvl_client_freed c)" ..
    moreover have "\<not> ut_closed c" using assms(2) by (simp add: open_inv_def)
    ultimately show ?thesis using T_recv None open_freed [OF assms(2)]
      by (simp add: conn_inv_def uvl_client_recv_func_def)
  next
    case (Some b)
    then have "b \<noteq> []" "\<not> ut_closed c" using assms(2,3) T_recv by (simp_all add: open_inv_def)
    moreover from assms(2) have "length b \<le> sk_wnd S - length (ut_recv c) \<Longrightarrow>
        open_inv S p ws (rcv @ b) (c\<lparr>ut_recv := ut_recv c @ b\<rparr>)" by (auto simp: open_inv_def)
    ultimately show ?thesis using T_recv Some assms(2)
      by (auto simp: conn_inv_def uvl_client_recv_func_def)
  qed
next
  case T_err
  then show ?thesis using open_freed [OF assms(2)] by (simp add: conn_inv_def uvl_client_err_func_def)
next
  case T_read_async
  then show ?thesis using assms(2)
    by (intro exI [of _ "if ut_reading c \<and> ut_recv c \<noteq> [] then c\<lparr>ut_recv := [],
          ut_log := ut_log c @ [Read_cb (int (length (ut_recv c))) (ut_recv c)]\<rparr> else c"])
      (auto simp: conn_inv_def open_inv_def uvl_async_tcp_read_cb_def)
next
  case T_read_start
  then show ?thesis using assms(2) by (auto simp: conn_inv_def uvl_read_start_def open_inv_def)
next
  case T_read_stop
  then show ?thesis using assms(2) by (auto simp: conn_inv_def uvl_read_stop_def open_inv_def)
next
  case T_close
  from close_func_open [OF assms(2)] obtain err where "uvl_client_close_func S c = Inr (err, uvl_client_freed c)" ..
  moreover have "Close_cb \<notin> set (ut_log c)" "\<not> ut_closed c" using assms(2) by (simp_all add: open_inv_def)
  ultimately have "tcp_handle S e c = Inr ((uvl_cancel_reqs (uvl_client_freed c))\<lparr>ut_closing := True\<rparr>)"
    using T_close by (simp add: uvl_tcp_close_def)
  moreover have "shut_inv S ws rcv ((uvl_cancel_reqs (uvl_client_freed c))\<lparr>ut_closing := True\<rparr>)"
    by (rule shut_close [OF open_freed [OF assms(2)] freed_log]) fact
  ultimately show ?thesis using T_close by (simp add: conn_inv_def)
next
  case T_handle_closed
  then show ?thesis using assms(2,3) by (simp add: open_inv_def)
qed

lemma shut_step:
  assumes "shut_inv S ws rcv c" and "Close_cb \<notin> set (ut_log c)" and "tcp_event_ok c e"
  shows "\<exists>c'. tcp_handle S e c = Inr c' \<and> shut_inv S (ws @ event_write e) (rcv @ event_data S c e) c'"
proof (cases e)
  case (T_write i b)
  then show ?thesis using assms by (auto simp: shut_inv_def uvl_write_req_def)
next
  case T_write_async
  define c1 where "c1 = c\<lparr>ut_log := ut_log c @ map (\<lambda>r. Write_cb (uw_id r) 0) (takeWhile req_done (ut_writes c)),
    ut_writes := dropWhile req_done (ut_writes c)\<rparr>"
  have "map uw_id (ut_writes c) = map uw_id (takeWhile req_done (ut_writes c)) @ map uw_id (dropWhile req_done (ut_writes c))"
    by (metis map_append takeWhile_dropWhile_id)
  then have "shut_inv S ws rcv c1" "Close_cb \<notin> set (ut_log c1)"
    using assms(1,2) T_write_async assms(3) no_close_write
    by (auto simp: shut_inv_def c1_def no_close_filter filter_empty_conv)
  moreover have "uvl_async_tcp_write_cb S c = Inr (uvl_cancel_reqs c1)"
    using assms(1) by (simp add: uvl_async_tcp_write_cb_def Let_def c1_def shut_inv_def)
  ultimately show ?thesis using T_write_async shut_cancel by simp
next
  case T_close
  with assms have "shut_inv S ws rcv ((uvl_cancel_reqs c)\<lparr>ut_closing := True\<rparr>)"
    using shut_close [OF assms(1,2)] by simp
  moreover have "ut_closed c" using assms(1) by (simp add: shut_inv_def)
  ultimately show ?thesis using T_close by (simp add: uvl_tcp_close_def)
next
  case T_handle_closed
  then show ?thesis using assms
    by (auto simp: shut_inv_def uvl_tcp_close_handle_cb_def Let_def no_close_filter)
qed (use assms in \<open>auto simp: shut_inv_def uvl_read_start_def uvl_read_stop_def uvl_async_tcp_read_cb_def no_close_filter\<close>)

lemma open_pcb: "open_inv S p ws rcv c \<Longrightarrow> ut_pcb c = Some p"
  and shut_pcb: "shut_inv S ws rcv c \<Longrightarrow> ut_pcb c = None"
  by (simp_all add: open_inv_def shut_inv_def)

lemma reached_conn_inv:
  assumes "tcp_reached S p ws rcv c" and "good S"
  shows "conn_inv S ws rcv c"
  using assms
proof (induction rule: tcp_reached.induct)
  case accepted
  then show ?case using open_accepted by (auto simp: conn_inv_def)
next
  case (handled ws rcv c e c')
  note e = handled.hyps(2,3) and inv = handled.IH [OF handled.prems]
  show ?case
    using inv open_step [OF handled.prems _ e(2), of _ ws rcv] shut_step [of S ws rcv c e, OF _ e] handled.hyps(4)
    unfolding conn_inv_def by (metis sum.inject(2))
qed

lemma total_sent_le:
  assumes "req_ok r"
  shows "uw_total_sent r \<le> length (concat (uw_bufs r))"
proof (cases "passed r")
  case True
  then show ?thesis using assms by (simp add: req_ok_def)
next
  case False
  from assms False have k: "uw_sent_bufs r < length (uw_bufs r)" "uw_sent r \<le> length (uw_bufs r ! uw_sent_bufs r)"
    "uw_total_sent r = length (concat (take (uw_sent_bufs r) (uw_bufs r))) + uw_sent r" by (simp_all add: req_ok_def)
  have "length (concat (uw_bufs r)) = length (concat (take (uw_sent_bufs r) (uw_bufs r))) +
      length (concat (drop (uw_sent_bufs r) (uw_bufs r)))"
    by (metis append_take_drop_id concat_append length_append)
  with k show ?thesis by (simp add: Cons_nth_drop_Suc [symmetric])
qed

lemma sent_length: "queue_ok rs \<Longrightarrow>
    length (concat (map (\<lambda>r. concat (uw_bufs r)) rs)) \<ge> length (concat (map req_unsent rs)) + sum_list (map uw_pending rs)"
proof (induction rs)
  case (Cons r rs)
  have r: "req_ok r" using Cons.prems by simp
  have "queue_ok rs" using Cons.prems queue_ok_fresh by (auto split: if_splits)
  note ih = Cons.IH [OF this]
  have "uw_pending r \<le> uw_total_sent r" using r by (simp add: req_ok_def)
  with total_sent_le [OF r] have "length (req_unsent r) + uw_pending r \<le> length (concat (uw_bufs r))"
    by (simp add: req_unsent_def)
  with ih show ?case by simp
qed simp

lemma unsent_all:
  assumes "req_ok r" and "req_unsent r = []"
  shows "uw_total_sent r = uw_total_len r"
proof -
  have "uw_total_len r = length (concat (uw_bufs r))" using assms(1) by (simp add: req_ok_def)
  moreover have "length (concat (uw_bufs r)) \<le> uw_total_sent r" using assms(2) by (simp add: req_unsent_def)
  ultimately show ?thesis using total_sent_le [OF assms(1)] by linarith
qed

lemma open_stream:
  assumes "open_inv S p ws rcv c"
  shows "\<exists>rest. concat (map snd ws) = tp_out p @ rest"
    and "length (concat (map snd (take (length (cb_ids (ut_log c))) ws))) + tp_unacked p \<le> length (tp_out p)"
    and "rcv = delivered (ut_log c) @ ut_recv c"
proof -
  obtain reported where rep: "ws = reported @ map (\<lambda>r. (uw_id r, concat (uw_bufs r))) (ut_writes c)"
    "cb_ids (ut_log c) = map fst reported" using assms by (auto simp: open_inv_def)
  have q: "queue_ok (ut_writes c)" "concat (map snd ws) = tp_out p @ concat (map req_unsent (ut_writes c))"
    "tp_unacked p = sum_list (map uw_pending (ut_writes c))" using assms by (simp_all add: open_inv_def)
  then show "\<exists>rest. concat (map snd ws) = tp_out p @ rest" by blast
  have "length (concat (map snd ws)) =
      length (concat (map snd reported)) + length (concat (map (\<lambda>r. concat (uw_bufs r)) (ut_writes c)))"
    by (simp add: rep(1) comp_def)
  with q(2,3) sent_length [OF q(1)] have "length (concat (map snd reported)) + tp_unacked p \<le> length (tp_out p)"
    by simp
  then show "length (concat (map snd (take (length (cb_ids (ut_log c))) ws))) + tp_unacked p \<le> length (tp_out p)"
    using rep by simp
  show "rcv = delivered (ut_log c) @ ut_recv c" using assms by (simp add: open_inv_def)
qed

lemma open_always:
  assumes "open_inv S p ws rcv c"
  shows "cb_ids (ut_log c) @ map uw_id (ut_writes c) = map fst ws \<and> (\<exists>rest. rcv = delivered (ut_log c) @ rest) \<and>
    length (filter ((=) Close_cb) (ut_log c)) \<le> 1 \<and> (Close_cb \<in> set (ut_log c) \<longrightarrow> ut_writes c = [])"
  using assms no_close_filter [of "ut_log c"] by (auto simp: open_inv_def comp_def)

lemma shut_always:
  assumes "shut_inv S ws rcv c"
  shows "cb_ids (ut_log c) @ map uw_id (ut_writes c) = map fst ws \<and> (\<exists>rest. rcv = delivered (ut_log c) @ rest) \<and>
    length (filter ((=) Close_cb) (ut_log c)) \<le> 1 \<and> (Close_cb \<in> set (ut_log c) \<longrightarrow> ut_writes c = [])"
  using assms unfolding shut_inv_def by blast

text \<open>C4: A connection keeps its promises in whatever order the owner, libuv and the stack call, as long as the stack accepts
  or defers what it is given. Every request is reported exactly once, in the order of the writes, or is still queued; what the
  reader got is a prefix of what came in. While the connection is open, what went out is a prefix of all that was written, a
  request is reported only when its bytes are acknowledged, and no received byte is lost. Close is reported at most once, and
  then no request is left. No permitted call fails.\<close>

theorem tcp_connection_correct:
  assumes "good S" and "tcp_reached S p0 ws rcv c"
  shows "cb_ids (ut_log c) @ map uw_id (ut_writes c) = map fst ws \<and>
    (\<exists>rest. rcv = delivered (ut_log c) @ rest) \<and>
    (\<forall>p. ut_pcb c = Some p \<longrightarrow>
      (\<exists>rest. concat (map snd ws) = tp_out p @ rest) \<and>
      length (concat (map snd (take (length (cb_ids (ut_log c))) ws))) + tp_unacked p \<le> length (tp_out p) \<and>
      rcv = delivered (ut_log c) @ ut_recv c) \<and>
    length (filter ((=) Close_cb) (ut_log c)) \<le> 1 \<and> (Close_cb \<in> set (ut_log c) \<longrightarrow> ut_writes c = []) \<and>
    (\<forall>e. Close_cb \<notin> set (ut_log c) \<and> tcp_event_ok c e \<longrightarrow> returns (tcp_handle S e c))"
proof -
  have ret: "returns (tcp_handle S e c)" if "Close_cb \<notin> set (ut_log c)" "tcp_event_ok c e" for e
    using reached_conn_inv [OF assms(2,1)] that open_step [OF assms(1), of _ ws rcv c e] shut_step [of S ws rcv c e]
    unfolding conn_inv_def returns_iff by blast
  have pcb: "ut_pcb c = Some q \<Longrightarrow> open_inv S q ws rcv c" for q
    using reached_conn_inv [OF assms(2,1)] open_pcb shut_pcb unfolding conn_inv_def by (metis option.distinct(1) option.inject)
  have all: "cb_ids (ut_log c) @ map uw_id (ut_writes c) = map fst ws \<and> (\<exists>rest. rcv = delivered (ut_log c) @ rest) \<and>
      length (filter ((=) Close_cb) (ut_log c)) \<le> 1 \<and> (Close_cb \<in> set (ut_log c) \<longrightarrow> ut_writes c = [])"
    using reached_conn_inv [OF assms(2,1)] open_always shut_always unfolding conn_inv_def by blast
  show ?thesis
    using all pcb open_stream ret by (intro conjI allI impI) blast+
qed

text \<open>Running a list of permitted calls, for examples.\<close>

fun tcp_run :: "stack \<Rightarrow> tcp_event list \<Rightarrow> (nat \<times> bytes) list \<Rightarrow> bytes \<Rightarrow> uvl_tcp \<Rightarrow> ((nat \<times> bytes) list \<times> bytes \<times> uvl_tcp) option" where
  "tcp_run S [] ws rcv c = Some (ws, rcv, c)"
| "tcp_run S (e # es) ws rcv c =
     (if Close_cb \<in> set (ut_log c) \<or> \<not> tcp_event_ok c e then None
      else case tcp_handle S e c of
             Inl _ \<Rightarrow> None
           | Inr c' \<Rightarrow> tcp_run S es (ws @ event_write e) (rcv @ event_data S c e) c')"

lemma tcp_run_reached:
  "tcp_reached S p ws rcv c \<Longrightarrow> tcp_run S es ws rcv c = Some (ws', rcv', c') \<Longrightarrow> tcp_reached S p ws' rcv' c'"
proof (induction es arbitrary: ws rcv c)
  case (Cons e es)
  from Cons.prems(2) obtain c1 where c1: "Close_cb \<notin> set (ut_log c)" "tcp_event_ok c e" "tcp_handle S e c = Inr c1"
    "tcp_run S es (ws @ event_write e) (rcv @ event_data S c e) c1 = Some (ws', rcv', c')"
    by (auto split: if_splits sum.splits)
  from Cons.IH [OF tcp_reached.handled [OF Cons.prems(1) c1(1-3)] c1(4)] show ?case .
qed simp

definition example_stack :: stack where
  "example_stack = \<lparr>sk_write = (\<lambda>_. ERR_OK), sk_output = ERR_OK, sk_close = ERR_OK, sk_async = 0, sk_wnd = 64\<rparr>"

definition example_pcb :: tcp_pcb where
  "example_pcb = \<lparr>tp_sndbuf = 3, tp_out = [], tp_unacked = 0\<rparr>"

text \<open>Two writes, of which the send buffer of three bytes takes the first and a part of the second; two bytes are
  acknowledged and the first request is reported; data comes in and a part of it is read.\<close>

definition example_calls :: "tcp_event list" where
  "example_calls = [T_write 7 [1, 2], T_write 8 [3, 4], T_write_async, T_acked 2, T_read_start, T_recv (Some [10, 11]),
     T_read_async, T_recv (Some [12]), T_write_async]"

definition example_tcp :: uvl_tcp where
  "example_tcp = \<lparr>ut_recv = [12], ut_writes = [\<lparr>uw_id = 8, uw_bufs = [[3, 4]], uw_sent_bufs = 1, uw_sent = 0, uw_pending = 2,
       uw_total_sent = 2, uw_total_len = 2\<rparr>], ut_reading = True, ut_closed = False,
     ut_pcb = Some \<lparr>tp_sndbuf = 1, tp_out = [1, 2, 3, 4], tp_unacked = 2\<rparr>, ut_closed_handle = 0, ut_closing = False,
     ut_log = [Read_cb 2 [10, 11], Write_cb 7 0]\<rparr>"

lemma example_run: "tcp_run example_stack example_calls [] [] (uvl_accept example_pcb uvl_tcp_init) =
    Some ([(7, [1, 2]), (8, [3, 4])], [10, 11, 12], example_tcp)"
  by code_simp

lemma example_reached: "tcp_reached example_stack example_pcb [(7, [1, 2]), (8, [3, 4])] [10, 11, 12] example_tcp"
  by (rule tcp_run_reached [OF tcp_reached.accepted example_run]) (simp_all add: example_pcb_def)

theorem tcp_connection_correct_witness:
  "good example_stack \<and> tcp_reached example_stack example_pcb [(7, [1, 2]), (8, [3, 4])] [10, 11, 12] example_tcp \<and>
   cb_ids (ut_log example_tcp) @ map uw_id (ut_writes example_tcp) = [7, 8] \<and>
   returns (tcp_handle example_stack T_close example_tcp)"
proof -
  have g: "good example_stack" by (simp add: good_def example_stack_def)
  have "tcp_event_ok example_tcp T_close" "Close_cb \<notin> set (ut_log example_tcp)" by (simp_all add: example_tcp_def)
  with tcp_connection_correct [OF g example_reached] have "returns (tcp_handle example_stack T_close example_tcp)" by blast
  with tcp_connection_correct [OF g example_reached] g example_reached show ?thesis by simp
qed

text \<open>A round in which the write handle runs and the peer acknowledges all that is outstanding.\<close>

definition tcp_round :: "stack \<Rightarrow> uvl_tcp \<Rightarrow> uvl_tcp res" where
  "tcp_round S c =
     rbind (tcp_handle S T_write_async c) (\<lambda>c1.
     case ut_pcb c1 of
       None \<Rightarrow> Inr c1
     | Some p \<Rightarrow> if tp_unacked p = 0 then Inr c1 else tcp_handle S (T_acked (tp_unacked p)) c1)"

primrec tcp_rounds :: "stack \<Rightarrow> nat \<Rightarrow> uvl_tcp \<Rightarrow> uvl_tcp res" where
  "tcp_rounds S 0 c = Inr c"
| "tcp_rounds S (Suc n) c = rbind (tcp_round S c) (tcp_rounds S n)"

definition queue_unsent :: "uvl_tcp \<Rightarrow> bytes" where
  "queue_unsent c = concat (map req_unsent (ut_writes c))"

definition accepts :: "stack \<Rightarrow> bool" where
  "accepts S \<longleftrightarrow> (\<forall>p. sk_write S p = ERR_OK) \<and> sk_output S = ERR_OK"

lemma accepts_good: "accepts S \<Longrightarrow> good S"
  by (simp add: accepts_def good_def)

lemma sent_func_writes: "uvl_client_sent_func n c = Inr c' \<Longrightarrow>
    \<exists>rs. c' = c\<lparr>ut_writes := rs\<rparr>"
  by (auto simp: uvl_client_sent_func_def rbind_eq_Inr split: if_splits)

lemma open_unsent: "open_inv S p ws rcv c \<Longrightarrow> length (concat (map snd ws)) = length (tp_out p) + length (queue_unsent c)"
  by (simp add: open_inv_def queue_unsent_def)

lemma round_progress:
  assumes "accepts S" and "open_inv S p ws rcv c"
  shows "\<exists>c' p'. tcp_round S c = Inr c' \<and> open_inv S p' ws rcv c' \<and> tp_unacked p' = 0 \<and>
    tp_sndbuf p' = tp_sndbuf p + tp_unacked p \<and>
    (queue_unsent c' = [] \<or> length (queue_unsent c') + tp_sndbuf p = length (queue_unsent c)) \<and>
    (queue_unsent c = [] \<and> tp_unacked p = 0 \<longrightarrow> ut_writes c' = [])"
proof -
  note ok = accepts_good [OF assms(1)]
  from write_async_good [OF ok assms(2)] obtain bs rs where
    w: "uvl_async_tcp_write_cb S c = Inr (c\<lparr>ut_pcb := Some (tcp_write bs p), ut_writes := rs,
      ut_log := ut_log c @ map (\<lambda>r. Write_cb (uw_id r) 0) (takeWhile req_done (ut_writes c))\<rparr>)"
    and rs: "queue_unsent c = bs @ concat (map req_unsent rs)" "map uw_id rs = map uw_id (dropWhile req_done (ut_writes c))"
      "length bs \<le> tp_sndbuf p" "concat (map req_unsent rs) \<noteq> [] \<longrightarrow> length bs = tp_sndbuf p"
    using assms(1) unfolding accepts_def queue_unsent_def by blast
  define c1 where "c1 = c\<lparr>ut_pcb := Some (tcp_write bs p), ut_writes := rs,
      ut_log := ut_log c @ map (\<lambda>r. Write_cb (uw_id r) 0) (takeWhile req_done (ut_writes c))\<rparr>"
  let ?p = "tcp_write bs p"
  have c1: "open_inv S ?p ws rcv c1"
    using open_write_async [OF ok assms(2)] w by (auto simp: c1_def open_inv_def)
  have u1: "queue_unsent c1 = concat (map req_unsent rs)" by (simp add: c1_def queue_unsent_def)
  have less: "queue_unsent c1 = [] \<or> length (queue_unsent c1) + tp_sndbuf p = length (queue_unsent c)"
    unfolding u1 using rs(1,4) by (metis length_append add.commute)
  have gone: "ut_writes c1 = []" if "queue_unsent c = []" "tp_unacked p = 0"
  proof -
    have "req_done r" if "r \<in> set (ut_writes c)" for r
    proof -
      have "req_ok r" using queue_ok_req that assms(2) by (auto simp: open_inv_def)
      moreover have "uw_pending r = 0" using that \<open>tp_unacked p = 0\<close> assms(2) by (simp add: open_inv_def)
      moreover have "req_unsent r = []" using that \<open>queue_unsent c = []\<close> by (simp add: queue_unsent_def)
      ultimately show ?thesis using unsent_all by (simp add: req_done_def)
    qed
    then have "dropWhile req_done (ut_writes c) = []" by simp
    with rs(2) have "map uw_id rs = []" by (simp only: list.map)
    then show ?thesis by (simp add: c1_def)
  qed
  show ?thesis
  proof (cases "tp_unacked ?p = 0")
    case True
    then have "tcp_round S c = Inr c1" "bs = []" using w by (simp_all add: tcp_round_def c1_def tcp_write_def)
    moreover from this(2) have "tp_sndbuf ?p = tp_sndbuf p + tp_unacked p" using True by (simp add: tcp_write_def)
    ultimately show ?thesis using c1 True less gone by (intro exI [of _ c1] exI [of _ ?p]) simp
  next
    case False
    then obtain c2 where c2: "uvl_client_sent_func (tp_unacked ?p) (c1\<lparr>ut_pcb := Some (acked_pcb (tp_unacked ?p) ?p)\<rparr>) = Inr c2"
      "open_inv S (acked_pcb (tp_unacked ?p) ?p) ws rcv c2" using open_acked [OF c1] by blast
    have "tcp_round S c = Inr c2" using w False c2(1) by (simp add: tcp_round_def c1_def)
    moreover have "length (queue_unsent c2) = length (queue_unsent c1)"
      using open_unsent [OF c1] open_unsent [OF c2(2)] by (simp add: acked_pcb_def)
    moreover have "tp_unacked ?p = length bs + tp_unacked p" by (simp add: tcp_write_def)
    moreover have "queue_unsent c = [] \<and> tp_unacked p = 0 \<Longrightarrow> False" using False rs(1) by (simp add: tcp_write_def)
    moreover have "tp_unacked (acked_pcb (tp_unacked ?p) ?p) = 0" "tp_sndbuf (acked_pcb (tp_unacked ?p) ?p) = tp_sndbuf p + tp_unacked p"
      using rs(3) by (simp_all add: acked_pcb_def tcp_write_def)
    moreover have "queue_unsent c2 = [] \<or> length (queue_unsent c2) + tp_sndbuf p = length (queue_unsent c)"
      using less calculation(2) by (metis length_0_conv)
    ultimately show ?thesis using c2(2) by auto
  qed
qed

lemma rounds_empty_queue:
  assumes "accepts S"
  shows "open_inv S p ws rcv c \<Longrightarrow> tp_unacked p = 0 \<Longrightarrow> 0 < tp_sndbuf p \<Longrightarrow> length (queue_unsent c) \<le> n \<Longrightarrow>
    \<exists>k \<le> Suc n. \<exists>c' p'. tcp_rounds S (Suc k) c = Inr c' \<and> open_inv S p' ws rcv c' \<and> ut_writes c' = []"
proof (induction n arbitrary: c p)
  case 0
  then have "queue_unsent c = [] \<and> tp_unacked p = 0" by (metis le_zero_eq length_0_conv)
  with round_progress [OF assms 0(1)] obtain c1 p1 where "tcp_round S c = Inr c1" "open_inv S p1 ws rcv c1" "ut_writes c1 = []"
    by blast
  then show ?case by (intro exI [of _ "0 :: nat"]) auto
next
  case (Suc n)
  from round_progress [OF assms Suc.prems(1)] obtain c1 p1 where r: "tcp_round S c = Inr c1" "open_inv S p1 ws rcv c1"
    "tp_unacked p1 = 0" "tp_sndbuf p1 = tp_sndbuf p + tp_unacked p"
    "queue_unsent c1 = [] \<or> length (queue_unsent c1) + tp_sndbuf p = length (queue_unsent c)" by blast
  have "length (queue_unsent c1) \<le> n" using r(5)
  proof
    assume "queue_unsent c1 = []"
    then show ?thesis by (simp only: list.size)
  next
    assume "length (queue_unsent c1) + tp_sndbuf p = length (queue_unsent c)"
    then show ?thesis using Suc.prems(3,4) by linarith
  qed
  moreover have "0 < tp_sndbuf p1" using r(4) Suc.prems(3) by simp
  ultimately obtain k c' p' where "k \<le> Suc n" "tcp_rounds S (Suc k) c1 = Inr c'"
    "open_inv S p' ws rcv c'" "ut_writes c' = []" using Suc.IH [OF r(2,3)] by blast
  moreover from this(2) r(1) have "tcp_rounds S (Suc (Suc k)) c = Inr c'" by simp
  ultimately show ?case by (meson Suc_le_mono)
qed

text \<open>C5: Nothing that was written waits for ever. When the stack accepts writes and the peer acknowledges what it is sent, then
  after at most as many rounds as there are bytes, and three more, an open connection with any send space has put out every byte
  in order and reported every request.\<close>

theorem tcp_writes_complete:
  assumes "accepts S" and "tcp_reached S p0 ws rcv c" and "ut_pcb c = Some p" and "0 < tp_sndbuf p + tp_unacked p"
  shows "\<exists>n \<le> length (concat (map snd ws)) + 3. \<exists>c' p'. tcp_rounds S n c = Inr c' \<and> ut_pcb c' = Some p' \<and>
    tp_out p' = concat (map snd ws) \<and> ut_writes c' = [] \<and> cb_ids (ut_log c') = map fst ws"
proof -
  have o: "open_inv S p ws rcv c"
    using reached_conn_inv [OF assms(2) accepts_good [OF assms(1)]] open_pcb shut_pcb assms(3)
    unfolding conn_inv_def by (metis option.distinct(1) option.inject)
  from round_progress [OF assms(1) o] obtain c1 p1 where r: "tcp_round S c = Inr c1" "open_inv S p1 ws rcv c1"
    "tp_unacked p1 = 0" "0 < tp_sndbuf p1" using assms(4) by metis
  have "length (queue_unsent c1) \<le> length (concat (map snd ws))" using open_unsent [OF r(2)] by simp
  from rounds_empty_queue [OF assms(1) r(2-4) this] obtain k c' p' where k: "k \<le> Suc (length (concat (map snd ws)))"
    "tcp_rounds S (Suc k) c1 = Inr c'" "open_inv S p' ws rcv c'" "ut_writes c' = []" by blast
  have "tcp_rounds S (Suc (Suc k)) c = Inr c'" using r(1) k(2) by simp
  moreover have "Suc (Suc k) \<le> length (concat (map snd ws)) + 3" using k(1) by simp
  moreover have "ut_pcb c' = Some p'" "tp_out p' = concat (map snd ws)" "cb_ids (ut_log c') = map fst ws"
    using k(3,4) by (auto simp: open_inv_def)
  ultimately show ?thesis using k(4) by blast
qed

theorem tcp_writes_complete_witness:
  "\<exists>n \<le> 7. \<exists>c' p'. tcp_rounds example_stack n example_tcp = Inr c' \<and> ut_pcb c' = Some p' \<and> tp_out p' = [1, 2, 3, 4] \<and>
     ut_writes c' = [] \<and> cb_ids (ut_log c') = [7, 8]"
proof -
  have a: "accepts example_stack" by (simp add: accepts_def example_stack_def)
  have p: "ut_pcb example_tcp = Some \<lparr>tp_sndbuf = 1, tp_out = [1, 2, 3, 4], tp_unacked = 2\<rparr>" by (simp add: example_tcp_def)
  from tcp_writes_complete [OF a example_reached p] show ?thesis by simp
qed

text \<open>C39: Data that arrives with the end of the stream is lost. If the stack hands over bytes and then the end before the
  read handle has run - as it does for a segment that carries both - the reader is told the end of the stream
  and never sees the bytes: the handle, when it runs, finds no reader, and a reader that starts again is told the end once more.\<close>

theorem fin_drops_unread:
  assumes "ut_pcb c = Some p" and "\<not> ut_closed c" and "ut_reading c" and "d \<noteq> []"
    and "length d \<le> sk_wnd S - length (ut_recv c)" and "length (ut_recv c) \<le> sk_wnd S"
  shows "\<exists>c1 c2. tcp_handle S (T_recv (Some d)) c = Inr c1 \<and> ut_recv c1 = ut_recv c @ d \<and>
    tcp_handle S (T_recv None) c1 = Inr c2 \<and> ut_log c2 = ut_log c @ [Read_cb UV_EOF []] \<and>
    tcp_handle S T_read_async c2 = Inr c2 \<and>
    (\<exists>c3. tcp_handle S T_read_start c2 = Inr c3 \<and> delivered (ut_log c3) = delivered (ut_log c) \<and>
       tcp_handle S T_read_async c3 = Inr c3)"
proof -
  define c1 where "c1 = c\<lparr>ut_recv := ut_recv c @ d\<rparr>"
  have recv: "tcp_handle S (T_recv (Some d)) c = Inr c1"
    using assms by (simp add: uvl_client_recv_func_def c1_def)
  define c2 where "c2 = uvl_client_freed c1"
  have fin: "tcp_handle S (T_recv None) c1 = Inr c2"
    using assms(1,2) by (simp add: uvl_client_recv_func_def uvl_client_close_func_def uvl_client_abort_def c1_def c2_def)
  have c2: "ut_log c2 = ut_log c @ [Read_cb UV_EOF []]" "\<not> ut_reading c2" "ut_closed c2" "length (ut_recv c2) \<le> sk_wnd S"
    using assms(3,5,6) by (simp_all add: c2_def c1_def uvl_client_freed_def read_end_def)
  show ?thesis using recv fin c2
    by (intro exI [of _ c1] exI [of _ c2]) (simp add: c1_def uvl_async_tcp_read_cb_def uvl_read_start_def)
qed

theorem fin_drops_unread_witness:
  "\<exists>c1 c2. tcp_handle example_stack (T_recv (Some [13])) example_tcp = Inr c1 \<and> ut_recv c1 = [12, 13] \<and>
     tcp_handle example_stack (T_recv None) c1 = Inr c2 \<and> ut_log c2 = ut_log example_tcp @ [Read_cb UV_EOF []]"
  using fin_drops_unread [of example_tcp "\<lparr>tp_sndbuf = 1, tp_out = [1, 2, 3, 4], tp_unacked = 2\<rparr>" "[13]" example_stack]
  by (auto simp: example_tcp_def example_stack_def)

text \<open>A failed write is fatal: when the stack refuses a write for good, the connection is freed and the
  next step of \<open>uvl_imp_write_to_tcp\<close> goes on with it.\<close>

lemma failed_write_uses_freed:
  assumes "ut_pcb c = Some p" and "\<not> ut_closed c" and "ut_writes c = r # rs" and "uw_sent_bufs r < length (uw_bufs r)"
    and "uw_sent r < length (uw_bufs r ! uw_sent_bufs r)" and "0 < tp_sndbuf p"
    and "sk_write S p \<noteq> ERR_OK" and "sk_write S p \<noteq> ERR_MEM"
  shows "uvl_imp_write_to_tcp S c = Inl Out_of_bounds"
proof -
  let ?buf = "uw_bufs r ! uw_sent_bufs r"
  define e where "e = (if sk_close S = ERR_OK then ERR_OK else ERR_ABRT)"
  have e: "uvl_client_close_func S c = Inr (e, uvl_client_freed c)" "e = ERR_OK \<or> e = ERR_ABRT"
    using assms(1,2) by (simp_all add: uvl_client_close_func_def uvl_client_abort_def e_def)
  have "write_buf_loop S ?buf c r = Inr (Return e, uvl_client_freed c, r)"
    using assms e(1) by (simp add: write_buf_loop.simps [of S ?buf c r] Let_def)
  then have b: "uvl_imp_write_buf_to_tcp S c r = Inr (e, uvl_client_freed c, r)"
    using assms(4) by (simp add: uvl_imp_write_buf_to_tcp_def)
  have "ut_pcb (uvl_client_freed c) = None" by (simp add: uvl_client_freed_def read_end_def)
  then show ?thesis using assms(1,3,4) b e(2)
    by (auto simp: uvl_imp_write_to_tcp_def write_reqs.simps [of S c "[]" "r # rs"] Let_def ERR_OK_def ERR_ABRT_def)
qed

end
