(* ===== verification/Tcp_Bridge.thy ===== *)
theory Tcp_Bridge
  imports Uvl Gateway
begin

text \<open>
  The TCP side of the gateway: the C++ class \<open>IConnection\<close> around a socket of \<open>uv_lwip.c\<close> (\<open>uv_lwip.hpp\<close>), its two subclasses in
  \<open>gateway.cpp\<close>, of which one passes bytes between the console's connection and a connection of the proxy, and one answers with a
  fixed page, and the proxy's side of it in \<open>proxy_direct.cpp\<close> and \<open>proxy_socks5.cpp\<close>. A subclass is an extension of the record
  of its class; its virtual functions are a table. A call into \<open>uv_lwip.c\<close> logs the callbacks it makes, and they are run behind it, in
  their order. The callbacks made inside \<open>uvl_tcp_close\<close> find the connection marked as closing, or a status that is not 0, and
  do nothing.
\<close>

section \<open>The class of connections\<close>

record iconn =
  ic_client :: uvl_tcp
  ic_closing :: bool
  ic_removed :: nat
  ic_reqs :: nat

record 'c vtable =
  vt_onData :: "bytes \<Rightarrow> 'c \<Rightarrow> 'c res"
  vt_onWrite :: "'c \<Rightarrow> 'c res"
  vt_onClose :: "'c \<Rightarrow> 'c res"
  vt_onClosed :: "'c \<Rightarrow> 'c res"

definition iconn_write :: "bytes \<Rightarrow> 'a iconn_scheme \<Rightarrow> 'a iconn_scheme" where
  "iconn_write d c = c\<lparr>ic_client := uvl_write_req (ic_reqs c) [d] (ic_client c), ic_reqs := ic_reqs c + 1\<rparr>"

definition iconn_stop :: "'a iconn_scheme \<Rightarrow> 'a iconn_scheme res" where
  "iconn_stop c =
     (case uvl_read_stop (ic_client c) of
        (ret, cl) \<Rightarrow> if ret = 0 then Inr (c\<lparr>ic_client := cl\<rparr>) else Inl Assert_failed)"

text \<open>\<open>ic_removed\<close> counts the calls of \<open>removeConnection\<close>.\<close>

definition iconn_close :: "stack \<Rightarrow> 'a iconn_scheme \<Rightarrow> 'a iconn_scheme res" where
  "iconn_close S c =
     (let c1 = c\<lparr>ic_removed := ic_removed c + 1\<rparr> in
      if ic_closing c1 then Inr c1
      else rbind (uvl_tcp_close S (ic_client c1)) (\<lambda>(ret, cl).
           if ret = 0 then Inr (c1\<lparr>ic_closing := True, ic_client := cl\<rparr>) else Inl Assert_failed))"

definition writeCallback :: "'a iconn_scheme vtable \<Rightarrow> int \<Rightarrow> 'a iconn_scheme \<Rightarrow> 'a iconn_scheme res" where
  "writeCallback V status c = (if status = 0 then vt_onWrite V c else Inr c)"

definition readCallback :: "'a iconn_scheme vtable \<Rightarrow> int \<Rightarrow> bytes \<Rightarrow> 'a iconn_scheme \<Rightarrow> 'a iconn_scheme res" where
  "readCallback V nread d c =
     (if nread > 0 then vt_onData V d c else if \<not> ic_closing c then vt_onClose V c else Inr c)"

definition closeCallback :: "'a iconn_scheme vtable \<Rightarrow> 'a iconn_scheme \<Rightarrow> 'a iconn_scheme res" where
  "closeCallback V c = vt_onClosed V c"

fun callback :: "'a iconn_scheme vtable \<Rightarrow> uvl_cb \<Rightarrow> 'a iconn_scheme \<Rightarrow> 'a iconn_scheme res" where
  "callback V (Read_cb n d) c = readCallback V n d c"
| "callback V (Write_cb i st) c = writeCallback V st c"
| "callback V Close_cb c = closeCallback V c"

fun callbacks :: "'a iconn_scheme vtable \<Rightarrow> uvl_cb list \<Rightarrow> 'a iconn_scheme \<Rightarrow> 'a iconn_scheme res" where
  "callbacks V [] c = Inr c"
| "callbacks V (x # xs) c = rbind (callback V x c) (callbacks V xs)"

definition new_cbs :: "uvl_tcp \<Rightarrow> uvl_tcp \<Rightarrow> uvl_cb list" where
  "new_cbs c c' = drop (length (ut_log c)) (ut_log c')"

definition iconn_read :: "'a iconn_scheme vtable \<Rightarrow> stack \<Rightarrow> 'a iconn_scheme \<Rightarrow> 'a iconn_scheme res" where
  "iconn_read V S c =
     (case uvl_read_start S (ic_client c) of
        (ret, cl) \<Rightarrow>
          rbind (callbacks V (new_cbs (ic_client c) cl) (c\<lparr>ic_client := cl\<rparr>)) (\<lambda>c'.
          if ret = 0 then Inr c' else Inl Assert_failed))"

text \<open>An event of the stack or of libuv on the socket, and the callbacks it makes.\<close>

definition iconn_event :: "'a iconn_scheme vtable \<Rightarrow> stack \<Rightarrow> tcp_event \<Rightarrow> 'a iconn_scheme \<Rightarrow> 'a iconn_scheme res" where
  "iconn_event V S e c =
     rbind (tcp_handle S e (ic_client c)) (\<lambda>cl. callbacks V (new_cbs (ic_client c) cl) (c\<lparr>ic_client := cl\<rparr>))"

definition new_iconn :: "tcp_pcb \<Rightarrow> iconn" where
  "new_iconn p = \<lparr>ic_client = uvl_accept p uvl_tcp_init, ic_closing = False, ic_removed = 0, ic_reqs = 0\<rparr>"

section \<open>The proxy's connection\<close>

text \<open>
  \<open>DirectProxyTcp\<close> has its handle from the start, \<open>Socks5ProxyTcp\<close> from the end of the handshake on. Of the handle: whether it reads,
  the writes not reported yet, all that was written, and whether it was closed.
\<close>

record ptcp =
  pt_handle :: bool
  pt_connected :: bool
  pt_reading :: bool
  pt_pending :: nat
  pt_out :: bytes
  pt_closed :: bool
  pt_target :: "sockaddr_in option"

definition new_DirectProxyTcp :: ptcp where
  "new_DirectProxyTcp = \<lparr>pt_handle = True, pt_connected = False, pt_reading = False, pt_pending = 0, pt_out = [], pt_closed = False, pt_target = None\<rparr>"

definition new_Socks5ProxyTcp :: ptcp where
  "new_Socks5ProxyTcp = \<lparr>pt_handle = False, pt_connected = False, pt_reading = False, pt_pending = 0, pt_out = [], pt_closed = False, pt_target = None\<rparr>"

definition pt_connect :: "sockaddr_in \<Rightarrow> ptcp \<Rightarrow> ptcp" where
  "pt_connect addr p = p\<lparr>pt_target := Some addr\<rparr>"

text \<open>The connection is there; of \<open>Socks5ProxyTcp\<close> the handle is set then.\<close>

definition pt_ready :: "ptcp \<Rightarrow> ptcp" where
  "pt_ready p = p\<lparr>pt_handle := True, pt_connected := True\<rparr>"

definition pt_stop :: "ptcp \<Rightarrow> ptcp res" where
  "pt_stop p = (if \<not> pt_handle p then Inl Out_of_bounds else Inr (p\<lparr>pt_reading := False\<rparr>))"

text \<open>libuv refuses to start reading a second time, or when the handle is closing, which is an error event.\<close>

definition pt_read :: "ptcp \<Rightarrow> (bool \<times> ptcp) res" where
  "pt_read p =
     (if \<not> pt_handle p then Inl Out_of_bounds
      else if pt_reading p \<or> pt_closed p then Inr (True, p)
      else Inr (False, p\<lparr>pt_reading := True\<rparr>))"

definition pt_write :: "bytes \<Rightarrow> ptcp \<Rightarrow> ptcp res" where
  "pt_write d p = (if \<not> pt_handle p then Inl Out_of_bounds else Inr (p\<lparr>pt_pending := pt_pending p + 1, pt_out := pt_out p @ d\<rparr>))"

definition pt_close :: "ptcp \<Rightarrow> ptcp res" where
  "pt_close p = (if \<not> pt_handle p then Inl Out_of_bounds else Inr (p\<lparr>pt_closed := True\<rparr>))"

section \<open>The bridge\<close>

record bridge = iconn +
  br_ptcp :: ptcp
  br_closing :: bool

definition kill :: "stack \<Rightarrow> bridge \<Rightarrow> bridge res" where
  "kill S b =
     (if br_closing b then Inr b
      else
        rbind (pt_stop (br_ptcp b)) (\<lambda>p1.
        rbind (iconn_stop (b\<lparr>br_closing := True, br_ptcp := p1\<rparr>)) (\<lambda>b1.
        rbind (pt_close p1) (\<lambda>p2.
        iconn_close S (b1\<lparr>br_ptcp := p2\<rparr>)))))"

definition bridge_onData :: "bytes \<Rightarrow> bridge \<Rightarrow> bridge res" where
  "bridge_onData d b = rbind (iconn_stop b) (\<lambda>b1. rbind (pt_write d (br_ptcp b1)) (\<lambda>p. Inr (b1\<lparr>br_ptcp := p\<rparr>)))"

definition bridge_onWrite :: "stack \<Rightarrow> bridge \<Rightarrow> bridge res" where
  "bridge_onWrite S b =
     rbind (pt_read (br_ptcp b)) (\<lambda>(refused, p). if refused then kill S b else Inr (b\<lparr>br_ptcp := p\<rparr>))"

definition bridge_vtable :: "stack \<Rightarrow> bridge vtable" where
  "bridge_vtable S =
     \<lparr>vt_onData = bridge_onData, vt_onWrite = bridge_onWrite S, vt_onClose = kill S, vt_onClosed = kill S\<rparr>"

text \<open>The handlers that \<open>onConnection\<close> gives the proxy's connection, and its \<open>connect\<close>.\<close>

definition on_ptcp_data :: "bytes \<Rightarrow> bridge \<Rightarrow> bridge res" where
  "on_ptcp_data d b = rbind (pt_stop (br_ptcp b)) (\<lambda>p. Inr (iconn_write d (b\<lparr>br_ptcp := p\<rparr>)))"

definition on_ptcp_write :: "stack \<Rightarrow> bridge \<Rightarrow> bridge res" where
  "on_ptcp_write S b = iconn_read (bridge_vtable S) S b"

definition on_ptcp_connect :: "stack \<Rightarrow> bridge \<Rightarrow> bridge res" where
  "on_ptcp_connect S b = rbind (bridge_onWrite S b) (iconn_read (bridge_vtable S) S)"

definition bridge_onConnection :: "tcp_pcb \<Rightarrow> sockaddr_in \<Rightarrow> ptcp \<Rightarrow> bridge" where
  "bridge_onConnection p local_addr pt =
     iconn.extend (new_iconn p) \<lparr>br_ptcp = pt_connect local_addr pt, br_closing = False\<rparr>"

text \<open>The events: those of the socket on lwIP, and those of the proxy's handle.\<close>

datatype bridge_event = B_lwip tcp_event | B_connected | B_data bytes | B_written | B_end

fun bridge_handle :: "stack \<Rightarrow> bridge_event \<Rightarrow> bridge \<Rightarrow> bridge res" where
  "bridge_handle S (B_lwip e) b = iconn_event (bridge_vtable S) S e b"
| "bridge_handle S B_connected b =
     on_ptcp_connect S (b\<lparr>br_ptcp := pt_ready (br_ptcp b)\<rparr>)"
| "bridge_handle S (B_data d) b = on_ptcp_data d b"
| "bridge_handle S B_written b = on_ptcp_write S (b\<lparr>br_ptcp := (br_ptcp b)\<lparr>pt_pending := pt_pending (br_ptcp b) - 1\<rparr>\<rparr>)"
| "bridge_handle S B_end b = kill S b"

text \<open>The stack and libuv call only for a connection that is alive; a proxy handle reports data only while it reads, an ended write
  only when there is one, and nothing but errors, which are ignored, once it was closed.\<close>

fun of_socket :: "tcp_event \<Rightarrow> bool" where
  "of_socket (T_write i d) = False"
| "of_socket T_read_start = False"
| "of_socket T_read_stop = False"
| "of_socket T_close = False"
| "of_socket _ = True"

fun bridge_ok :: "bridge \<Rightarrow> bridge_event \<Rightarrow> bool" where
  "bridge_ok b (B_lwip e) \<longleftrightarrow> Close_cb \<notin> set (ut_log (ic_client b)) \<and> tcp_event_ok (ic_client b) e \<and> of_socket e"
| "bridge_ok b B_connected \<longleftrightarrow> \<not> pt_connected (br_ptcp b) \<and> \<not> pt_closed (br_ptcp b)"
| "bridge_ok b (B_data d) \<longleftrightarrow> pt_connected (br_ptcp b) \<and> pt_reading (br_ptcp b) \<and> \<not> pt_closed (br_ptcp b)"
| "bridge_ok b B_written \<longleftrightarrow> pt_pending (br_ptcp b) > 0 \<and> \<not> pt_closed (br_ptcp b)"
| "bridge_ok b B_end \<longleftrightarrow> pt_handle (br_ptcp b)"

fun bridge_got :: "bridge_event \<Rightarrow> bytes" where
  "bridge_got (B_data d) = d"
| "bridge_got _ = []"

fun bridge_took :: "stack \<Rightarrow> bridge \<Rightarrow> bridge_event \<Rightarrow> bytes" where
  "bridge_took S b (B_lwip e) = event_data S (ic_client b) e"
| "bridge_took S b _ = []"

text \<open>\<open>bridge_reached S p addr pt got rcv b\<close>: a connection accepted with \<open>p\<close> and the new proxy connection \<open>pt\<close> comes to \<open>b\<close>; the proxy's
  handle gave the bytes \<open>got\<close>, the stack the bytes \<open>rcv\<close>.\<close>

inductive bridge_reached :: "stack \<Rightarrow> tcp_pcb \<Rightarrow> sockaddr_in \<Rightarrow> ptcp \<Rightarrow> bytes \<Rightarrow> bytes \<Rightarrow> bridge \<Rightarrow> bool"
  for S :: stack and p :: tcp_pcb and addr :: sockaddr_in and pt :: ptcp where
  bridge_start: "tp_out p = [] \<Longrightarrow> tp_unacked p = 0 \<Longrightarrow> pt = new_DirectProxyTcp \<or> pt = new_Socks5ProxyTcp \<Longrightarrow>
    bridge_reached S p addr pt [] [] (bridge_onConnection p addr pt)"
| bridge_step: "bridge_reached S p addr pt got rcv b \<Longrightarrow> bridge_ok b e \<Longrightarrow> bridge_handle S e b = Inr b' \<Longrightarrow>
    bridge_reached S p addr pt (got @ bridge_got e) (rcv @ bridge_took S b e) b'"

section \<open>One chunk at a time in each direction\<close>

definition flow :: "bridge \<Rightarrow> bool" where
  "flow b \<longleftrightarrow>
     \<not> br_closing b \<and> \<not> ic_closing b \<and> ic_removed b = 0 \<and> \<not> pt_closed (br_ptcp b) \<and>
     \<not> ut_closing (ic_client b) \<and> Close_cb \<notin> set (ut_log (ic_client b)) \<and>
     length (ut_writes (ic_client b)) \<le> 1 \<and> (pt_reading (br_ptcp b) \<longrightarrow> ut_writes (ic_client b) = []) \<and>
     pt_pending (br_ptcp b) \<le> 1 \<and> (ut_reading (ic_client b) \<longrightarrow> pt_pending (br_ptcp b) = 0) \<and>
     (pt_connected (br_ptcp b) \<longrightarrow> pt_handle (br_ptcp b)) \<and>
     (\<not> pt_connected (br_ptcp b) \<longrightarrow> ut_writes (ic_client b) = [] \<and> \<not> pt_reading (br_ptcp b) \<and>
        pt_pending (br_ptcp b) = 0 \<and> \<not> ut_reading (ic_client b))"

definition killed :: "bridge \<Rightarrow> bool" where
  "killed b \<longleftrightarrow>
     br_closing b \<and> ic_closing b \<and> ic_removed b = 1 \<and> pt_closed (br_ptcp b) \<and> \<not> pt_reading (br_ptcp b) \<and>
     (ut_closing (ic_client b) \<or> Close_cb \<in> set (ut_log (ic_client b)))"

lemma close_quiet:
  assumes "\<not> ut_reading c" and "uvl_tcp_close S c = Inr (ret, c')"
  shows "ret = 0 \<and> ut_closing c' \<and> delivered (ut_log c') = delivered (ut_log c) \<and> \<not> ut_reading c'"
  using assms
  by (auto simp: uvl_tcp_close_def uvl_client_close_func_def uvl_client_abort_def uvl_client_freed_def uvl_cancel_reqs_def
      read_end_def rbind_eq_Inr split: if_splits)

lemma reached_handle:
  assumes "good S" and "tcp_reached S p ws rcv c" and "Close_cb \<notin> set (ut_log c)" and "tcp_event_ok c e"
  shows "\<exists>c'. tcp_handle S e c = Inr c' \<and> tcp_reached S p (ws @ event_write e) (rcv @ event_data S c e) c'"
proof -
  from reached_conn_inv [OF assms(2,1)] obtain c' where "tcp_handle S e c = Inr c'"
    using open_step [OF assms(1) _ assms(4)] shut_step [OF _ assms(3,4)] unfolding conn_inv_def by blast
  then show ?thesis using tcp_reached.handled [OF assms(2,3,4)] by blast
qed

lemma kill_flow:
  assumes "good S" and "tcp_reached S p ws rcv (ic_client b)" and "flow b" and "pt_handle (br_ptcp b)"
  shows "\<exists>b'. kill S b = Inr b' \<and> tcp_reached S p ws rcv (ic_client b') \<and> killed b' \<and>
    pt_out (br_ptcp b') = pt_out (br_ptcp b) \<and> delivered (ut_log (ic_client b')) = delivered (ut_log (ic_client b))"
proof -
  let ?c = "ic_client b"
  have f: "\<not> br_closing b" "\<not> ic_closing b" "ic_removed b = 0" "\<not> ut_closing ?c" "Close_cb \<notin> set (ut_log ?c)"
    using assms(3) by (simp_all add: flow_def)
  define c1 where "c1 = ?c\<lparr>ut_reading := False\<rparr>"
  have "tcp_reached S p (ws @ event_write T_read_stop) (rcv @ event_data S ?c T_read_stop) c1"
    by (rule tcp_reached.handled [OF assms(2) f(5)]) (simp_all add: f(4) c1_def uvl_read_stop_def)
  then have r1: "tcp_reached S p ws rcv c1" by simp
  have c1: "Close_cb \<notin> set (ut_log c1)" "tcp_event_ok c1 T_close" "\<not> ut_reading c1" "ut_log c1 = ut_log ?c"
    using f by (simp_all add: c1_def)
  from reached_handle [OF assms(1) r1 c1(1,2)] obtain c2 where
    c2: "tcp_handle S T_close c1 = Inr c2" "tcp_reached S p ws rcv c2" by auto
  then obtain ret where ret: "uvl_tcp_close S c1 = Inr (ret, c2)" by (auto simp: rbind_eq_Inr)
  note q = close_quiet [OF c1(3) ret]
  have "kill S b = Inr (b\<lparr>br_closing := True, br_ptcp := (br_ptcp b)\<lparr>pt_reading := False, pt_closed := True\<rparr>,
      ic_client := c2, ic_removed := 1, ic_closing := True\<rparr>)"
    using f assms(4) ret q
    by (simp add: kill_def pt_stop_def pt_close_def iconn_stop_def iconn_close_def uvl_read_stop_def c1_def Let_def)
  then show ?thesis using c2(2) q c1(4) by (simp add: killed_def)
qed

text \<open>What an event of the socket logs while the connection is alive.\<close>

fun logged :: "tcp_event \<Rightarrow> uvl_tcp \<Rightarrow> uvl_tcp \<Rightarrow> uvl_cb list \<Rightarrow> bool" where
  "logged T_write_async c c' l \<longleftrightarrow> (\<forall>x \<in> set l. \<exists>i st. x = Write_cb i st) \<and> ut_reading c' = ut_reading c"
| "logged (T_recv None) c c' l \<longleftrightarrow> l = (if ut_reading c then [Read_cb UV_EOF []] else []) \<and> \<not> ut_reading c'"
| "logged T_err c c' l \<longleftrightarrow> l = (if ut_reading c then [Read_cb UV_EOF []] else []) \<and> \<not> ut_reading c'"
| "logged T_read_async c c' l \<longleftrightarrow>
     (l = [] \<or> ut_reading c \<and> (\<exists>d. d \<noteq> [] \<and> l = [Read_cb (int (length d)) d])) \<and> ut_reading c' = ut_reading c"
| "logged _ c c' l \<longleftrightarrow> l = [] \<and> ut_reading c' = ut_reading c"

lemma handle_logged:
  assumes "good S" and "tcp_reached S p ws rcv c" and "\<not> ut_closing c" and "Close_cb \<notin> set (ut_log c)" and "tcp_event_ok c e"
    and "of_socket e" and "tcp_handle S e c = Inr c'"
  shows "\<exists>l. ut_log c' = ut_log c @ l \<and> logged e c c' l \<and> \<not> ut_closing c' \<and>
    cb_ids l @ map uw_id (ut_writes c') = map uw_id (ut_writes c)"
proof -
  have inv: "conn_inv S ws rcv c" using reached_conn_inv [OF assms(2,1)] .
  have "conn_inv S (ws @ event_write e) (rcv @ event_data S c e) c'"
    using reached_conn_inv [OF tcp_reached.handled [OF assms(2,4,5,7)] assms(1)] .
  moreover have "event_write e = []" using assms(6) by (cases e) simp_all
  ultimately have ids: "cb_ids (ut_log c') @ map uw_id (ut_writes c') = cb_ids (ut_log c) @ map uw_id (ut_writes c)"
    using inv open_always shut_always unfolding conn_inv_def by (metis append_Nil2)
  have "\<exists>l. ut_log c' = ut_log c @ l \<and> logged e c c' l \<and> \<not> ut_closing c'"
  proof (cases "e = T_write_async")
    case True
    have ?thesis if "open_inv S q ws rcv c" for q
      using write_async_good [OF assms(1) that] assms(3,7) True by auto
    moreover have ?thesis if "shut_inv S ws rcv c"
      using that assms(3,7) True
      by (auto simp: uvl_async_tcp_write_cb_def Let_def shut_inv_def uvl_cancel_reqs_def read_end_def)
    ultimately show ?thesis using inv unfolding conn_inv_def by blast
  next
    case False
    then show ?thesis
      using assms(3,5,6,7)
      by (cases e)
        (auto simp: uvl_client_sent_func_def uvl_client_recv_func_def uvl_client_close_func_def uvl_client_abort_def
          uvl_client_err_func_def uvl_client_freed_def read_end_def uvl_async_tcp_read_cb_def rbind_eq_Inr
          split: if_splits option.splits)
  qed
  then show ?thesis using ids by auto
qed

definition bridge_inv :: "stack \<Rightarrow> tcp_pcb \<Rightarrow> bytes \<Rightarrow> bytes \<Rightarrow> bridge \<Rightarrow> bool" where
  "bridge_inv S p got rcv b \<longleftrightarrow>
     (\<exists>ws. tcp_reached S p ws rcv (ic_client b) \<and> got = concat (map snd ws)) \<and>
     pt_out (br_ptcp b) = delivered (ut_log (ic_client b)) \<and> (flow b \<or> killed b)"

lemma flow_handle: "flow b \<Longrightarrow> ut_reading (ic_client b) \<or> ut_writes (ic_client b) \<noteq> [] \<or> pt_reading (br_ptcp b) \<Longrightarrow>
    pt_handle (br_ptcp b) \<and> pt_connected (br_ptcp b)"
  by (auto simp: flow_def)

lemma read_flow:
  assumes "good S" and "sk_async S = 0" and "tcp_reached S p ws rcv (ic_client b)" and "flow b"
    and "\<not> ut_reading (ic_client b)" and "pt_pending (br_ptcp b) = 0" and "pt_connected (br_ptcp b)"
    and "pt_out (br_ptcp b) = delivered (ut_log (ic_client b))"
  shows "\<exists>b'. iconn_read (bridge_vtable S) S b = Inr b' \<and> bridge_inv S p (concat (map snd ws)) rcv b'"
proof -
  let ?c = "ic_client b"
  have f: "\<not> ut_closing ?c" "Close_cb \<notin> set (ut_log ?c)" "\<not> ic_closing b" using assms(4) by (simp_all add: flow_def)
  define c1 where "c1 = snd (uvl_read_start S ?c)"
  have "tcp_reached S p (ws @ event_write T_read_start) (rcv @ event_data S ?c T_read_start) c1"
    by (rule tcp_reached.handled [OF assms(3) f(2)]) (simp_all add: f(1) c1_def)
  then have r1: "tcp_reached S p ws rcv c1" by simp
  show ?thesis
  proof (cases "ut_closed ?c")
    case True
    then have c1: "c1 = ?c\<lparr>ut_log := ut_log ?c @ [Read_cb UV_EOF []]\<rparr>" using assms(5) by (simp add: c1_def uvl_read_start_def)
    let ?b = "b\<lparr>ic_client := c1\<rparr>"
    have "flow ?b" using assms(4) by (simp add: flow_def c1)
    moreover have "pt_handle (br_ptcp ?b)" using assms(4,7) by (simp add: flow_def)
    ultimately obtain b' where b': "kill S ?b = Inr b'" "tcp_reached S p ws rcv (ic_client b')" "killed b'"
        "pt_out (br_ptcp b') = pt_out (br_ptcp b)" "delivered (ut_log (ic_client b')) = delivered (ut_log c1)"
      using kill_flow [OF assms(1), of p ws rcv ?b] r1 by auto
    have "iconn_read (bridge_vtable S) S b = Inr b'"
      using True assms(5) b'(1) c1 f(3)
      by (simp add: iconn_read_def uvl_read_start_def new_cbs_def readCallback_def UV_EOF_def bridge_vtable_def)
    then show ?thesis using b' assms(8) c1 by (auto simp: bridge_inv_def)
  next
    case False
    then have c1: "c1 = ?c\<lparr>ut_reading := True\<rparr>" using assms(2,5) by (simp add: c1_def uvl_read_start_def)
    have "iconn_read (bridge_vtable S) S b = Inr (b\<lparr>ic_client := c1\<rparr>)"
      using False assms(2,5) c1 by (simp add: iconn_read_def uvl_read_start_def new_cbs_def)
    moreover have "flow (b\<lparr>ic_client := c1\<rparr>)" using assms(4,6,7) by (simp add: flow_def c1)
    ultimately show ?thesis using r1 assms(8) c1 by (auto simp: bridge_inv_def)
  qed
qed

lemma one_callback:
  assumes "\<forall>x \<in> set l. \<exists>i st. x = Write_cb i st" and "cb_ids l @ map uw_id rs' = map uw_id rs" and "length rs \<le> 1"
  shows "l = [] \<and> length rs' = length rs \<or> (\<exists>i st. l = [Write_cb i st] \<and> rs' = [] \<and> rs \<noteq> [])"
proof -
  have "length (cb_ids l) = length l" using assms(1) by (induction l) auto
  then have "length l + length rs' = length rs" using assms(2) by (metis length_append length_map)
  then show ?thesis using assms(1,3) by (cases l; cases "tl l"; cases rs') auto
qed

text \<open>The socket came from the client of \<open>b\<close> to \<open>c1\<close>, and the callbacks \<open>l\<close> are to be run.\<close>

definition due :: "stack \<Rightarrow> tcp_pcb \<Rightarrow> (nat \<times> bytes) list \<Rightarrow> bytes \<Rightarrow> bridge \<Rightarrow> uvl_tcp \<Rightarrow> uvl_cb list \<Rightarrow> bool" where
  "due S p ws rcv b c1 l \<longleftrightarrow>
     flow b \<and> pt_out (br_ptcp b) = delivered (ut_log (ic_client b)) \<and> tcp_reached S p ws rcv c1 \<and>
     ut_log c1 = ut_log (ic_client b) @ l \<and> \<not> ut_closing c1 \<and>
     cb_ids l @ map uw_id (ut_writes c1) = map uw_id (ut_writes (ic_client b))"

definition runs :: "stack \<Rightarrow> tcp_pcb \<Rightarrow> (nat \<times> bytes) list \<Rightarrow> bytes \<Rightarrow> bridge \<Rightarrow> uvl_tcp \<Rightarrow> uvl_cb list \<Rightarrow> bool" where
  "runs S p ws rcv b c1 l \<longleftrightarrow>
     (\<exists>b'. callbacks (bridge_vtable S) l (b\<lparr>ic_client := c1\<rparr>) = Inr b' \<and> bridge_inv S p (concat (map snd ws)) rcv b')"

lemma due_flow:
  assumes "due S p ws rcv b c1 l" and "cb_ids l = []" and "ut_reading c1 \<longrightarrow> ut_reading (ic_client b)" and "Close_cb \<notin> set l"
  shows "flow (b\<lparr>ic_client := c1\<rparr>)"
proof -
  have "map uw_id (ut_writes c1) = map uw_id (ut_writes (ic_client b))" using assms(1,2) by (simp add: due_def)
  then have "length (ut_writes c1) = length (ut_writes (ic_client b))" by (metis length_map)
  then show ?thesis using assms by (auto simp: flow_def due_def)
qed

lemma due_quiet:
  assumes "due S p ws rcv b c1 []" and "ut_reading c1 \<longrightarrow> ut_reading (ic_client b)"
  shows "runs S p ws rcv b c1 []"
  using due_flow [OF assms(1) _ assms(2)] assms(1) by (auto simp: runs_def bridge_inv_def due_def)

lemma due_end:
  assumes "good S" and "due S p ws rcv b c1 [Read_cb UV_EOF []]" and "ut_reading (ic_client b)" and "\<not> ut_reading c1"
  shows "runs S p ws rcv b c1 [Read_cb UV_EOF []]"
proof -
  let ?b = "b\<lparr>ic_client := c1\<rparr>"
  have b: "flow b" "tcp_reached S p ws rcv c1" using assms(2) by (simp_all add: due_def)
  have "flow ?b" using due_flow [OF assms(2)] assms(4) by simp
  moreover have "pt_handle (br_ptcp ?b)" using flow_handle [OF b(1)] assms(3) by simp
  ultimately obtain b' where "kill S ?b = Inr b'" "tcp_reached S p ws rcv (ic_client b')" "killed b'"
      "pt_out (br_ptcp b') = pt_out (br_ptcp b)" "delivered (ut_log (ic_client b')) = delivered (ut_log c1)"
    using kill_flow [OF assms(1), of p ws rcv ?b] b(2) by auto
  then show ?thesis using assms(2)
    by (auto simp: runs_def readCallback_def UV_EOF_def bridge_vtable_def bridge_inv_def due_def flow_def)
qed

lemma due_data:
  assumes "due S p ws rcv b c1 [Read_cb (int (length d)) d]" and "d \<noteq> []" and "ut_reading (ic_client b)"
  shows "runs S p ws rcv b c1 [Read_cb (int (length d)) d]"
proof -
  let ?pt = "(br_ptcp b)\<lparr>pt_pending := pt_pending (br_ptcp b) + 1, pt_out := pt_out (br_ptcp b) @ d\<rparr>"
  let ?b' = "b\<lparr>ic_client := c1\<lparr>ut_reading := False\<rparr>, br_ptcp := ?pt\<rparr>"
  have b: "flow b" "tcp_reached S p ws rcv c1" "\<not> ut_closing c1" "Close_cb \<notin> set (ut_log c1)"
    using assms(1) by (simp_all add: due_def flow_def)
  have flow: "flow (b\<lparr>ic_client := c1\<rparr>)" using due_flow [OF assms(1)] assms(3) by simp
  have "callbacks (bridge_vtable S) [Read_cb (int (length d)) d] (b\<lparr>ic_client := c1\<rparr>) = Inr ?b'"
    using assms(2,3) flow_handle [OF b(1)]
    by (simp add: readCallback_def bridge_vtable_def bridge_onData_def iconn_stop_def uvl_read_stop_def pt_write_def)
  moreover have "flow ?b'" using flow b(1) assms(3) flow_handle [OF b(1)] by (auto simp: flow_def)
  moreover have "tcp_reached S p (ws @ event_write T_read_stop) (rcv @ event_data S c1 T_read_stop) (c1\<lparr>ut_reading := False\<rparr>)"
    by (rule tcp_reached.handled [OF b(2,4)]) (use b(3) in \<open>simp_all add: uvl_read_stop_def\<close>)
  ultimately show ?thesis using assms(1) by (auto simp: runs_def bridge_inv_def due_def)
qed

lemma due_written:
  assumes "due S p ws rcv b c1 [Write_cb i st]" and "ut_writes c1 = []" and "ut_writes (ic_client b) \<noteq> []"
    and "ut_reading c1 = ut_reading (ic_client b)"
  shows "runs S p ws rcv b c1 [Write_cb i st]"
proof -
  let ?b' = "if st = 0 then b\<lparr>ic_client := c1, br_ptcp := (br_ptcp b)\<lparr>pt_reading := True\<rparr>\<rparr> else b\<lparr>ic_client := c1\<rparr>"
  have b: "flow b" using assms(1) by (simp add: due_def)
  have "\<not> pt_reading (br_ptcp b)" "\<not> pt_closed (br_ptcp b)" using b assms(3) by (auto simp: flow_def)
  then have "callbacks (bridge_vtable S) [Write_cb i st] (b\<lparr>ic_client := c1\<rparr>) = Inr ?b'"
    using assms(3) flow_handle [OF b] by (simp add: writeCallback_def bridge_vtable_def bridge_onWrite_def pt_read_def)
  moreover have "flow ?b'" using assms b flow_handle [OF b] by (auto simp: flow_def due_def)
  ultimately show ?thesis using assms(1) by (auto simp: runs_def bridge_inv_def due_def)
qed

lemma logged_cases:
  assumes "logged e c c' l"
  obtains "e = T_write_async"
  | "l = []" "ut_reading c' \<longrightarrow> ut_reading c"
  | "l = [Read_cb UV_EOF []]" "ut_reading c" "\<not> ut_reading c'"
  | d where "l = [Read_cb (int (length d)) d]" "d \<noteq> []" "ut_reading c"
  using assms by (cases "(e, c, c', l)" rule: logged.cases) (auto split: if_splits)

lemma due_runs:
  assumes "good S" and "due S p ws rcv b c1 l" and "logged e (ic_client b) c1 l"
  shows "runs S p ws rcv b c1 l"
  using assms(3)
proof (cases rule: logged_cases)
  case 1
  have "length (ut_writes (ic_client b)) \<le> 1" "cb_ids l @ map uw_id (ut_writes c1) = map uw_id (ut_writes (ic_client b))"
    using assms(2) by (simp_all add: due_def flow_def)
  then show ?thesis
    using 1 assms(2,3) one_callback [of l "ut_writes c1" "ut_writes (ic_client b)"] due_quiet due_written by auto
qed (use assms(1,2) due_quiet due_end due_data in auto)

lemma socket_flow:
  assumes "good S" and "tcp_reached S p ws rcv (ic_client b)" and "flow b" and "bridge_ok b (B_lwip e)"
    and "pt_out (br_ptcp b) = delivered (ut_log (ic_client b))"
  shows "\<exists>b'. iconn_event (bridge_vtable S) S e b = Inr b' \<and>
    bridge_inv S p (concat (map snd ws)) (rcv @ event_data S (ic_client b) e) b'"
proof -
  let ?c = "ic_client b"
  have f: "\<not> ut_closing ?c" "Close_cb \<notin> set (ut_log ?c)" using assms(3) by (simp_all add: flow_def)
  have ok: "tcp_event_ok ?c e" "of_socket e" using assms(4) by simp_all
  have "event_write e = []" using ok(2) by (cases e) simp_all
  with reached_handle [OF assms(1,2) f(2) ok(1)] obtain c1 where
    c1: "tcp_handle S e ?c = Inr c1" "tcp_reached S p ws (rcv @ event_data S ?c e) c1" by auto
  from handle_logged [OF assms(1,2) f ok c1(1)] obtain l where
    l: "ut_log c1 = ut_log ?c @ l" "logged e ?c c1 l" "\<not> ut_closing c1" "cb_ids l @ map uw_id (ut_writes c1) = map uw_id (ut_writes ?c)"
    by blast
  have "due S p ws (rcv @ event_data S ?c e) b c1 l" using assms(3,5) c1(2) l by (simp add: due_def)
  then have "runs S p ws (rcv @ event_data S ?c e) b c1 l" using due_runs [OF assms(1) _ l(2)] by blast
  then show ?thesis using c1(1) l(1) by (simp add: runs_def iconn_event_def new_cbs_def)
qed

lemma socket_killed:
  assumes "good S" and "tcp_reached S p ws rcv (ic_client b)" and "killed b" and "bridge_ok b (B_lwip e)"
    and "pt_out (br_ptcp b) = delivered (ut_log (ic_client b))"
  shows "\<exists>b'. iconn_event (bridge_vtable S) S e b = Inr b' \<and>
    bridge_inv S p (concat (map snd ws)) (rcv @ event_data S (ic_client b) e) b'"
proof -
  let ?c = "ic_client b"
  have k: "ut_closing ?c" "Close_cb \<notin> set (ut_log ?c)" "tcp_event_ok ?c e" using assms(3,4) by (auto simp: killed_def)
  then have e: "e = T_handle_closed" by (cases e) simp_all
  define c1 where "c1 = uvl_tcp_close_handle_cb ?c"
  have "tcp_reached S p (ws @ event_write e) (rcv @ event_data S ?c e) c1"
    by (rule tcp_reached.handled [OF assms(2) k(2,3)]) (simp add: e c1_def)
  moreover have l: "ut_log c1 = ut_log ?c \<and> ut_closing c1 \<or> ut_log c1 = ut_log ?c @ [Close_cb]"
    using k(1) by (simp add: c1_def uvl_tcp_close_handle_cb_def Let_def)
  moreover have "iconn_event (bridge_vtable S) S e b = Inr (b\<lparr>ic_client := c1\<rparr>)"
    using l assms(3) by (auto simp: e iconn_event_def c1_def [symmetric] new_cbs_def closeCallback_def bridge_vtable_def kill_def killed_def)
  ultimately show ?thesis using assms(3,5) e by (auto simp: bridge_inv_def killed_def)
qed

section \<open>What a bridge does\<close>

lemma connected_flow:
  assumes "good S" and "sk_async S = 0" and "bridge_inv S p got rcv b" and "flow b" and "bridge_ok b B_connected"
  shows "\<exists>b'. bridge_handle S B_connected b = Inr b' \<and> bridge_inv S p got rcv b'"
proof -
  let ?b = "b\<lparr>br_ptcp := (br_ptcp b)\<lparr>pt_handle := True, pt_connected := True, pt_reading := True\<rparr>\<rparr>"
  obtain ws where ws: "tcp_reached S p ws rcv (ic_client b)" "got = concat (map snd ws)"
      "pt_out (br_ptcp b) = delivered (ut_log (ic_client b))" using assms(3) by (auto simp: bridge_inv_def)
  have "\<not> pt_reading (br_ptcp b)" "\<not> ut_reading (ic_client b)" "pt_pending (br_ptcp b) = 0"
    using assms(4,5) by (auto simp: flow_def)
  moreover have "flow ?b" using assms(4,5) by (auto simp: flow_def)
  ultimately show ?thesis
    using read_flow [OF assms(1,2), of p ws rcv ?b] ws assms(5) by (simp add: on_ptcp_connect_def bridge_onWrite_def pt_read_def pt_ready_def)
qed

lemma written_flow:
  assumes "good S" and "sk_async S = 0" and "bridge_inv S p got rcv b" and "flow b" and "bridge_ok b B_written"
  shows "\<exists>b'. bridge_handle S B_written b = Inr b' \<and> bridge_inv S p got rcv b'"
proof -
  let ?b = "b\<lparr>br_ptcp := (br_ptcp b)\<lparr>pt_pending := pt_pending (br_ptcp b) - 1\<rparr>\<rparr>"
  obtain ws where ws: "tcp_reached S p ws rcv (ic_client b)" "got = concat (map snd ws)"
      "pt_out (br_ptcp b) = delivered (ut_log (ic_client b))" using assms(3) by (auto simp: bridge_inv_def)
  have "\<not> ut_reading (ic_client b)" "pt_pending (br_ptcp b) = 1" "pt_connected (br_ptcp b)"
    using assms(4,5) by (auto simp: flow_def)
  moreover from this have "flow ?b" using assms(4) by (auto simp: flow_def)
  ultimately show ?thesis using read_flow [OF assms(1,2), of p ws rcv ?b] ws by (simp add: on_ptcp_write_def)
qed

lemma data_flow:
  assumes "good S" and "bridge_inv S p got rcv b" and "flow b" and "bridge_ok b (B_data d)"
  shows "\<exists>b'. bridge_handle S (B_data d) b = Inr b' \<and> bridge_inv S p (got @ d) rcv b'"
proof -
  let ?c = "ic_client b"
  let ?e = "T_write (ic_reqs b) d"
  let ?b = "b\<lparr>br_ptcp := (br_ptcp b)\<lparr>pt_reading := False\<rparr>, ic_client := uvl_write_req (ic_reqs b) [d] ?c, ic_reqs := ic_reqs b + 1\<rparr>"
  obtain ws where ws: "tcp_reached S p ws rcv ?c" "got = concat (map snd ws)" "pt_out (br_ptcp b) = delivered (ut_log ?c)"
    using assms(2) by (auto simp: bridge_inv_def)
  have f: "\<not> ut_closing ?c" "Close_cb \<notin> set (ut_log ?c)" "ut_writes ?c = []" "pt_handle (br_ptcp b)"
    using assms(3,4) by (auto simp: flow_def)
  have "tcp_reached S p (ws @ event_write ?e) (rcv @ event_data S ?c ?e) (uvl_write_req (ic_reqs b) [d] ?c)"
    by (rule tcp_reached.handled [OF ws(1) f(2)]) (simp_all add: f(1))
  moreover have "flow ?b" using assms(3,4) f(3) by (auto simp: flow_def uvl_write_req_def)
  moreover have "bridge_handle S (B_data d) b = Inr ?b" using f(4) by (simp add: on_ptcp_data_def pt_stop_def iconn_write_def)
  ultimately show ?thesis using ws(2,3)
    by (intro exI [of _ ?b]) (auto simp: bridge_inv_def uvl_write_req_def intro!: exI [of _ "ws @ [(ic_reqs b, d)]"])
qed

lemma bridge_keeps:
  assumes "good S" and "sk_async S = 0" and "bridge_inv S p got rcv b" and "bridge_ok b e"
  shows "\<exists>b'. bridge_handle S e b = Inr b' \<and> bridge_inv S p (got @ bridge_got e) (rcv @ bridge_took S b e) b'"
proof -
  obtain ws where ws: "tcp_reached S p ws rcv (ic_client b)" "got = concat (map snd ws)"
      "pt_out (br_ptcp b) = delivered (ut_log (ic_client b))" "flow b \<or> killed b" using assms(3) by (auto simp: bridge_inv_def)
  have dead: "\<not> killed b" if "\<not> pt_closed (br_ptcp b)" using that by (simp add: killed_def)
  show ?thesis
  proof (cases e)
    case (B_lwip x)
    then show ?thesis using ws assms(4) socket_flow [OF assms(1) ws(1), of x] socket_killed [OF assms(1) ws(1), of x] by auto
  next
    case B_connected
    then show ?thesis using connected_flow [OF assms(1-3)] ws(4) dead assms(4) by auto
  next
    case (B_data d)
    then show ?thesis using data_flow [OF assms(1,3)] ws(4) dead assms(4) by auto
  next
    case B_written
    then show ?thesis using written_flow [OF assms(1-3)] ws(4) dead assms(4) by auto
  next
    case B_end
    have "killed b \<Longrightarrow> kill S b = Inr b" by (simp add: kill_def killed_def)
    moreover have "flow b \<Longrightarrow> \<exists>b'. kill S b = Inr b' \<and> bridge_inv S p got rcv b'"
      using kill_flow [OF assms(1) ws(1)] B_end assms(4) ws(2,3) by (fastforce simp: bridge_inv_def)
    ultimately show ?thesis using ws(4) B_end assms(3) by auto
  qed
qed

lemma reached_bridge_inv:
  assumes "bridge_reached S p addr pt got rcv b" and "good S" and "sk_async S = 0"
  shows "bridge_inv S p got rcv b"
  using assms
proof (induction rule: bridge_reached.induct)
  case bridge_start
  then have "tcp_reached S p [] [] (uvl_accept p uvl_tcp_init)" by (simp add: tcp_reached.accepted)
  then show ?case using bridge_start.hyps(3)
    by (auto simp: bridge_inv_def flow_def bridge_onConnection_def new_iconn_def iconn.defs pt_connect_def new_DirectProxyTcp_def
        new_Socks5ProxyTcp_def uvl_accept_def uvl_tcp_init_def)
next
  case (bridge_step got rcv b e b')
  then show ?case using bridge_keeps [of S p got rcv b e] by auto
qed


fun bridge_run :: "stack \<Rightarrow> bridge_event list \<Rightarrow> bytes \<Rightarrow> bytes \<Rightarrow> bridge \<Rightarrow> (bytes \<times> bytes \<times> bridge) option" where
  "bridge_run S [] got rcv b = Some (got, rcv, b)"
| "bridge_run S (e # es) got rcv b =
     (if \<not> bridge_ok b e then None
      else case bridge_handle S e b of
             Inl _ \<Rightarrow> None
           | Inr b' \<Rightarrow> bridge_run S es (got @ bridge_got e) (rcv @ bridge_took S b e) b')"

lemma bridge_run_reached:
  "bridge_reached S p addr pt got rcv b \<Longrightarrow> bridge_run S es got rcv b = Some (got', rcv', b') \<Longrightarrow> bridge_reached S p addr pt got' rcv' b'"
proof (induction es arbitrary: got rcv b)
  case (Cons e es)
  from Cons.prems(2) obtain b1 where b1: "bridge_ok b e" "bridge_handle S e b = Inr b1"
    "bridge_run S es (got @ bridge_got e) (rcv @ bridge_took S b e) b1 = Some (got', rcv', b')"
    by (auto split: if_splits sum.splits)
  from Cons.IH [OF bridge_reached.bridge_step [OF Cons.prems(1) b1(1,2)] b1(3)] show ?case .
qed simp

text \<open>The proxy's side connects and sends two bytes, the console sends two and then three bytes.\<close>

definition example_target :: sockaddr_in where
  "example_target = \<lparr>sin_addr = IP4 1 2 3 4, sin_port = 80\<rparr>"

definition example_bridge :: bridge where
  "example_bridge = snd (snd (the (bridge_run example_stack
     [B_connected, B_data [5, 6], B_lwip T_write_async, B_lwip (T_recv (Some [1, 2])), B_lwip T_read_async, B_lwip (T_acked 2),
      B_lwip (T_recv (Some [3, 4, 5])), B_lwip T_write_async] [] [] (bridge_onConnection example_pcb example_target new_DirectProxyTcp))))"

lemma example_bridge_reached:
  "bridge_reached example_stack example_pcb example_target new_DirectProxyTcp [5, 6] [1, 2, 3, 4, 5] example_bridge"
proof (rule bridge_run_reached [OF bridge_reached.bridge_start])
  show "bridge_run example_stack
     [B_connected, B_data [5, 6], B_lwip T_write_async, B_lwip (T_recv (Some [1, 2])), B_lwip T_read_async, B_lwip (T_acked 2),
      B_lwip (T_recv (Some [3, 4, 5])), B_lwip T_write_async] [] [] (bridge_onConnection example_pcb example_target new_DirectProxyTcp) =
    Some ([5, 6], [1, 2, 3, 4, 5], example_bridge)" by code_simp
qed (simp_all add: example_pcb_def)


text \<open>Before the handshake of SOCKS5 has ended, \<open>kill\<close> uses the missing handle.\<close>

lemma kill_before_ready_faults:
  assumes "\<not> br_closing b" and "br_ptcp b = pt_connect addr new_Socks5ProxyTcp"
  shows "kill S b = Inl Out_of_bounds"
  using assms by (simp add: kill_def pt_stop_def pt_connect_def new_Socks5ProxyTcp_def)

section \<open>The fixed page\<close>

definition fake_body :: bytes where
  "fake_body = map of_char (''HTTP/1.1 200 OK'' @ [CHR 0x0D, CHR 0x0A] @ ''Content-Length: 2'' @ [CHR 0x0D, CHR 0x0A] @
     ''X-Organization: Nintendo'' @ [CHR 0x0D, CHR 0x0A, CHR 0x0D, CHR 0x0A] @ ''ok'')"

definition fake_vtable :: "stack \<Rightarrow> iconn vtable" where
  "fake_vtable S = \<lparr>vt_onData = (\<lambda>_. Inr), vt_onWrite = iconn_close S, vt_onClose = Inr, vt_onClosed = Inr\<rparr>"

definition fake_onConnection :: "tcp_pcb \<Rightarrow> iconn" where
  "fake_onConnection p = iconn_write fake_body (new_iconn p)"

inductive fake_reached :: "stack \<Rightarrow> tcp_pcb \<Rightarrow> iconn \<Rightarrow> bool" for S :: stack and p :: tcp_pcb where
  fake_start: "tp_out p = [] \<Longrightarrow> tp_unacked p = 0 \<Longrightarrow> fake_reached S p (fake_onConnection p)"
| fake_step: "fake_reached S p c \<Longrightarrow> Close_cb \<notin> set (ut_log (ic_client c)) \<Longrightarrow> tcp_event_ok (ic_client c) e \<Longrightarrow> of_socket e \<Longrightarrow>
    iconn_event (fake_vtable S) S e c = Inr c' \<Longrightarrow> fake_reached S p c'"

definition fake_inv :: "stack \<Rightarrow> tcp_pcb \<Rightarrow> iconn \<Rightarrow> bool" where
  "fake_inv S p c \<longleftrightarrow>
     (\<exists>rcv. tcp_reached S p [(0, fake_body)] rcv (ic_client c)) \<and> \<not> ut_reading (ic_client c) \<and>
     (ic_closing c \<longleftrightarrow> ut_closing (ic_client c) \<or> Close_cb \<in> set (ut_log (ic_client c)))"

lemma fake_close:
  assumes "good S" and "tcp_reached S p ws rcv (ic_client c)" and "\<not> ut_reading (ic_client c)" and "\<not> ic_closing c"
    and "\<not> ut_closing (ic_client c)" and "Close_cb \<notin> set (ut_log (ic_client c))"
  shows "\<exists>c'. iconn_close S c = Inr c' \<and> tcp_reached S p ws rcv (ic_client c') \<and> \<not> ut_reading (ic_client c') \<and>
    ic_closing c' \<and> ut_closing (ic_client c')"
proof -
  from reached_handle [OF assms(1,2,6), of T_close] assms(5) obtain c2 where
    c2: "tcp_handle S T_close (ic_client c) = Inr c2" "tcp_reached S p ws rcv c2" by auto
  then obtain ret where ret: "uvl_tcp_close S (ic_client c) = Inr (ret, c2)" by (auto simp: rbind_eq_Inr)
  note q = close_quiet [OF assms(3) ret]
  then show ?thesis using ret c2(2) assms(4) by (simp add: iconn_close_def Let_def)
qed

lemma fake_keeps_open:
  assumes "good S" and "fake_inv S p c" and "\<not> ic_closing c" and "tcp_event_ok (ic_client c) e" and "of_socket e"
  shows "\<exists>c'. iconn_event (fake_vtable S) S e c = Inr c' \<and> fake_inv S p c'"
proof -
  let ?c = "ic_client c"
  obtain rcv where r: "tcp_reached S p [(0, fake_body)] rcv ?c" "\<not> ut_reading ?c" "\<not> ut_closing ?c" "Close_cb \<notin> set (ut_log ?c)"
    using assms(2,3) by (auto simp: fake_inv_def)
  have "event_write e = []" using assms(5) by (cases e) simp_all
  with reached_handle [OF assms(1) r(1,4) assms(4)] obtain c1 where
    c1: "tcp_handle S e ?c = Inr c1" "tcp_reached S p [(0, fake_body)] (rcv @ event_data S ?c e) c1" by auto
  from handle_logged [OF assms(1) r(1,3,4) assms(4,5) c1(1)] obtain l where
    l: "ut_log c1 = ut_log ?c @ l" "logged e ?c c1 l" "\<not> ut_closing c1" "cb_ids l @ map uw_id (ut_writes c1) = map uw_id (ut_writes ?c)"
    by blast
  have "cb_ids (ut_log ?c) @ map uw_id (ut_writes ?c) = map fst [(0, fake_body)]"
    using reached_conn_inv [OF r(1) assms(1)] open_always shut_always unfolding conn_inv_def by blast
  then have len: "length (ut_writes ?c) \<le> 1" by (metis length_Cons length_append length_map list.size(3) le_add2 One_nat_def)
  have rd: "\<not> ut_reading c1" and w: "\<forall>x \<in> set l. \<exists>i st. x = Write_cb i st"
    using l(2) r(2) by (cases "(e, ?c, c1, l)" rule: logged.cases; auto)+
  have ev: "iconn_event (fake_vtable S) S e c = callbacks (fake_vtable S) l (c\<lparr>ic_client := c1\<rparr>)"
    using c1(1) l(1) by (simp add: iconn_event_def new_cbs_def)
  consider "l = []" | i where "l = [Write_cb i 0]" | i st where "l = [Write_cb i st]" "st \<noteq> 0"
    using one_callback [OF w l(4) len] by blast
  then show ?thesis
  proof cases
    case 2
    with fake_close [OF assms(1), of p "[(0, fake_body)]" _ "c\<lparr>ic_client := c1\<rparr>"] c1(2) rd assms(3) l(1,3) r(4)
    show ?thesis unfolding ev by (fastforce simp: fake_vtable_def writeCallback_def fake_inv_def)
  qed (use c1(2) rd l(1,3) r(4) assms(3) in \<open>auto simp: ev writeCallback_def fake_inv_def\<close>)
qed

lemma fake_keeps_closing:
  assumes "fake_inv S p c" and "ic_closing c" and "Close_cb \<notin> set (ut_log (ic_client c))" and "tcp_event_ok (ic_client c) e"
  shows "\<exists>c'. iconn_event (fake_vtable S) S e c = Inr c' \<and> fake_inv S p c'"
proof -
  let ?c = "ic_client c"
  obtain rcv where r: "tcp_reached S p [(0, fake_body)] rcv ?c" "\<not> ut_reading ?c" "ut_closing ?c"
    using assms by (auto simp: fake_inv_def)
  then have e: "e = T_handle_closed" using assms(4) by (cases e) simp_all
  define c1 where "c1 = uvl_tcp_close_handle_cb ?c"
  have "tcp_reached S p ([(0, fake_body)] @ event_write e) (rcv @ event_data S ?c e) c1"
    by (rule tcp_reached.handled [OF r(1) assms(3,4)]) (simp add: e c1_def)
  moreover have l: "ut_log c1 = ut_log ?c \<and> ut_closing c1 \<or> ut_log c1 = ut_log ?c @ [Close_cb]" "\<not> ut_reading c1"
    using r by (simp_all add: c1_def uvl_tcp_close_handle_cb_def Let_def)
  moreover have "iconn_event (fake_vtable S) S e c = Inr (c\<lparr>ic_client := c1\<rparr>)"
    using l by (auto simp: e iconn_event_def c1_def [symmetric] new_cbs_def closeCallback_def fake_vtable_def)
  ultimately show ?thesis using assms(2) e by (auto simp: fake_inv_def)
qed

lemma reached_fake_inv: "fake_reached S p c \<Longrightarrow> good S \<Longrightarrow> fake_inv S p c"
proof (induction rule: fake_reached.induct)
  case fake_start
  let ?c = "uvl_accept p uvl_tcp_init"
  have "tcp_reached S p ([] @ event_write (T_write 0 fake_body)) ([] @ event_data S ?c (T_write 0 fake_body)) (uvl_write_req 0 [fake_body] ?c)"
    using fake_start by (intro tcp_reached.handled tcp_reached.accepted) (simp_all add: uvl_accept_def uvl_tcp_init_def)
  then show ?case
    by (auto simp: fake_inv_def fake_onConnection_def iconn_write_def new_iconn_def uvl_write_req_def uvl_accept_def uvl_tcp_init_def)
next
  case (fake_step c e c')
  then show ?case using fake_keeps_open [of S p c e] fake_keeps_closing [of S p c e] by (cases "ic_closing c") auto
qed

text \<open>With the option of a pretended Internet a connection is sent a prefix of the fixed page and nothing else, whatever the console
  sends, and no event fails.\<close>

theorem fake_page_only:
  assumes "good S" and "fake_reached S p c"
  shows "(\<forall>q. ut_pcb (ic_client c) = Some q \<longrightarrow> (\<exists>rest. fake_body = tp_out q @ rest)) \<and>
    (\<forall>e. Close_cb \<notin> set (ut_log (ic_client c)) \<and> tcp_event_ok (ic_client c) e \<and> of_socket e \<longrightarrow>
      returns (iconn_event (fake_vtable S) S e c))"
proof -
  have inv: "fake_inv S p c" using reached_fake_inv [OF assms(2,1)] .
  then obtain rcv where "tcp_reached S p [(0, fake_body)] rcv (ic_client c)" by (auto simp: fake_inv_def)
  from reached_conn_inv [OF this assms(1)] have conn: "conn_inv S [(0, fake_body)] rcv (ic_client c)" .
  have "\<exists>rest. fake_body = tp_out q @ rest" if "ut_pcb (ic_client c) = Some q" for q
    using conn that open_pcb shut_pcb open_stream(1) [of S q "[(0, fake_body)]" rcv "ic_client c"]
    unfolding conn_inv_def by fastforce
  moreover have "returns (iconn_event (fake_vtable S) S e c)"
    if "Close_cb \<notin> set (ut_log (ic_client c))" "tcp_event_ok (ic_client c) e" "of_socket e" for e
    using that fake_keeps_open [OF assms(1) inv] fake_keeps_closing [OF inv] by (auto simp: returns_iff)
  ultimately show ?thesis by blast
qed

text \<open>A connection that the console drops before the page is acknowledged is never closed by its owner: its request is cancelled, and
  the cancelled request is not reported to \<open>onWrite\<close>.\<close>

lemma fake_dropped_stays:
  "rbind (iconn_event (fake_vtable example_stack) example_stack (T_recv None) (fake_onConnection example_pcb))
     (iconn_event (fake_vtable example_stack) example_stack T_write_async) =
   Inr (\<lparr>ic_client = \<lparr>ut_recv = [], ut_writes = [], ut_reading = False, ut_closed = True, ut_pcb = None, ut_closed_handle = 0,
           ut_closing = False, ut_log = [Write_cb 0 UV_ECANCELED]\<rparr>, ic_closing = False, ic_removed = 0, ic_reqs = 1\<rparr>)"
  by code_simp

section \<open>The interface and its connections\<close>

text \<open>The structure \<open>uvl\<close>; whether the interface was added, the callbacks set and the timer started. What libuv and lwIP answer
  while the interface is set up is a parameter.\<close>

record uvl =
  uv_output :: bool
  uv_connection_cb :: bool
  uv_close_cb :: bool
  uv_the_netif :: bool
  uv_listener :: bool
  uv_waiting_pcb :: "tcp_pcb option"
  uv_timer_on :: bool
  uv_tcp_timer_mod4 :: nat
  uv_closed :: bool

record setup_env =
  se_timer_init :: int
  se_timer_start :: int
  se_netif_add :: bool
  se_tcp_new :: bool
  se_tcp_bind :: bool
  se_tcp_listen :: bool

text \<open>\<open>the_netif\<close> is set also when \<open>netif_add\<close> fails.\<close>

definition uvl_init_lwip :: "setup_env \<Rightarrow> uvl \<Rightarrow> int \<times> uvl" where
  "uvl_init_lwip E h = (if se_netif_add E then 0 else -1, h\<lparr>uv_the_netif := True\<rparr>)"

definition uvl_init :: "setup_env \<Rightarrow> uvl \<Rightarrow> int \<times> uvl" where
  "uvl_init E h =
     (let h1 = h\<lparr>uv_output := False, uv_connection_cb := False, uv_close_cb := False, uv_listener := False, uv_waiting_pcb := None,
                 uv_closed := False, uv_tcp_timer_mod4 := 0\<rparr> in
      if se_timer_init E \<noteq> 0 then (se_timer_init E, h1)
      else if se_timer_start E \<noteq> 0 then (se_timer_start E, h1)
      else uvl_init_lwip E (h1\<lparr>uv_timer_on := True\<rparr>))"

definition uvl_bind :: "uvl \<Rightarrow> int \<times> uvl" where
  "uvl_bind h = (0, h\<lparr>uv_output := True\<rparr>)"

definition uvl_listen :: "setup_env \<Rightarrow> uvl \<Rightarrow> int \<times> uvl" where
  "uvl_listen E h =
     (let h1 = h\<lparr>uv_connection_cb := True\<rparr> in
      if \<not> se_tcp_new E then (-1, h1)
      else if \<not> se_tcp_bind E then (-1, h1)
      else if \<not> se_tcp_listen E then (-1, h1\<lparr>uv_listener := False\<rparr>)
      else (0, h1\<lparr>uv_listener := True\<rparr>))"

text \<open>\<open>UvLwipBase\<close>: its connections by number, and whether it still holds itself.\<close>

record uvlwip =
  ul_uvl :: uvl
  ul_connSet :: "nat list"
  ul_inited :: bool
  ul_closing :: bool
  ul_lwipClosed :: bool
  ul_closingCount :: int
  ul_held :: bool

definition uvlwip_init :: "setup_env \<Rightarrow> uvlwip \<Rightarrow> uvlwip res" where
  "uvlwip_init E u =
     (if ul_inited u then Inr u
      else
        case uvl_init E (ul_uvl u) of (r1, h1) \<Rightarrow>
          if r1 \<noteq> 0 then Inl Assert_failed
          else case uvl_bind h1 of (r2, h2) \<Rightarrow>
            if r2 \<noteq> 0 then Inl Assert_failed
            else case uvl_listen E h2 of (r3, h3) \<Rightarrow>
              if r3 \<noteq> 0 then Inl Assert_failed
              else Inr (u\<lparr>ul_inited := True, ul_held := True, ul_uvl := h3\<rparr>))"

definition onSelfClose :: "uvlwip \<Rightarrow> uvlwip" where
  "onSelfClose u = (if \<not> ul_lwipClosed u then u\<lparr>ul_lwipClosed := True\<rparr> else u\<lparr>ul_held := False\<rparr>)"

definition removeConnection :: "nat \<Rightarrow> uvlwip \<Rightarrow> uvlwip" where
  "removeConnection e u =
     (if ul_closing u then
        let u1 = u\<lparr>ul_closingCount := ul_closingCount u - 1\<rparr> in
        if ul_closingCount u1 = 0 then onSelfClose u1 else u1
      else u\<lparr>ul_connSet := removeAll e (ul_connSet u)\<rparr>)"

text \<open>\<open>newConnection\<close> gives a connection, \<open>UvLwip\<close> only if it has a proxy; \<open>onConnect\<close> uses it also if there is none.\<close>

definition uvl_accept_func :: "uvl \<Rightarrow> (tcp_pcb \<times> uvl) res" where
  "uvl_accept_func h = (case uv_waiting_pcb h of None \<Rightarrow> Inl Assert_failed | Some p \<Rightarrow> Inr (p, h\<lparr>uv_waiting_pcb := None\<rparr>))"

definition onConnect :: "nat option \<Rightarrow> uvlwip \<Rightarrow> uvlwip res" where
  "onConnect conn u =
     (case conn of
        None \<Rightarrow> Inl Out_of_bounds
      | Some i \<Rightarrow>
          rbind (uvl_accept_func (ul_uvl u)) (\<lambda>(p, h).
          Inr (u\<lparr>ul_uvl := h, ul_connSet := (if i \<in> set (ul_connSet u) then ul_connSet u else i # ul_connSet u)\<rparr>)))"

definition uvl_listener_accept_func :: "nat option \<Rightarrow> tcp_pcb \<Rightarrow> uvlwip \<Rightarrow> (int \<times> uvlwip) res" where
  "uvl_listener_accept_func conn newpcb u =
     (if \<not> uv_listener (ul_uvl u) \<or> \<not> uv_connection_cb (ul_uvl u) then Inl Assert_failed
      else
        rbind (onConnect conn (u\<lparr>ul_uvl := (ul_uvl u)\<lparr>uv_waiting_pcb := Some newpcb\<rparr>\<rparr>)) (\<lambda>u1.
        if uv_waiting_pcb (ul_uvl u1) \<noteq> None then Inr (ERR_ABRT, u1\<lparr>ul_uvl := (ul_uvl u1)\<lparr>uv_waiting_pcb := None\<rparr>\<rparr>)
        else Inr (ERR_OK, u1)))"

text \<open>\<open>uvl_close\<close>; its callback is \<open>onSelfClose\<close>, run when the timer is closed.\<close>

definition uvl_close :: "uvlwip \<Rightarrow> uvlwip" where
  "uvl_close u =
     (let u1 = (if uv_closed (ul_uvl u) then onSelfClose u else u) in
      u1\<lparr>ul_uvl := (ul_uvl u1)\<lparr>uv_listener := False, uv_the_netif := False, uv_timer_on := False, uv_close_cb := True\<rparr>\<rparr>)"

definition uvl_timer_close_cb :: "uvlwip \<Rightarrow> uvlwip" where
  "uvl_timer_close_cb u = (if uv_close_cb (ul_uvl u) then onSelfClose u else u)"

text \<open>Closing each connection calls \<open>removeConnection\<close> once more.\<close>

definition release :: "uvlwip \<Rightarrow> uvlwip" where
  "release u =
     (let u1 = u\<lparr>ul_closing := True, ul_closingCount := int (length (ul_connSet u))\<rparr> in
      fold removeConnection (ul_connSet u1) (uvl_close u1))"

text \<open>The gateway's part: \<open>initLwip\<close>, and \<open>gateway_close\<close> with the destructor it runs.\<close>

definition new_uvlwip :: "uvl \<Rightarrow> uvlwip" where
  "new_uvlwip h =
     \<lparr>ul_uvl = h, ul_connSet = [], ul_inited = False, ul_closing = False, ul_lwipClosed = False, ul_closingCount = 0, ul_held = False\<rparr>"

definition initLwip :: "setup_env \<Rightarrow> uvl \<Rightarrow> uvlwip res" where
  "initLwip E h = uvlwip_init E (new_uvlwip h)"

definition gateway_close :: "uvlwip \<Rightarrow> int \<times> uvlwip" where
  "gateway_close u = (0, release u)"

lemma uvlwip_init_ok:
  assumes "\<not> ul_inited u"
  shows "returns (uvlwip_init E u) \<longleftrightarrow> se_timer_init E = 0 \<and> se_timer_start E = 0 \<and> se_netif_add E \<and> se_tcp_new E \<and> se_tcp_bind E \<and> se_tcp_listen E"
    and "uvlwip_init E u = Inr u' \<Longrightarrow> uv_listener (ul_uvl u') \<and> uv_connection_cb (ul_uvl u') \<and> uv_the_netif (ul_uvl u') \<and> uv_timer_on (ul_uvl u')"
  using assms
  by (auto simp: uvlwip_init_def uvl_init_def uvl_init_lwip_def uvl_bind_def uvl_listen_def Let_def returns_iff split: if_splits)

lemma accept_registers:
  assumes "uv_listener (ul_uvl u)" and "uv_connection_cb (ul_uvl u)"
  shows "\<exists>u'. uvl_listener_accept_func (Some i) p u = Inr (ERR_OK, u') \<and> set (ul_connSet u') = insert i (set (ul_connSet u)) \<and>
    uv_waiting_pcb (ul_uvl u') = None"
  using assms by (auto simp: uvl_listener_accept_func_def onConnect_def uvl_accept_func_def)

lemma remove_count:
  assumes "ul_closing u" and "\<not> ul_lwipClosed u" and "ul_closingCount u = int (length ks)" and "ks \<noteq> []"
  shows "ul_lwipClosed (fold removeConnection ks u) \<and> ul_held (fold removeConnection ks u) = ul_held u \<and>
    uv_close_cb (ul_uvl (fold removeConnection ks u)) = uv_close_cb (ul_uvl u)"
  using assms
proof (induction ks arbitrary: u)
  case (Cons i ks)
  show ?case
  proof (cases "ks = []")
    case True
    then show ?thesis using Cons.prems by (simp add: removeConnection_def onSelfClose_def)
  next
    case False
    have "removeConnection i u = u\<lparr>ul_closingCount := int (length ks)\<rparr>" using Cons.prems False by (simp add: removeConnection_def)
    then show ?thesis using Cons.IH [of "u\<lparr>ul_closingCount := int (length ks)\<rparr>"] Cons.prems False by simp
  qed
qed simp

text \<open>A released gateway gives itself up when its timer is closed, if it had a connection; one without connections never does.\<close>

theorem release_gives_up:
  assumes "\<not> ul_lwipClosed u" and "\<not> uv_closed (ul_uvl u)" and "ul_held u"
  shows "ul_held (uvl_timer_close_cb (release u)) \<longleftrightarrow> ul_connSet u = []"
proof (cases "ul_connSet u = []")
  case True
  then show ?thesis using assms by (simp add: release_def uvl_close_def Let_def uvl_timer_close_cb_def onSelfClose_def)
next
  case False
  let ?u = "uvl_close (u\<lparr>ul_closing := True, ul_closingCount := int (length (ul_connSet u))\<rparr>)"
  have "ul_closing ?u" "\<not> ul_lwipClosed ?u" "ul_closingCount ?u = int (length (ul_connSet u))" "uv_close_cb (ul_uvl ?u)"
    using assms by (simp_all add: uvl_close_def Let_def)
  from remove_count [OF this(1-3) False] this(4) have
    "ul_lwipClosed (release u)" "uv_close_cb (ul_uvl (release u))" by (simp_all add: release_def Let_def)
  then show ?thesis using False by (simp add: uvl_timer_close_cb_def onSelfClose_def)
qed

end
