(* ===== verification/App_Protocol.thy ===== *)
theory App_Protocol
  imports Addr
begin

text \<open>
  The packet header of the Android client, \<open>LanPlayProtocol.kt\<close>, and the parts of the Kotlin and Java
  libraries it is built with: a \<open>ByteBuffer\<close> with a position, whose \<open>put\<close> and \<open>get\<close> throw at the end
  of the buffer, splitting of strings and the reading of a decimal \<open>Int\<close>. An exception is a fault
  of the prelude; where the code catches it, the model goes on in the handler.
\<close>

section \<open>Byte buffers\<close>

record byte_buffer =
  bb_array :: bytes
  bb_position :: nat

definition bb_allocate :: "nat \<Rightarrow> byte_buffer" where
  "bb_allocate n = \<lparr>bb_array = replicate n 0, bb_position = 0\<rparr>"

definition bb_wrap :: "bytes \<Rightarrow> byte_buffer" where
  "bb_wrap bs = \<lparr>bb_array = bs, bb_position = 0\<rparr>"

definition bb_clear :: "byte_buffer \<Rightarrow> byte_buffer" where
  "bb_clear b = b\<lparr>bb_position := 0\<rparr>"

definition bb_put :: "bytes \<Rightarrow> byte_buffer \<Rightarrow> byte_buffer res" where
  "bb_put bs b =
     rbind (wrn (bb_array b) (bb_position b) bs) (\<lambda>a.
     Inr \<lparr>bb_array = a, bb_position = bb_position b + length bs\<rparr>)"

definition bb_get :: "nat \<Rightarrow> byte_buffer \<Rightarrow> (bytes \<times> byte_buffer) res" where
  "bb_get n b =
     rbind (rdn (bb_array b) (bb_position b) n) (\<lambda>bs. Inr (bs, b\<lparr>bb_position := bb_position b + n\<rparr>))"

text \<open>Big endian integers of two and four bytes.\<close>

definition short_bytes :: "u16 \<Rightarrow> bytes" where
  "short_bytes v = [byte_of 1 v, byte_of 0 v]"

definition int_bytes :: "u32 \<Rightarrow> bytes" where
  "int_bytes v = [byte_of 3 v, byte_of 2 v, byte_of 1 v, byte_of 0 v]"

fun bytes_short :: "bytes \<Rightarrow> u16" where
  "bytes_short [a, b] = put_byte 1 a OR put_byte 0 b"
| "bytes_short _ = 0"

fun bytes_int :: "bytes \<Rightarrow> u32" where
  "bytes_int [a, b, c, d] = put_byte 3 a OR put_byte 2 b OR put_byte 1 c OR put_byte 0 d"
| "bytes_int _ = 0"

section \<open>The header\<close>

definition MAGIC_NUMBER :: u32 where "MAGIC_NUMBER = 0x11451400"
definition DEFAULT_PORT :: int where "DEFAULT_PORT = 11451"
definition HEADER_SIZE :: nat where "HEADER_SIZE = 10"

datatype packet_type = SCAN | SCAN_RESP | CONNECT | SYNC_NETWORK | UNKNOWN

fun type_value :: "packet_type \<Rightarrow> u8" where
  "type_value SCAN = 0"
| "type_value SCAN_RESP = 1"
| "type_value CONNECT = 2"
| "type_value SYNC_NETWORK = 3"
| "type_value UNKNOWN = -1"

definition entries :: "packet_type list" where
  "entries = [SCAN, SCAN_RESP, CONNECT, SYNC_NETWORK, UNKNOWN]"

definition fromByte :: "u8 \<Rightarrow> packet_type" where
  "fromByte v = (case find (\<lambda>t. type_value t = v) entries of Some t \<Rightarrow> t | None \<Rightarrow> UNKNOWN)"

record header =
  hd_magic :: u32
  hd_type :: packet_type
  hd_compressed :: u8
  hd_length :: u16
  hd_decompressLength :: u16

definition toBytes :: "header \<Rightarrow> bytes res" where
  "toBytes h =
     rbind (bb_put (int_bytes (hd_magic h)) (bb_allocate HEADER_SIZE)) (\<lambda>b1.
     rbind (bb_put [type_value (hd_type h)] b1) (\<lambda>b2.
     rbind (bb_put [hd_compressed h] b2) (\<lambda>b3.
     rbind (bb_put (short_bytes (hd_length h)) b3) (\<lambda>b4.
     rbind (bb_put (short_bytes (hd_decompressLength h)) b4) (\<lambda>b5.
     Inr (bb_array b5))))))"

definition fromBytes :: "bytes \<Rightarrow> header option res" where
  "fromBytes data =
     (if length data < HEADER_SIZE then Inr None
      else
        rbind (bb_get 4 (bb_wrap data)) (\<lambda>(m, b1).
        if bytes_int m \<noteq> MAGIC_NUMBER then Inr None
        else
          rbind (bb_get 1 b1) (\<lambda>(t, b2).
          rbind (bb_get 1 b2) (\<lambda>(c, b3).
          rbind (bb_get 2 b3) (\<lambda>(l, b4).
          rbind (bb_get 2 b4) (\<lambda>(d, b5).
          Inr (Some \<lparr>hd_magic = bytes_int m, hd_type = fromByte (hd t), hd_compressed = hd c,
                     hd_length = bytes_short l, hd_decompressLength = bytes_short d\<rparr>)))))))"

lemma bytes_short_short [simp]: "bytes_short (short_bytes v) = v"
  using bytes16 [of v] by (simp add: short_bytes_def or.commute)

lemma bytes_int_int [simp]: "bytes_int (int_bytes v) = v"
  using bytes32 [of v] by (simp add: int_bytes_def ac_simps)

lemma int_bytes_length [simp]: "length (int_bytes v) = 4" "length (short_bytes w) = 2"
  by (simp_all add: int_bytes_def short_bytes_def)

lemma fromByte_value [simp]: "fromByte (type_value t) = t"
  by (cases t) (simp_all add: fromByte_def entries_def)

lemma toBytes_eq:
  "toBytes h = Inr (int_bytes (hd_magic h) @ [type_value (hd_type h), hd_compressed h] @
     short_bytes (hd_length h) @ short_bytes (hd_decompressLength h))"
  by (simp add: toBytes_def bb_put_def bb_allocate_def HEADER_SIZE_def wrn_ok numeral_2_eq_2)

lemma fromBytes_append:
  assumes "toBytes h = Inr bs"
  shows "fromBytes (bs @ rest) = Inr (if hd_magic h = MAGIC_NUMBER then Some h else None)"
proof -
  have bs: "bs = int_bytes (hd_magic h) @ [type_value (hd_type h), hd_compressed h] @
     short_bytes (hd_length h) @ short_bytes (hd_decompressLength h)" using assms by (simp add: toBytes_eq)
  show ?thesis
    unfolding bs by (simp add: fromBytes_def bb_get_def bb_wrap_def HEADER_SIZE_def rdn_ok)
qed

lemma fromBytes_returns: "\<exists>r. fromBytes data = Inr r"
  by (auto simp: fromBytes_def bb_get_def bb_wrap_def HEADER_SIZE_def rdn_ok)

section \<open>Strings\<close>

text \<open>\<open>s.split(":")\<close> gives the parts between the separators.\<close>

fun split_char :: "char \<Rightarrow> string \<Rightarrow> string list" where
  "split_char c [] = [[]]"
| "split_char c (x # xs) =
     (if x = c then [] # split_char c xs
      else case split_char c xs of p # ps \<Rightarrow> (x # p) # ps | [] \<Rightarrow> [[x]])"

text \<open>\<open>s.toInt()\<close> throws for what is not a decimal number of type \<open>Int\<close>.\<close>

definition toInt :: "string \<Rightarrow> int option" where
  "toInt s =
     (let (neg, ds) = (case s of
              c # r \<Rightarrow> if c = CHR ''-'' then (True, r) else if c = CHR ''+'' then (False, r) else (False, s)
            | [] \<Rightarrow> (False, []));
          v = (if neg then - digits_val ds else digits_val ds)
      in if ds = [] \<or> \<not> list_all is_digit ds \<or> v < - (2 ^ 31) \<or> v > 2 ^ 31 - 1 then None else Some v)"

lemma split_char_none: "c \<notin> set s \<Longrightarrow> split_char c s = [s]"
  by (induction s) auto

lemma split_char_first: "c \<notin> set s \<Longrightarrow> split_char c (s @ c # t) = s # split_char c t"
  by (induction s) auto

end
