(* ===== verification/App_Redirector.thy ===== *)
theory App_Redirector
  imports App_Protocol
begin

text \<open>
  \<open>ServerRedirector.kt\<close>: the socket to the relay server. The thread that \<open>start\<close> creates reads the address,
  opens the socket and then waits for datagrams; each of these is a step here, taken between the calls of the
  other threads. The resolver and the opening of the socket are parameters. An exception ends the
  thread, whose \<open>finally\<close> stops the redirector; \<open>forwardToServer\<close> catches its own.
\<close>

type_synonym inet = bytes

record redirector =
  rd_serverAddress :: string
  rd_running :: bool
  rd_receiving :: bool
  rd_socket :: bool
  rd_serverIp :: "inet option"
  rd_serverPort :: int
  rd_hasRelay :: bool
  rd_sendBuffer :: byte_buffer
  rd_sent :: "(bytes \<times> inet \<times> int) list"

definition new_redirector :: "string \<Rightarrow> redirector" where
  "new_redirector addr =
     \<lparr>rd_serverAddress = addr, rd_running = False, rd_receiving = False, rd_socket = False, rd_serverIp = None,
      rd_serverPort = DEFAULT_PORT, rd_hasRelay = False, rd_sendBuffer = bb_allocate (HEADER_SIZE + 2048), rd_sent = []\<rparr>"

definition setRelay :: "redirector \<Rightarrow> redirector" where
  "setRelay r = r\<lparr>rd_hasRelay := True\<rparr>"

definition redirector_start :: "redirector \<Rightarrow> redirector" where
  "redirector_start r = (if rd_running r then r else r\<lparr>rd_running := True, rd_receiving := True\<rparr>)"

definition redirector_stop :: "redirector \<Rightarrow> redirector" where
  "redirector_stop r =
     (if \<not> rd_running r then r else r\<lparr>rd_running := False, rd_socket := False, rd_receiving := False\<rparr>)"

text \<open>What the network answers: the address of a host name, and whether a socket can be opened and a datagram sent.\<close>

record net =
  nt_getByName :: "string \<Rightarrow> inet option"
  nt_socket :: bool
  nt_send :: bool

text \<open>The start of the receiving thread: host and port of the address and the socket.\<close>

definition redirector_connect :: "net \<Rightarrow> redirector \<Rightarrow> redirector" where
  "redirector_connect N r =
     (let parts = split_char (CHR '':'') (rd_serverAddress r) in
      case nt_getByName N (parts ! 0) of
        None \<Rightarrow> redirector_stop r
      | Some ip \<Rightarrow>
          let r1 = r\<lparr>rd_serverIp := Some ip\<rparr> in
          case (if length parts > 1 then toInt (parts ! 1) else Some DEFAULT_PORT) of
            None \<Rightarrow> redirector_stop r1
          | Some port \<Rightarrow>
              let r2 = r1\<lparr>rd_serverPort := port\<rparr> in
              if nt_socket N then r2\<lparr>rd_socket := True\<rparr> else redirector_stop r2)"

text \<open>The result says what is left in the send buffer when an exception is thrown in the middle, and none
  when the datagram was handed to the socket. A \<open>DatagramPacket\<close> takes only ports of 16 bits.\<close>

definition fill_send_buffer :: "bytes \<Rightarrow> nat \<Rightarrow> byte_buffer \<Rightarrow> byte_buffer \<times> bool" where
  "fill_send_buffer payload len b =
     (let b0 = bb_clear b in
      case toBytes \<lparr>hd_magic = MAGIC_NUMBER, hd_type = CONNECT, hd_compressed = 0, hd_length = of_nat len,
                    hd_decompressLength = of_nat len\<rparr> of
        Inl _ \<Rightarrow> (b0, False)
      | Inr h \<Rightarrow>
          (case bb_put h b0 of
             Inl _ \<Rightarrow> (b0, False)
           | Inr b1 \<Rightarrow>
               (case rbind (rdn payload 0 len) (\<lambda>p. bb_put p b1) of
                  Inl _ \<Rightarrow> (b1, False)
                | Inr b2 \<Rightarrow> (b2, True))))"

definition forwardToServer :: "net \<Rightarrow> bytes \<Rightarrow> nat \<Rightarrow> redirector \<Rightarrow> redirector" where
  "forwardToServer N payload len r =
     (case rd_serverIp r of
        None \<Rightarrow> r
      | Some ip \<Rightarrow>
          if \<not> rd_socket r then r
          else
            let (b, ok) = fill_send_buffer payload len (rd_sendBuffer r);
                r1 = r\<lparr>rd_sendBuffer := b\<rparr> in
            if ok \<and> 0 \<le> rd_serverPort r \<and> rd_serverPort r \<le> 65535 \<and> nt_send N then
              r1\<lparr>rd_sent := rd_sent r @ [(take (HEADER_SIZE + len) (bb_array b), ip, rd_serverPort r)]\<rparr>
            else r1)"

text \<open>The payload that \<open>handleServerPacket\<close> passes on, of a datagram of \<open>len\<close> bytes in the receive buffer.\<close>

definition handleServerPacket :: "bytes \<Rightarrow> nat \<Rightarrow> bytes option res" where
  "handleServerPacket data len =
     (if len < HEADER_SIZE then Inr None
      else
        rbind (fromBytes data) (\<lambda>h.
        case h of
          None \<Rightarrow> Inr None
        | Some hdr \<Rightarrow>
            if hd_magic hdr = MAGIC_NUMBER then
              rbind (rdn data HEADER_SIZE (len - HEADER_SIZE)) (\<lambda>payload. Inr (Some payload))
            else Inr None))"

text \<open>One datagram is put at the start of the 4096 bytes of the buffer, which keep their old contents behind it.\<close>

definition receive_into :: "bytes \<Rightarrow> bytes \<Rightarrow> bytes \<times> nat" where
  "receive_into buffer dgram =
     (let d = take (length buffer) dgram in (d @ drop (length d) buffer, length d))"

section \<open>What is sent and received\<close>

definition server_header :: "nat \<Rightarrow> bytes" where
  "server_header n = int_bytes MAGIC_NUMBER @ [2, 0] @ short_bytes (of_nat n) @ short_bytes (of_nat n)"

lemma server_header_length [simp]: "length (server_header n) = 10"
  by (simp add: server_header_def)

lemma fill_send_buffer_eq:
  assumes "length (bb_array b) = 2058" and "len \<le> length payload"
  shows "fill_send_buffer payload len b =
    (if len \<le> 2048 then (\<lparr>bb_array = server_header len @ take len payload @ drop (10 + len) (bb_array b), bb_position = 10 + len\<rparr>, True)
     else (\<lparr>bb_array = server_header len @ drop 10 (bb_array b), bb_position = 10\<rparr>, False))"
proof -
  let ?b1 = "\<lparr>bb_array = server_header len @ drop 10 (bb_array b), bb_position = 10\<rparr>"
  have h: "toBytes \<lparr>hd_magic = MAGIC_NUMBER, hd_type = CONNECT, hd_compressed = 0, hd_length = of_nat len,
      hd_decompressLength = of_nat len\<rparr> = Inr (server_header len)"
    by (simp add: toBytes_eq server_header_def)
  have b1: "bb_put (server_header len) (bb_clear b) = Inr ?b1"
    using assms(1) by (simp add: bb_put_def bb_clear_def wrn_ok)
  have b2: "bb_put (take len payload) ?b1 =
      (if len \<le> 2048 then Inr \<lparr>bb_array = server_header len @ take len payload @ drop (10 + len) (bb_array b), bb_position = 10 + len\<rparr>
       else Inl Out_of_bounds)"
    using assms by (simp add: bb_put_def wrn_def add.commute)
  show ?thesis
    unfolding fill_send_buffer_def Let_def h using assms(2) b1 b2 by (simp add: rdn_ok)
qed

lemma forward_sent:
  assumes "rd_serverIp r = Some ip" and "rd_socket r" and "0 \<le> rd_serverPort r" and "rd_serverPort r \<le> 65535"
    and "nt_send N" and "length (bb_array (rd_sendBuffer r)) = 2058"
  shows "rd_sent (forwardToServer N payload (length payload) r) =
    rd_sent r @ (if length payload \<le> 2048 then [(server_header (length payload) @ payload, ip, rd_serverPort r)] else [])"
  using assms fill_send_buffer_eq [OF assms(6), of "length payload" payload]
  by (simp add: forwardToServer_def HEADER_SIZE_def)

lemma forward_keeps:
  "rd_serverIp (forwardToServer N p n r) = rd_serverIp r" "rd_socket (forwardToServer N p n r) = rd_socket r"
  "rd_serverPort (forwardToServer N p n r) = rd_serverPort r" "rd_running (forwardToServer N p n r) = rd_running r"
  "rd_hasRelay (forwardToServer N p n r) = rd_hasRelay r" "rd_receiving (forwardToServer N p n r) = rd_receiving r"
  by (simp_all add: forwardToServer_def Let_def split: option.split prod.split)

lemma forward_buffer:
  assumes "length (bb_array (rd_sendBuffer r)) = 2058" and "n \<le> length p"
  shows "length (bb_array (rd_sendBuffer (forwardToServer N p n r))) = 2058"
  using assms fill_send_buffer_eq [OF assms] by (simp add: forwardToServer_def Let_def split: option.split)

lemma handle_server_datagram:
  assumes "length buffer = 4096" and "receive_into buffer dgram = (data, len)"
  shows "\<exists>p. handleServerPacket data len = Inr p"
  using assms fromBytes_returns [of data]
  by (auto simp: handleServerPacket_def receive_into_def Let_def rdn_ok split: option.split)

lemma handle_server_payload:
  assumes "length buffer = 4096" and "length payload \<le> 4086" and "receive_into buffer (server_header n @ payload) = (data, len)"
  shows "handleServerPacket data len = Inr (Some payload)"
proof -
  have d: "data = server_header n @ payload @ drop (10 + length payload) buffer" "len = 10 + length payload"
    using assms by (auto simp: receive_into_def Let_def)
  let ?h = "\<lparr>hd_magic = MAGIC_NUMBER, hd_type = CONNECT, hd_compressed = 0, hd_length = of_nat n, hd_decompressLength = of_nat n\<rparr>"
  have "toBytes ?h = Inr (server_header n)" by (simp add: toBytes_eq server_header_def)
  from fromBytes_append [OF this, of "payload @ drop (10 + length payload) buffer"]
  have "fromBytes data = Inr (Some ?h)" by (simp add: d(1))
  then show ?thesis by (simp add: handleServerPacket_def HEADER_SIZE_def d rdn_ok)
qed

text \<open>The address of the server is read as host and port: after the start, \<open>host:port\<close> gives the address of the host and the
  port, a bare \<open>host\<close> the port 11451, and what follows a second colon is ignored; a host that is not found, a port that is not
  a number or a socket that cannot be opened leave a stopped redirector that forwards nothing.\<close>

theorem server_address_read:
  assumes "CHR '':'' \<notin> set host" and "CHR '':'' \<notin> set port" and "rd_serverAddress r = host @ tail"
    and "tail = [] \<or> tail = CHR '':'' # port \<or> (\<exists>more. tail = CHR '':'' # port @ CHR '':'' # more)"
    and "rd_running r" and "\<not> rd_socket r"
  shows "redirector_connect N r =
    (let p = (if tail = [] then Some DEFAULT_PORT else toInt port); ip = nt_getByName N host in
     if ip \<noteq> None \<and> p \<noteq> None \<and> nt_socket N
     then r\<lparr>rd_serverIp := ip, rd_serverPort := the p, rd_socket := True\<rparr>
     else r\<lparr>rd_serverIp := if ip = None then rd_serverIp r else ip, rd_serverPort := if ip = None \<or> p = None then rd_serverPort r else the p,
            rd_running := False, rd_receiving := False\<rparr>)"
proof -
  have s: "split_char (CHR '':'') (host @ tail) =
      (if tail = [] then [host] else host # split_char (CHR '':'') (drop 1 tail))"
    using assms(1,4) by (auto simp: split_char_none split_char_first)
  have p: "tail \<noteq> [] \<Longrightarrow> \<exists>ps. split_char (CHR '':'') (drop 1 tail) = port # ps"
    using assms(2,4) by (auto simp: split_char_none split_char_first)
  show ?thesis
  proof (cases "tail = []")
    case True
    then show ?thesis using assms(3,5,6) s
      by (auto simp: redirector_connect_def Let_def redirector_stop_def split: option.split)
  next
    case False
    with p obtain ps where "split_char (CHR '':'') (drop 1 tail) = port # ps" by blast
    with False show ?thesis using assms(3,5,6) s
      by (auto simp: redirector_connect_def Let_def redirector_stop_def split: option.split)
  qed
qed

definition example_net :: net where
  "example_net = \<lparr>nt_getByName = (\<lambda>h. if h = ''lan-play.com'' then Some [10, 0, 0, 9] else None), nt_socket = True, nt_send = True\<rparr>"

theorem server_address_read_witness:
  "redirector_connect example_net (redirector_start (new_redirector ''lan-play.com:80'')) =
     (redirector_start (new_redirector ''lan-play.com:80''))\<lparr>rd_serverIp := Some [10, 0, 0, 9], rd_serverPort := 80, rd_socket := True\<rparr>"
proof -
  have "toInt ''80'' = Some 80" by code_simp
  then show ?thesis
    using server_address_read [of "''lan-play.com''" "''80''" "redirector_start (new_redirector ''lan-play.com:80'')" "'':80''" example_net]
    by (simp add: redirector_start_def new_redirector_def example_net_def Let_def)
qed

end
