(* ===== verification/App_Relay.thy ===== *)
theory App_Relay
  imports App_Redirector Checksum
begin

text \<open>
  \<open>UdpRelayServer.kt\<close>: what the Android client does with the packets of its virtual interface. A UDP packet for
  the gateway is reduced to its payload and forwarded; what the server sends is wrapped in an IP and a UDP header
  and written to the interface. A table has a socket per port of the gateway, with the address the last
  packet came from. The calls of the three threads (reader of the interface, receiver of the
  redirector, watchdog) are steps of one state. The sums of the checksums stay far below \<open>2 ^ 31\<close> for
  packets of the sizes that occur, so an \<open>Int\<close> that only counts is a natural number here.
\<close>

section \<open>State\<close>

record managed_socket =
  ms_handle :: nat
  ms_localPort :: nat
  ms_lastSourceIp :: inet
  ms_lastSourcePort :: nat
  ms_lastActivity :: int

record relay_server =
  us_sockets :: "(nat \<times> managed_socket) list"
  us_gatewayIp :: string
  us_watchdogRunning :: bool
  us_open :: "nat list"
  us_next :: nat
  us_tun :: "bytes list"

record app =
  ap_relay :: relay_server
  ap_redirector :: redirector

text \<open>What the system answers: the local port of a socket bound to a port, or none for an exception; the clock in milliseconds;
  the order in which the concurrent table gives its keys; and the network.\<close>

record android =
  an_bind :: "nat \<Rightarrow> nat option"
  an_now :: int
  an_order :: "nat list \<Rightarrow> nat list"
  an_net :: net

definition IDLE_TIMEOUT_MS :: int where "IDLE_TIMEOUT_MS = 60000"

section \<open>The address of the gateway\<close>

datatype inet_address = Inet4 u8 u8 u8 u8 | Inet6 bytes

fun isLoopbackAddress :: "inet_address \<Rightarrow> bool" where
  "isLoopbackAddress (Inet4 a b c d) \<longleftrightarrow> a = 127"
| "isLoopbackAddress (Inet6 x) \<longleftrightarrow> x = replicate 15 0 @ [1]"

fun first_inet4 :: "inet_address list \<Rightarrow> string option" where
  "first_inet4 [] = None"
| "first_inet4 (a # as) =
     (case a of
        Inet4 w x y z \<Rightarrow> if isLoopbackAddress a then first_inet4 as else Some (dotted (unat w) (unat x) (unat y) (unat z))
      | Inet6 _ \<Rightarrow> first_inet4 as)"

fun getHotspotIpAddress :: "(string \<times> inet_address list) list \<Rightarrow> string" where
  "getHotspotIpAddress [] = []"
| "getHotspotIpAddress ((name, addrs) # rest) =
     (if contains_str ''wlan0'' name \<or> contains_str ''ap0'' name then
        (case first_inet4 addrs of Some ip \<Rightarrow> ip | None \<Rightarrow> getHotspotIpAddress rest)
      else getHotspotIpAddress rest)"

definition new_relay :: "(string \<times> inet_address list) list \<Rightarrow> relay_server" where
  "new_relay nics =
     \<lparr>us_sockets = [], us_gatewayIp = getHotspotIpAddress nics, us_watchdogRunning = True, us_open = [], us_next = 0,
      us_tun = []\<rparr>"

section \<open>From the interface to the server\<close>

definition getPort :: "bytes \<Rightarrow> nat \<Rightarrow> nat res" where
  "getPort packet offset =
     rbind (rd packet offset) (\<lambda>a. rbind (rd packet (offset + 1)) (\<lambda>b. Inr (256 * unat a + unat b)))"

definition getIpString :: "bytes \<Rightarrow> nat \<Rightarrow> string res" where
  "getIpString packet offset =
     rbind (rdn packet offset 4) (\<lambda>q. Inr (dotted (unat (q ! 0)) (unat (q ! 1)) (unat (q ! 2)) (unat (q ! 3))))"

text \<open>\<open>putIfAbsent\<close>: the new table, and the entry that was there.\<close>

definition putIfAbsent :: "nat \<Rightarrow> managed_socket \<Rightarrow> (nat \<times> managed_socket) list \<Rightarrow> (nat \<times> managed_socket) list \<times> managed_socket option" where
  "putIfAbsent k m t = (case map_of t k of Some e \<Rightarrow> (t, Some e) | None \<Rightarrow> (t @ [(k, m)], None))"

text \<open>The fields of an entry are variables, which the code sets through the object it has in hand.\<close>

definition set_entry :: "nat \<Rightarrow> managed_socket \<Rightarrow> (nat \<times> managed_socket) list \<Rightarrow> (nat \<times> managed_socket) list" where
  "set_entry h m t = map (\<lambda>(k, e). if ms_handle e = h then (k, m) else (k, e)) t"

definition handleInterceptedPacket :: "android \<Rightarrow> inet \<Rightarrow> nat \<Rightarrow> nat \<Rightarrow> bytes \<Rightarrow> app \<Rightarrow> app" where
  "handleInterceptedPacket A srcIp srcPort dstPort payload ap =
     (let us = ap_relay ap in
      case (case map_of (us_sockets us) dstPort of
              Some m \<Rightarrow> Some (m, us)
            | None \<Rightarrow>
                (case an_bind A dstPort of
                   None \<Rightarrow> None
                 | Some lp \<Rightarrow>
                     let h = us_next us;
                         new = \<lparr>ms_handle = h, ms_localPort = lp, ms_lastSourceIp = srcIp, ms_lastSourcePort = srcPort,
                                ms_lastActivity = an_now A\<rparr>;
                         (t, existing) = putIfAbsent dstPort new (us_sockets us);
                         us1 = us\<lparr>us_sockets := t, us_next := h + 1\<rparr> in
                     case existing of
                       Some e \<Rightarrow> Some (e, us1)
                     | None \<Rightarrow> Some (new, us1\<lparr>us_open := us_open us @ [h]\<rparr>))) of
        None \<Rightarrow> ap
      | Some (m, us2) \<Rightarrow>
          let m' = m\<lparr>ms_lastSourceIp := srcIp, ms_lastSourcePort := srcPort, ms_lastActivity := an_now A\<rparr> in
          ap\<lparr>ap_relay := us2\<lparr>us_sockets := set_entry (ms_handle m) m' (us_sockets us2)\<rparr>,
             ap_redirector := forwardToServer (an_net A) payload (length payload) (ap_redirector ap)\<rparr>)"

definition processFromTun :: "android \<Rightarrow> bytes \<Rightarrow> nat \<Rightarrow> app \<Rightarrow> (bool \<times> app) res" where
  "processFromTun A packet len ap =
     (if len < 28 then Inr (False, ap)
      else
        rbind (rd packet 0) (\<lambda>b0.
        if drop_bit 4 b0 AND 0x0F \<noteq> 4 then Inr (False, ap)
        else
          rbind (rd packet 9) (\<lambda>protocol.
          if protocol \<noteq> 17 then Inr (False, ap)
          else
            rbind (getIpString packet 16) (\<lambda>dstIp.
            if us_gatewayIp (ap_relay ap) \<noteq> [] \<and> dstIp \<noteq> us_gatewayIp (ap_relay ap) \<and> dstIp \<noteq> dotted 255 255 255 255
            then Inr (False, ap)
            else
              let ihl = unat (b0 AND 0x0F) * 4 in
              rbind (rdn packet 12 4) (\<lambda>srcIp.
              rbind (getPort packet ihl) (\<lambda>srcPort.
              rbind (getPort packet (ihl + 2)) (\<lambda>dstPort.
              let payloadOffset = ihl + 8 in
              if len \<le> payloadOffset then Inr (False, ap)
              else
                rbind (rdn packet payloadOffset (len - payloadOffset)) (\<lambda>payload.
                Inr (True, handleInterceptedPacket A srcIp srcPort dstPort payload ap)))))))))"

section \<open>From the server to the interface\<close>

function fold16 :: "nat \<Rightarrow> nat" where
  "fold16 s = (if s div 65536 \<noteq> 0 then fold16 (s mod 65536 + s div 65536) else s)"
  by auto
termination
proof (relation "measure id")
  fix s :: nat
  assume "s div 65536 \<noteq> 0"
  moreover have "s mod 65536 + 65536 * (s div 65536) = s" by simp
  ultimately have "s mod 65536 + s div 65536 < s" by linarith
  then show "(s mod 65536 + s div 65536, s) \<in> measure id" by simp
qed simp

declare fold16.simps [simp del]

function checksum_loop :: "bytes \<Rightarrow> nat \<Rightarrow> nat \<Rightarrow> nat \<Rightarrow> nat \<Rightarrow> nat res" where
  "checksum_loop data offset len i s =
     (if i < offset + len then
        if i = offset + 10 then checksum_loop data offset len (i + 2) s
        else rbind (getPort data i) (\<lambda>word. checksum_loop data offset len (i + 2) (s + word))
      else Inr s)"
  by auto
termination
  by (relation "measure (\<lambda>(_, offset, len, i, _). offset + len - i)") auto

declare checksum_loop.simps [simp del]

definition calculateChecksum :: "bytes \<Rightarrow> nat \<Rightarrow> nat \<Rightarrow> nat res" where
  "calculateChecksum data offset len =
     rbind (checksum_loop data offset len offset 0) (\<lambda>s. Inr (65535 - fold16 s))"

function udp_words :: "bytes \<Rightarrow> nat \<Rightarrow> nat \<Rightarrow> nat \<Rightarrow> (nat \<times> nat) res" where
  "udp_words packet stop i s =
     (if i < stop - 1 then rbind (getPort packet i) (\<lambda>word. udp_words packet stop (i + 2) (s + word))
      else Inr (i, s))"
  by auto
termination
  by (relation "measure (\<lambda>(_, stop, i, _). stop - i)") auto

declare udp_words.simps [simp del]

definition calculateUdpChecksum :: "bytes \<Rightarrow> nat \<Rightarrow> nat \<Rightarrow> inet \<Rightarrow> inet \<Rightarrow> nat res" where
  "calculateUdpChecksum packet udpOffset udpLen srcIp dstIp =
     rbind (getPort srcIp 0) (\<lambda>s0. rbind (getPort dstIp 0) (\<lambda>d0.
     rbind (getPort srcIp 2) (\<lambda>s2. rbind (getPort dstIp 2) (\<lambda>d2.
     rbind (udp_words packet (udpOffset + udpLen) udpOffset (s0 + d0 + s2 + d2 + 17 + udpLen)) (\<lambda>(i, s).
     rbind (if i < udpOffset + udpLen then rbind (rd packet i) (\<lambda>a. Inr (s + 256 * unat a)) else Inr s) (\<lambda>s1.
     let result = 65535 - fold16 s1 in
     Inr (if result = 0 then 65535 else result)))))))"

definition put16 :: "nat \<Rightarrow> nat \<Rightarrow> bytes \<Rightarrow> bytes" where
  "put16 i v p = p[i := of_nat (v div 256), i + 1 := of_nat (v mod 256)]"

definition buildRawUdpPacket :: "inet \<Rightarrow> nat \<Rightarrow> inet \<Rightarrow> nat \<Rightarrow> bytes \<Rightarrow> bytes res" where
  "buildRawUdpPacket srcIp srcPort dstIp dstPort payload =
     (let totalLength = 20 + 8 + length payload;
          p0 = put16 2 totalLength ((replicate totalLength 0)[0 := 0x45, 1 := 0]);
          p1 = p0[4 := 0, 5 := 0, 6 := 0x40, 7 := 0, 8 := 64, 9 := 17] in
      rbind (rdn srcIp 0 4) (\<lambda>src. rbind (wrn p1 12 src) (\<lambda>p2.
      rbind (rdn dstIp 0 4) (\<lambda>dst. rbind (wrn p2 16 dst) (\<lambda>p3.
      rbind (calculateChecksum p3 0 20) (\<lambda>ipChecksum.
      let p4 = put16 10 ipChecksum p3;
          udpOffset = 20;
          udpLen = 8 + length payload;
          p5 = put16 (udpOffset + 4) udpLen (put16 (udpOffset + 2) dstPort (put16 udpOffset srcPort p4));
          p6 = p5[udpOffset + 6 := 0, udpOffset + 7 := 0] in
      rbind (calculateUdpChecksum p6 udpOffset udpLen srcIp dstIp) (\<lambda>udpChecksum.
      wrn (put16 (udpOffset + 6) udpChecksum p6) 28 payload)))))))"

fun maxByOrNull :: "('a \<Rightarrow> int) \<Rightarrow> 'a list \<Rightarrow> 'a option" where
  "maxByOrNull f [] = None"
| "maxByOrNull f (x # xs) = Some (foldl (\<lambda>m y. if f m < f y then y else m) x xs)"

definition table_values :: "android \<Rightarrow> (nat \<times> managed_socket) list \<Rightarrow> managed_socket list" where
  "table_values A t = List.map_filter (map_of t) (an_order A (map fst t))"

definition processFromServer :: "android \<Rightarrow> bytes \<Rightarrow> nat \<Rightarrow> app \<Rightarrow> app" where
  "processFromServer A payload gatewayPort ap =
     (let us = ap_relay ap in
      case (if gatewayPort \<noteq> 0 then map_of (us_sockets us) gatewayPort
            else maxByOrNull ms_lastActivity (table_values A (us_sockets us))) of
        None \<Rightarrow> ap
      | Some m \<Rightarrow>
          (case nt_getByName (an_net A) (if us_gatewayIp us \<noteq> [] then us_gatewayIp us else dotted 192 168 43 1) of
             None \<Rightarrow> ap
           | Some srcIp \<Rightarrow>
               (case buildRawUdpPacket srcIp (if gatewayPort \<noteq> 0 then gatewayPort else ms_localPort m)
                       (ms_lastSourceIp m) (ms_lastSourcePort m) payload of
                  Inl _ \<Rightarrow> ap
                | Inr rawPacket \<Rightarrow> ap\<lparr>ap_relay := us\<lparr>us_tun := us_tun us @ [rawPacket]\<rparr>\<rparr>)))"

text \<open>The receiver hands what it unwraps to the relay, without the port it was for.\<close>

definition server_datagram :: "android \<Rightarrow> bytes \<Rightarrow> bytes \<Rightarrow> app \<Rightarrow> app res" where
  "server_datagram A buffer dgram ap =
     (let (data, len) = receive_into buffer dgram in
      rbind (handleServerPacket data len) (\<lambda>p.
      Inr (case p of None \<Rightarrow> ap | Some payload \<Rightarrow> processFromServer A payload 0 ap)))"

section \<open>The watchdog and the end\<close>

definition idle :: "int \<Rightarrow> managed_socket \<Rightarrow> bool" where
  "idle now m \<longleftrightarrow> now - ms_lastActivity m > IDLE_TIMEOUT_MS"

definition cleanupIdleSockets :: "int \<Rightarrow> relay_server \<Rightarrow> relay_server" where
  "cleanupIdleSockets now us =
     us\<lparr>us_sockets := filter (\<lambda>(k, m). \<not> idle now m) (us_sockets us),
        us_open := filter (\<lambda>h. h \<notin> ms_handle ` snd ` set (filter (\<lambda>(k, m). idle now m) (us_sockets us))) (us_open us)\<rparr>"

definition relay_stop :: "relay_server \<Rightarrow> relay_server" where
  "relay_stop us =
     us\<lparr>us_watchdogRunning := False, us_sockets := [],
        us_open := filter (\<lambda>h. h \<notin> ms_handle ` snd ` set (us_sockets us)) (us_open us)\<rparr>"

section \<open>The built packet\<close>

lemma rep16_sub: "65535 * k < n \<Longrightarrow> rep16 (n - 65535 * k) = rep16 n"
proof (induction k)
  case (Suc k)
  then have "rep16 (n - 65535 * k - 65535) = rep16 (n - 65535 * k)" by (intro rep16_step) simp
  with Suc show ?case by (simp add: diff_diff_left add.commute)
qed simp

lemma fold16_rep16: "fold16 s = rep16 s"
proof (induction s rule: fold16.induct)
  case (1 s)
  show ?case
  proof (cases "s div 65536 = 0")
    case True
    then have "s < 65536" by (simp add: div_eq_0_iff)
    then have "rep16 s = s" by (intro rep16_small) simp
    with True show ?thesis by (simp add: fold16.simps [of s])
  next
    case False
    have e: "s mod 65536 + 65536 * (s div 65536) = s" by simp
    have "s mod 65536 + s div 65536 = s - 65535 * (s div 65536)" using e by linarith
    moreover have "65535 * (s div 65536) < s" using e False by linarith
    ultimately have "rep16 (s mod 65536 + s div 65536) = rep16 s" using rep16_sub by simp
    with 1 False show ?thesis by (simp add: fold16.simps [of s])
  qed
qed

lemma getPort_eq: "i + 1 < length p \<Longrightarrow> getPort p i = Inr (256 * unat (p ! i) + unat (p ! (i + 1)))"
  by (simp add: getPort_def rd_ok)

lemma drop_two: "i + 1 < length p \<Longrightarrow> drop i p = p ! i # p ! (i + 1) # drop (i + 2) p"
  by (simp add: Cons_nth_drop_Suc)

lemma udp_words_eq:
  assumes "length p \<ge> stop" and "i \<le> stop"
  shows "\<exists>j t. udp_words p stop i s = Inr (j, t) \<and> j \<le> stop \<and> stop \<le> j + 1 \<and>
    s + sum_list (net_words (take (stop - i) (drop i p))) = t + (if j < stop then 256 * unat (p ! j) else 0)"
  using assms
proof (induction p stop i s rule: udp_words.induct)
  case (1 p stop i s)
  show ?case
  proof (cases "i < stop - 1")
    case True
    then have i: "i + 1 < length p" "i + 2 \<le> stop" using "1.prems" by auto
    let ?w = "256 * unat (p ! i) + unat (p ! (i + 1))"
    have "stop - i = Suc (Suc (stop - (i + 2)))" using i(2) by simp
    then have "net_words (take (stop - i) (drop i p)) = ?w # net_words (take (stop - (i + 2)) (drop (i + 2) p))"
      using drop_two [OF i(1)] by simp
    moreover obtain j t where "udp_words p stop (i + 2) (s + ?w) = Inr (j, t)" "j \<le> stop" "stop \<le> j + 1"
      "s + ?w + sum_list (net_words (take (stop - (i + 2)) (drop (i + 2) p))) = t + (if j < stop then 256 * unat (p ! j) else 0)"
      using "1.IH" [OF True getPort_eq [OF i(1)] "1.prems"(1) i(2)] by blast
    ultimately show ?thesis using True i(1)
      by (intro exI [of _ j] exI [of _ t]) (simp add: udp_words.simps [of p stop i s] getPort_eq)
  next
    case False
    then have "i = stop \<or> Suc i = stop" using "1.prems" by auto
    then show ?thesis
    proof
      assume "Suc i = stop"
      then have "take (stop - i) (drop i p) = [p ! i]" using "1.prems" by (auto simp: take_Suc_conv_app_nth)
      with \<open>Suc i = stop\<close> show ?thesis by (auto simp: udp_words.simps [of p stop i s])
    next
      assume "i = stop"
      moreover have "\<not> stop < stop - 1" by simp
      ultimately show ?thesis
        by (intro exI [of _ stop] exI [of _ s]) (simp add: udp_words.simps [of p stop stop s])
    qed
  qed
qed

lemma net_words_zero: "sum_list (net_words (replicate n 0)) = 0"
proof (induction n rule: less_induct)
  case (less n)
  show ?case
  proof (cases "n < 2")
    case True
    then have "n = 0 \<or> n = 1" by auto
    then show ?thesis by auto
  next
    case False
    then obtain m where "n = Suc (Suc m)" by (metis Suc_diff_Suc diff_Suc_1 less_2_cases_iff not_less_eq zero_less_Suc old.nat.exhaust)
    with less [of m] show ?thesis by simp
  qed
qed

text \<open>The packet as headers and payload, with checksums \<open>c\<close> and \<open>u\<close>.\<close>

definition hi :: "nat \<Rightarrow> u8" where "hi v = of_nat (v div 256)"
definition lo :: "nat \<Rightarrow> u8" where "lo v = of_nat (v mod 256)"

lemma put16_hi_lo: "put16 i v p = p[i := hi v, i + 1 := lo v]"
  by (simp add: put16_def hi_def lo_def)

lemma hi_lo_0 [simp]: "hi 0 = 0" "lo 0 = 0"
  by (simp_all add: hi_def lo_def)

lemma zeros_8: "replicate 8 (0 :: u8) = [0, 0, 0, 0, 0, 0, 0, 0]"
  by code_simp

definition ip_head :: "nat \<Rightarrow> nat \<Rightarrow> bytes \<Rightarrow> bytes \<Rightarrow> bytes" where
  "ip_head total_len c src dst =
     [0x45, 0, hi total_len, lo total_len, 0, 0, 0x40, 0, 64, 17, hi c, lo c] @ src @ dst"

definition udp_head :: "nat \<Rightarrow> nat \<Rightarrow> nat \<Rightarrow> nat \<Rightarrow> bytes" where
  "udp_head sp dp n u = [hi sp, lo sp, hi dp, lo dp, hi n, lo n, hi u, lo u]"

lemma zeros_28: "replicate (28 + n) (0 :: u8) =
    [0, 0, 0, 0, 0, 0, 0, 0, 0, 0, 0, 0, 0, 0, 0, 0, 0, 0, 0, 0, 0, 0, 0, 0, 0, 0, 0, 0] @ replicate n 0"
proof -
  have "replicate 28 (0 :: u8) = [0, 0, 0, 0, 0, 0, 0, 0, 0, 0, 0, 0, 0, 0, 0, 0, 0, 0, 0, 0, 0, 0, 0, 0, 0, 0, 0, 0]"
    by code_simp
  then show ?thesis by (simp only: replicate_add)
qed

lemma write_ip_head:
  "(put16 2 t ((replicate (28 + n) 0)[0 := 0x45, 1 := 0]))[4 := 0, 5 := 0, 6 := 0x40, 7 := 0, 8 := 64, 9 := 17] =
     [0x45, 0, hi t, lo t, 0, 0, 0x40, 0, 64, 17, 0, 0] @ replicate 8 0 @ replicate 8 0 @ replicate n 0"
  unfolding zeros_28 zeros_8 put16_hi_lo by simp

lemma wrn_at: "length xs = off \<Longrightarrow> length ys = length s \<Longrightarrow> wrn (xs @ ys @ zs) off s = Inr (xs @ s @ zs)"
  by (simp add: wrn_ok)

lemma put_checksum: "length src = 4 \<Longrightarrow> length dst = 4 \<Longrightarrow>
    put16 10 c (ip_head t 0 src dst @ rest) = ip_head t c src dst @ rest"
  by (simp add: put16_hi_lo ip_head_def)

lemma write_udp_head:
  assumes "length h = 20"
  shows "(put16 24 m (put16 22 dp (put16 20 sp (h @ replicate 8 0 @ rest))))[26 := 0, 27 := 0] = h @ udp_head sp dp m 0 @ rest"
    and "put16 26 u (h @ udp_head sp dp m v @ rest) = h @ udp_head sp dp m u @ rest"
proof -
  show "(put16 24 m (put16 22 dp (put16 20 sp (h @ replicate 8 0 @ rest))))[26 := 0, 27 := 0] = h @ udp_head sp dp m 0 @ rest"
    using assms unfolding zeros_8 by (simp add: put16_hi_lo udp_head_def list_update_append)
  show "put16 26 u (h @ udp_head sp dp m v @ rest) = h @ udp_head sp dp m u @ rest"
    using assms by (simp add: put16_hi_lo udp_head_def list_update_append)
qed

lemma four_bytes:
  assumes "length (xs :: bytes) = 4"
  obtains a b c d where "xs = [a, b, c, d]"
  using assms by (auto simp: numeral_eq_Suc length_Suc_conv)

lemma ip_checksum:
  assumes "length src = 4" and "length dst = 4"
  shows "calculateChecksum (ip_head t 0 src dst @ rest) 0 20 = Inr (65535 - rep16 (sum_list (net_words (ip_head t 0 src dst))))"
proof -
  obtain a b c d where src: "src = [a, b, c, d]" by (rule four_bytes [OF assms(1)])
  obtain e f g h where dst: "dst = [e, f, g, h]" by (rule four_bytes [OF assms(2)])
  have "checksum_loop (ip_head t 0 src dst @ rest) 0 20 0 0 = Inr (sum_list (net_words (ip_head t 0 src dst)))"
    unfolding src dst ip_head_def by (simp add: checksum_loop.simps getPort_def rd_def)
  then show ?thesis by (simp add: calculateChecksum_def fold16_rep16)
qed

text \<open>The sum that the UDP checksum complements: the pseudo header and the header with its checksum field zero. The payload
  is copied into the packet only later and is still zero.\<close>

definition pseudo :: "bytes \<Rightarrow> bytes \<Rightarrow> nat \<Rightarrow> bytes" where
  "pseudo src dst n = src @ dst @ [0, 17, hi n, lo n]"

lemma hi_lo_value: "n < 65536 \<Longrightarrow> 256 * unat (hi n) + unat (lo n) = n"
  by (simp add: hi_def lo_def unat_of_nat_u8 less_mult_imp_div_less)

lemma udp_checksum:
  assumes "length src = 4" and "length dst = 4" and "length h = 20" and "n < 65528"
  shows "calculateUdpChecksum (h @ udp_head sp dp (8 + n) 0 @ replicate n 0) 20 (8 + n) src dst =
    Inr (let r = 65535 - rep16 (sum_list (net_words (pseudo src dst (8 + n) @ udp_head sp dp (8 + n) 0))) in if r = 0 then 65535 else r)"
proof -
  obtain a b c d where src: "src = [a, b, c, d]" by (rule four_bytes [OF assms(1)])
  obtain e f g k where dst: "dst = [e, f, g, k]" by (rule four_bytes [OF assms(2)])
  let ?p = "h @ udp_head sp dp (8 + n) 0 @ replicate n 0"
  let ?s = "(256 * unat a + unat b) + (256 * unat e + unat f) + (256 * unat c + unat d) + (256 * unat g + unat k) + 17 + (8 + n)"
  have len: "length ?p = 20 + (8 + n)" using assms(3) by (simp add: udp_head_def)
  have "take (20 + (8 + n) - 20) (drop 20 ?p) = udp_head sp dp (8 + n) 0 @ replicate n 0"
    using assms(3) by (simp add: udp_head_def)
  moreover have "net_words (udp_head sp dp (8 + n) 0 @ replicate n 0) = net_words (udp_head sp dp (8 + n) 0) @ net_words (replicate n 0)"
    by (intro net_words_append) (simp add: udp_head_def)
  ultimately have tw: "sum_list (net_words (take (20 + (8 + n) - 20) (drop 20 ?p))) = sum_list (net_words (udp_head sp dp (8 + n) 0))"
    by (simp only: sum_list_append net_words_zero add_0_right)
  have "20 \<le> 20 + (8 + n)" "20 + (8 + n) \<le> length ?p" using len by simp_all
  from udp_words_eq [OF this(2,1), of ?s] obtain j t where
    w: "udp_words ?p (20 + (8 + n)) 20 ?s = Inr (j, t)" "j \<le> 20 + (8 + n)" "20 + (8 + n) \<le> j + 1"
    "?s + sum_list (net_words (udp_head sp dp (8 + n) 0)) = t + (if j < 20 + (8 + n) then 256 * unat (?p ! j) else 0)"
    unfolding tw by blast
  have q: "?s + sum_list (net_words (udp_head sp dp (8 + n) 0)) = sum_list (net_words (pseudo src dst (8 + n) @ udp_head sp dp (8 + n) 0))"
    using hi_lo_value [of "8 + n"] assms(4) by (simp add: pseudo_def src dst udp_head_def)
  have ports: "getPort src 0 = Inr (256 * unat a + unat b)" "getPort src 2 = Inr (256 * unat c + unat d)"
    "getPort dst 0 = Inr (256 * unat e + unat f)" "getPort dst 2 = Inr (256 * unat g + unat k)"
    by (simp_all add: src dst getPort_def rd_def)
  define s1 where "s1 = sum_list (net_words (pseudo src dst (8 + n) @ udp_head sp dp (8 + n) 0))"
  have last: "(if j < 20 + (8 + n) then rbind (rd ?p j) (\<lambda>a. Inr (t + 256 * unat a)) else Inr t) = (Inr s1 :: nat res)"
  proof (cases "j < 20 + (8 + n)")
    case True
    then have "rd ?p j = Inr (?p ! j)" using len by (simp only: rd_ok)
    then show ?thesis using True w(4) q unfolding s1_def by (simp only: if_True rbind_Inr)
  next
    case False
    then show ?thesis using w(4) q unfolding s1_def by (simp only: if_False add_0_right)
  qed
  show ?thesis
    unfolding calculateUdpChecksum_def ports rbind_Inr w(1) prod.case last Let_def fold16_rep16 s1_def ..
qed

definition ip_sum :: "nat \<Rightarrow> bytes \<Rightarrow> bytes \<Rightarrow> nat" where
  "ip_sum n src dst = 65535 - rep16 (sum_list (net_words (ip_head n 0 src dst)))"

definition udp_sum :: "nat \<Rightarrow> bytes \<Rightarrow> nat \<Rightarrow> bytes \<Rightarrow> nat \<Rightarrow> nat" where
  "udp_sum n src sp dst dp =
     (let r = 65535 - rep16 (sum_list (net_words (pseudo src dst n @ udp_head sp dp n 0))) in if r = 0 then 65535 else r)"

definition udp_frame :: "bytes \<Rightarrow> nat \<Rightarrow> bytes \<Rightarrow> nat \<Rightarrow> bytes \<Rightarrow> bytes" where
  "udp_frame src sp dst dp payload =
     (let n = length payload in
      ip_head (28 + n) (ip_sum (28 + n) src dst) src dst @ udp_head sp dp (8 + n) (udp_sum (8 + n) src sp dst dp) @ payload)"

lemma build_packet:
  assumes "length src = 4" and "length dst = 4" and "length payload < 65508"
  shows "buildRawUdpPacket src sp dst dp payload = Inr (udp_frame src sp dst dp payload)"
proof -
  define n where "n = length payload"
  define t where "t = 28 + n"
  have n: "20 + 8 + length payload = t" "8 + length payload = 8 + n" "t = 28 + n" by (simp_all add: n_def t_def)
  let ?h0 = "[0x45, 0, hi t, lo t, 0, 0, 0x40, 0, 64, 17, 0, 0] :: bytes"
  let ?z = "replicate 8 0 @ replicate n 0 :: bytes"
  have z: "replicate 8 (0 :: u8) = replicate 4 0 @ replicate 4 0" by (simp flip: replicate_add)
  have p1: "(put16 2 t ((replicate t 0)[0 := 0x45, 1 := 0]))[4 := 0, 5 := 0, 6 := 0x40, 7 := 0, 8 := 64, 9 := 17] =
      ?h0 @ replicate 4 0 @ replicate 4 0 @ ?z"
    using write_ip_head [of t n] unfolding n(3) [symmetric] by (simp only: z append_assoc)
  have p2: "wrn (?h0 @ replicate 4 0 @ replicate 4 0 @ ?z) 12 src = Inr (?h0 @ src @ replicate 4 0 @ ?z)"
    by (intro wrn_at) (use assms(1) in simp_all)
  have "wrn ((?h0 @ src) @ replicate 4 0 @ ?z) 16 dst = Inr ((?h0 @ src) @ dst @ ?z)"
    by (intro wrn_at) (use assms(1,2) in simp_all)
  then have p3: "wrn (?h0 @ src @ replicate 4 0 @ ?z) 16 dst = Inr (ip_head t 0 src dst @ ?z)"
    by (simp add: ip_head_def)
  note c = ip_checksum [OF assms(1,2), of t ?z, folded ip_sum_def]
  let ?h = "ip_head t (ip_sum t src dst) src dst"
  have h: "length ?h = 20" using assms(1,2) by (simp add: ip_head_def)
  have offs: "(20 :: nat) + 4 = 24" "(20 :: nat) + 2 = 22" "(20 :: nat) + 6 = 26" "(20 :: nat) + 7 = 27" by simp_all
  have u: "calculateUdpChecksum (?h @ udp_head sp dp (8 + n) 0 @ replicate n 0) 20 (8 + n) src dst = Inr (udp_sum (8 + n) src sp dst dp)"
    using udp_checksum [OF assms(1,2) h] assms(3) by (simp add: udp_sum_def n_def)
  have "wrn ((?h @ udp_head sp dp (8 + n) (udp_sum (8 + n) src sp dst dp)) @ replicate n 0 @ []) 28 payload =
      Inr ((?h @ udp_head sp dp (8 + n) (udp_sum (8 + n) src sp dst dp)) @ payload @ [])"
    by (intro wrn_at) (use h in \<open>simp_all add: udp_head_def n_def\<close>)
  then have last: "wrn (?h @ udp_head sp dp (8 + n) (udp_sum (8 + n) src sp dst dp) @ replicate n 0) 28 payload =
      Inr (udp_frame src sp dst dp payload)"
    by (simp add: udp_frame_def Let_def n_def t_def)
  have four: "rdn src 0 4 = Inr src" "rdn dst 0 4 = Inr dst" using assms(1,2) by (simp_all add: rdn_ok)
  show ?thesis
    unfolding buildRawUdpPacket_def Let_def n(1,2) p1 four rbind_Inr p2 p3 c put_checksum [OF assms(1,2)]
      offs write_udp_head [OF h] u last ..
qed

lemma of_nat_65535_sub: "r \<le> 65535 \<Longrightarrow> (of_nat (65535 - r) :: u16) = 0 \<longleftrightarrow> r = 65535"
proof -
  assume "r \<le> 65535"
  have "(of_nat (65535 - r) :: u16) = 0 \<longleftrightarrow> unat (of_nat (65535 - r) :: u16) = 0" by (simp add: unat_eq_0)
  also have "unat (of_nat (65535 - r) :: u16) = 65535 - r" by (rule unat_of_nat_u16) simp
  finally show ?thesis using \<open>r \<le> 65535\<close> by auto
qed

lemma rep16_full: "rep16 s = 65535 \<longleftrightarrow> 0 < s \<and> s mod 65535 = 0"
proof (cases "s = 0")
  case False
  have "(s - 1) mod 65535 + 1 = 65535 \<longleftrightarrow> s mod 65535 = 0"
    using False mod_Suc [of "s - 1" 65535] by (auto split: if_splits)
  with False show ?thesis by (simp only: rep16_def if_False) simp
qed (simp add: rep16_def)

lemma checksum_zero: "inet_checksum bs = 0 \<longleftrightarrow> 0 < sum_list (net_words bs) \<and> sum_list (net_words bs) mod 65535 = 0"
  unfolding inet_checksum_def oc_sum_rep16 of_nat_65535_sub [OF rep16_le] rep16_full ..

lemma complement_mod: "0 < s \<Longrightarrow> (s + (65535 - rep16 s)) mod 65535 = 0"
proof -
  assume "0 < s"
  then have r: "rep16 s = (s - 1) mod 65535 + 1" by (simp only: rep16_def if_False) simp
  have le: "rep16 s \<le> 65535" by (rule rep16_le)
  have "s - 1 = 65535 * ((s - 1) div 65535) + (s - 1) mod 65535" by simp
  then have "s + (65535 - rep16 s) = 65535 * ((s - 1) div 65535) + 65535" using r le \<open>0 < s\<close> by linarith
  then show ?thesis by (simp add: mod_simps)
qed

lemma ip_head_words:
  assumes "length src = 4" and "length dst = 4" and "c < 65536"
  shows "sum_list (net_words (ip_head t c src dst)) = sum_list (net_words (ip_head t 0 src dst)) + c"
    and "0 < sum_list (net_words (ip_head t 0 src dst))"
proof -
  obtain a b c' d where src: "src = [a, b, c', d]" by (rule four_bytes [OF assms(1)])
  obtain e f g h where dst: "dst = [e, f, g, h]" by (rule four_bytes [OF assms(2)])
  show "sum_list (net_words (ip_head t c src dst)) = sum_list (net_words (ip_head t 0 src dst)) + c"
    using hi_lo_value [OF assms(3)] by (simp add: ip_head_def src dst)
  show "0 < sum_list (net_words (ip_head t 0 src dst))" by (simp add: ip_head_def src dst)
qed

lemma udp_head_words:
  assumes "length src = 4" and "length dst = 4" and "u < 65536"
  shows "sum_list (net_words (pseudo src dst n @ udp_head sp dp n u @ payload)) =
      sum_list (net_words (pseudo src dst n @ udp_head sp dp n 0)) + u + sum_list (net_words payload)"
    and "0 < sum_list (net_words (pseudo src dst n @ udp_head sp dp n 0))"
proof -
  obtain a b c d where src: "src = [a, b, c, d]" by (rule four_bytes [OF assms(1)])
  obtain e f g h where dst: "dst = [e, f, g, h]" by (rule four_bytes [OF assms(2)])
  show "sum_list (net_words (pseudo src dst n @ udp_head sp dp n u @ payload)) =
      sum_list (net_words (pseudo src dst n @ udp_head sp dp n 0)) + u + sum_list (net_words payload)"
    using hi_lo_value [OF assms(3)] by (simp add: pseudo_def udp_head_def src dst)
  show "0 < sum_list (net_words (pseudo src dst n @ udp_head sp dp n 0))" by (simp add: pseudo_def udp_head_def src dst)
qed

lemma udp_frame_ip_valid:
  assumes "length src = 4" and "length dst = 4"
  shows "inet_checksum (take 20 (udp_frame src sp dst dp payload)) = 0"
proof -
  let ?t = "28 + length payload"
  have c: "ip_sum ?t src dst < 65536" by (simp add: ip_sum_def)
  have "take 20 (udp_frame src sp dst dp payload) = ip_head ?t (ip_sum ?t src dst) src dst"
    using assms by (simp add: udp_frame_def Let_def ip_head_def)
  then show ?thesis
    using ip_head_words [OF assms c, of ?t] complement_mod [of "sum_list (net_words (ip_head ?t 0 src dst))"]
    by (simp add: checksum_zero ip_sum_def)
qed

text \<open>C36: The packets the client writes to its interface have a wrong UDP checksum. The IP header is valid, but the UDP
  checksum is computed before the payload is copied into the packet: for a receiver that checks it, it is right exactly when the
  16-bit words of the payload add up to a multiple of 65535, as if the payload were all zero.\<close>

theorem udp_checksum_ignores_payload:
  assumes "length src = 4" and "length dst = 4" and "length payload < 65508"
  shows "\<exists>packet. buildRawUdpPacket src srcPort dst dstPort payload = Inr packet \<and> inet_checksum (take 20 packet) = 0 \<and>
    (inet_checksum (pseudo src dst (8 + length payload) @ drop 20 packet) = 0 \<longleftrightarrow> sum_list (net_words payload) mod 65535 = 0)"
proof -
  let ?n = "8 + length payload"
  define B where "B = sum_list (net_words (pseudo src dst ?n @ udp_head srcPort dstPort ?n 0))"
  define u where "u = udp_sum ?n src srcPort dst dstPort"
  define P where "P = sum_list (net_words payload)"
  have u: "u = (if 65535 - rep16 B = 0 then 65535 else 65535 - rep16 B)" by (simp add: u_def udp_sum_def Let_def B_def)
  have u_less: "u < 65536" unfolding u by (simp, linarith)
  have B: "0 < B" using udp_head_words(2) [OF assms(1,2) u_less] by (simp add: B_def)
  have "(B + u) mod 65535 = 0"
  proof (cases "65535 - rep16 B = 0")
    case True
    then have "B mod 65535 = 0" using complement_mod [OF B] by simp
    with True show ?thesis by (simp add: u mod_simps)
  next
    case False
    then show ?thesis using complement_mod [OF B] by (simp add: u)
  qed
  then have m: "(B + u + P) mod 65535 = P mod 65535" by (metis add_0 mod_add_left_eq)
  have "drop 20 (udp_frame src srcPort dst dstPort payload) = udp_head srcPort dstPort ?n u @ payload"
    using assms(1,2) by (simp add: udp_frame_def Let_def ip_head_def u_def)
  then have "inet_checksum (pseudo src dst ?n @ drop 20 (udp_frame src srcPort dst dstPort payload)) = 0 \<longleftrightarrow> P mod 65535 = 0"
    using udp_head_words(1) [OF assms(1,2) u_less, of ?n srcPort dstPort payload] B m
    by (simp add: checksum_zero B_def P_def)
  then show ?thesis using build_packet [OF assms, of srcPort dstPort] udp_frame_ip_valid [OF assms(1,2)]
    by (simp add: P_def)
qed

theorem udp_checksum_ignores_payload_witness:
  "\<exists>packet. buildRawUdpPacket [192, 168, 43, 1] 11451 [192, 168, 43, 7] 4000 [104, 105] = Inr packet \<and>
     inet_checksum (take 20 packet) = 0 \<and> inet_checksum (pseudo [192, 168, 43, 1] [192, 168, 43, 7] 10 @ drop 20 packet) \<noteq> 0"
  using udp_checksum_ignores_payload [of "[192, 168, 43, 1]" "[192, 168, 43, 7]" "[104, 105]" 11451 4000] by simp

end
