(* ===== verification/App_Service.thy ===== *)
theory App_Service
  imports App_Relay
begin

text \<open>
  The Android client as a whole: the relay and the redirector under the calls of the service's threads, and the
  service \<open>LanPlayVpnService.kt\<close> that creates and ends them. The theorems are about every
  state these calls lead to: no packet ends a thread, the open sockets are those of the table,
  and what a console sends reaches the server and is answered.
\<close>

section \<open>Calls of the threads\<close>

text \<open>A packet of the virtual interface, in the first \<open>len\<close> bytes of the reader's buffer; a datagram of the server, with what
  the receive buffer held before; the watchdog.\<close>

datatype app_event = From_tun bytes nat | From_server bytes bytes | Watchdog

fun app_handle :: "android \<Rightarrow> app_event \<Rightarrow> app \<Rightarrow> app res" where
  "app_handle A (From_tun packet len) ap = rbind (processFromTun A packet len ap) (\<lambda>(_, ap'). Inr ap')"
| "app_handle A (From_server buffer dgram) ap = server_datagram A buffer dgram ap"
| "app_handle A Watchdog ap = Inr (ap\<lparr>ap_relay := cleanupIdleSockets (an_now A) (ap_relay ap)\<rparr>)"

definition TUN_BUFFER :: nat where "TUN_BUFFER = 32767"
definition RECEIVE_BUFFER :: nat where "RECEIVE_BUFFER = 4096"

fun app_event_ok :: "app_event \<Rightarrow> bool" where
  "app_event_ok (From_tun packet len) \<longleftrightarrow> length packet = TUN_BUFFER \<and> len \<le> TUN_BUFFER"
| "app_event_ok (From_server buffer dgram) \<longleftrightarrow> length buffer = RECEIVE_BUFFER"
| "app_event_ok Watchdog \<longleftrightarrow> True"

definition new_app :: "(string \<times> inet_address list) list \<Rightarrow> string \<Rightarrow> app" where
  "new_app nics addr =
     \<lparr>ap_relay = new_relay nics, ap_redirector = redirector_start (setRelay (new_redirector addr))\<rparr>"

inductive app_reached :: "app \<Rightarrow> bool" where
  created: "app_reached (new_app nics addr)"
| connected: "app_reached ap \<Longrightarrow> app_reached (ap\<lparr>ap_redirector := redirector_connect N (ap_redirector ap)\<rparr>)"
| stopped: "app_reached ap \<Longrightarrow> app_reached (ap\<lparr>ap_redirector := redirector_stop (ap_redirector ap)\<rparr>)"
| handled: "app_reached ap \<Longrightarrow> app_event_ok e \<Longrightarrow> app_handle A e ap = Inr ap' \<Longrightarrow> app_reached ap'"

section \<open>The invariant\<close>

definition handles :: "(nat \<times> managed_socket) list \<Rightarrow> nat list" where
  "handles t = map (\<lambda>(k, m). ms_handle m) t"

definition app_inv :: "app \<Rightarrow> bool" where
  "app_inv ap \<longleftrightarrow>
     distinct (map fst (us_sockets (ap_relay ap))) \<and> distinct (handles (us_sockets (ap_relay ap))) \<and>
     set (us_open (ap_relay ap)) = set (handles (us_sockets (ap_relay ap))) \<and>
     (\<forall>h \<in> set (handles (us_sockets (ap_relay ap))). h < us_next (ap_relay ap)) \<and>
     (\<forall>(k, m) \<in> set (us_sockets (ap_relay ap)). length (ms_lastSourceIp m) = 4) \<and>
     length (bb_array (rd_sendBuffer (ap_redirector ap))) = 2058"

lemma set_entry_maps:
  assumes "ms_handle m = h"
  shows "map fst (set_entry h m t) = map fst t" "handles (set_entry h m t) = handles t"
  using assms by (auto simp: set_entry_def handles_def comp_def case_prod_unfold if_distrib)

lemma set_entry_ips:
  assumes "length (ms_lastSourceIp m) = 4" and "\<forall>(k, e) \<in> set t. length (ms_lastSourceIp e) = 4"
  shows "\<forall>(k, e) \<in> set (set_entry h m t). length (ms_lastSourceIp e) = 4"
  using assms by (fastforce simp: set_entry_def split: if_splits)

lemma handles_append [simp]: "handles (t @ [(k, m)]) = handles t @ [ms_handle m]"
  by (simp add: handles_def)

lemma intercepted_inv:
  assumes "app_inv ap" and "length srcIp = 4"
  shows "app_inv (handleInterceptedPacket A srcIp srcPort dstPort payload ap)"
proof -
  let ?us = "ap_relay ap" and ?t = "us_sockets (ap_relay ap)"
  define fw where "fw = forwardToServer (an_net A) payload (length payload) (ap_redirector ap)"
  have fw: "length (bb_array (rd_sendBuffer fw)) = 2058"
    unfolding fw_def using assms(1) by (intro forward_buffer) (simp_all add: app_inv_def)
  consider (old) m where "map_of ?t dstPort = Some m" | (fail) "map_of ?t dstPort = None" "an_bind A dstPort = None"
    | (new) lp where "map_of ?t dstPort = None" "an_bind A dstPort = Some lp" by (metis not_None_eq)
  then show ?thesis
  proof cases
    case old
    let ?m = "m\<lparr>ms_lastSourceIp := srcIp, ms_lastSourcePort := srcPort, ms_lastActivity := an_now A\<rparr>"
    have "handleInterceptedPacket A srcIp srcPort dstPort payload ap =
        ap\<lparr>ap_relay := ?us\<lparr>us_sockets := set_entry (ms_handle m) ?m ?t\<rparr>, ap_redirector := fw\<rparr>"
      using old by (simp add: handleInterceptedPacket_def Let_def fw_def)
    then show ?thesis using assms fw set_entry_maps [of ?m "ms_handle m" ?t] set_entry_ips [of ?m ?t "ms_handle m"]
      by (simp add: app_inv_def)
  next
    case fail
    then show ?thesis using assms(1) by (simp add: handleInterceptedPacket_def Let_def)
  next
    case new
    let ?m = "\<lparr>ms_handle = us_next ?us, ms_localPort = lp, ms_lastSourceIp = srcIp, ms_lastSourcePort = srcPort,
      ms_lastActivity = an_now A\<rparr>"
    let ?t' = "?t @ [(dstPort, ?m)]"
    have "handleInterceptedPacket A srcIp srcPort dstPort payload ap =
        ap\<lparr>ap_relay := ?us\<lparr>us_sockets := set_entry (us_next ?us) ?m ?t', us_next := us_next ?us + 1,
             us_open := us_open ?us @ [us_next ?us]\<rparr>, ap_redirector := fw\<rparr>"
      using new by (simp add: handleInterceptedPacket_def Let_def putIfAbsent_def fw_def)
    moreover have "dstPort \<notin> set (map fst ?t)" using new(1) by (simp add: map_of_eq_None_iff)
    moreover have "us_next ?us \<notin> set (handles ?t)" using assms(1) by (auto simp: app_inv_def)
    ultimately show ?thesis
      using assms fw set_entry_maps [of ?m "us_next ?us" ?t'] set_entry_ips [of ?m ?t' "us_next ?us"]
      by (fastforce simp: app_inv_def)
  qed
qed

text \<open>Which packets are taken, and what is done with them.\<close>

definition taken :: "string \<Rightarrow> bytes \<Rightarrow> nat \<Rightarrow> bool" where
  "taken gw packet len \<longleftrightarrow>
     28 \<le> len \<and> drop_bit 4 (packet ! 0) AND 0x0F = 4 \<and> packet ! 9 = 17 \<and>
     (let dstIp = dotted (unat (packet ! 16)) (unat (packet ! 17)) (unat (packet ! 18)) (unat (packet ! 19)) in
      gw = [] \<or> dstIp = gw \<or> dstIp = dotted 255 255 255 255) \<and>
     unat (packet ! 0 AND 0x0F) * 4 + 8 < len"

lemma ihl_le: "unat (x AND 0x0F :: u8) * 4 \<le> 60"
proof -
  have "unat (x AND 0x0F) \<le> unat (0x0F :: u8)" by (rule word_le_nat_alt [THEN iffD1, OF word_and_le1])
  then show ?thesis by simp
qed

lemma processFromTun_eq:
  assumes "length packet = TUN_BUFFER" and "len \<le> TUN_BUFFER"
  defines "i \<equiv> unat (packet ! 0 AND 0x0F) * 4"
  shows "processFromTun A packet len ap =
    Inr (if taken (us_gatewayIp (ap_relay ap)) packet len then
           (True, handleInterceptedPacket A (take 4 (drop 12 packet)) (256 * unat (packet ! i) + unat (packet ! (i + 1)))
              (256 * unat (packet ! (i + 2)) + unat (packet ! (i + 3))) (take (len - (i + 8)) (drop (i + 8) packet)) ap)
         else (False, ap))"
proof -
  have i: "i \<le> 60" using ihl_le by (simp add: i_def)
  have p: "rd packet k = Inr (packet ! k)" if "k < 200" for k using assms(1) that by (simp add: rd_ok TUN_BUFFER_def)
  have ports: "getPort packet i = Inr (256 * unat (packet ! i) + unat (packet ! (i + 1)))"
    "getPort packet (i + 2) = Inr (256 * unat (packet ! (i + 2)) + unat (packet ! (i + 3)))"
    using i p by (simp_all add: getPort_def numeral_3_eq_3)
  have four: "rdn packet 12 4 = Inr (take 4 (drop 12 packet))"
    "getIpString packet 16 = Inr (dotted (unat (packet ! 16)) (unat (packet ! 17)) (unat (packet ! 18)) (unat (packet ! 19)))"
    using assms(1) by (simp_all add: rdn_ok TUN_BUFFER_def getIpString_def)
  have load: "rdn packet (i + 8) (len - (i + 8)) = Inr (take (len - (i + 8)) (drop (i + 8) packet))" if "\<not> len \<le> i + 8"
    using that assms(1,2) by (simp add: rdn_ok)
  have r: "rd packet 0 = Inr (packet ! 0)" "rd packet 9 = Inr (packet ! 9)" using p by simp_all
  have t: "taken gw packet len \<longleftrightarrow> 28 \<le> len \<and> drop_bit 4 (packet ! 0) AND 0x0F = 4 \<and> packet ! 9 = 17 \<and>
      (gw = [] \<or> dotted (unat (packet ! 16)) (unat (packet ! 17)) (unat (packet ! 18)) (unat (packet ! 19)) = gw \<or>
       dotted (unat (packet ! 16)) (unat (packet ! 17)) (unat (packet ! 18)) (unat (packet ! 19)) = dotted 255 255 255 255) \<and>
      i + 8 < len" for gw
    by (simp only: taken_def Let_def i_def)
  show ?thesis
  proof (cases "len \<le> i + 8")
    case True
    then show ?thesis
      unfolding processFromTun_def r four rbind_Inr Let_def i_def [symmetric] ports t by simp
  next
    case False
    show ?thesis
      unfolding processFromTun_def r four rbind_Inr Let_def i_def [symmetric] ports t load [OF False]
      using False by (simp only: not_le if_False if_True not_less) auto
  qed
qed

lemma from_tun_returns:
  assumes "app_inv ap" and "length packet = TUN_BUFFER" and "len \<le> TUN_BUFFER"
  shows "\<exists>r. processFromTun A packet len ap = Inr r \<and> app_inv (snd r)"
proof -
  have "length (take 4 (drop 12 packet)) = 4" using assms(2) by (simp add: TUN_BUFFER_def)
  from intercepted_inv [OF assms(1) this] show ?thesis
    using assms(1) by (simp add: processFromTun_eq [OF assms(2,3)])
qed

text \<open>The entry that a payload of the server goes to, and the packet that is written.\<close>

definition reply_entry :: "android \<Rightarrow> nat \<Rightarrow> relay_server \<Rightarrow> managed_socket option" where
  "reply_entry A port us =
     (if port \<noteq> 0 then map_of (us_sockets us) port else maxByOrNull ms_lastActivity (table_values A (us_sockets us)))"

definition reply_packet :: "android \<Rightarrow> nat \<Rightarrow> relay_server \<Rightarrow> bytes \<Rightarrow> bytes option" where
  "reply_packet A port us payload =
     (case reply_entry A port us of
        None \<Rightarrow> None
      | Some m \<Rightarrow>
          (case nt_getByName (an_net A) (if us_gatewayIp us \<noteq> [] then us_gatewayIp us else dotted 192 168 43 1) of
             None \<Rightarrow> None
           | Some srcIp \<Rightarrow>
               (case buildRawUdpPacket srcIp (if port \<noteq> 0 then port else ms_localPort m) (ms_lastSourceIp m)
                       (ms_lastSourcePort m) payload of
                  Inl _ \<Rightarrow> None
                | Inr raw \<Rightarrow> Some raw)))"

lemma processFromServer_reply:
  "processFromServer A payload port ap =
     (case reply_packet A port (ap_relay ap) payload of
        None \<Rightarrow> ap
      | Some raw \<Rightarrow> ap\<lparr>ap_relay := (ap_relay ap)\<lparr>us_tun := us_tun (ap_relay ap) @ [raw]\<rparr>\<rparr>)"
proof (cases "reply_entry A port (ap_relay ap)")
  case None
  then show ?thesis by (simp only: processFromServer_def reply_packet_def Let_def reply_entry_def [symmetric] option.case)
next
  case (Some m)
  let ?src = "nt_getByName (an_net A) (if us_gatewayIp (ap_relay ap) \<noteq> [] then us_gatewayIp (ap_relay ap) else dotted 192 168 43 1)"
  show ?thesis
    unfolding processFromServer_def reply_packet_def Let_def reply_entry_def [symmetric] Some option.case
    by (cases ?src) (simp_all only: option.case sum.case_distrib [of "\<lambda>x. case x of None \<Rightarrow> ap | Some r \<Rightarrow> _ r"]
        option.case cong: sum.case_cong)
qed

lemma server_datagram_inv:
  assumes "app_inv ap" and "length buffer = RECEIVE_BUFFER"
  shows "\<exists>ap'. server_datagram A buffer dgram ap = Inr ap' \<and> app_inv ap'"
proof -
  obtain data len where r: "receive_into buffer dgram = (data, len)" by fastforce
  obtain p where p: "handleServerPacket data len = Inr p"
    using handle_server_datagram [OF _ r] assms(2) by (auto simp: RECEIVE_BUFFER_def)
  have "app_inv (processFromServer A payload 0 ap)" for payload
    using assms(1) by (simp add: processFromServer_reply app_inv_def split: option.split)
  with assms(1) show ?thesis by (simp add: server_datagram_def r p split: option.split)
qed

lemma handles_filter: "handles (filter P t) = map (\<lambda>(k, m). ms_handle m) (filter P t)"
  by (simp add: handles_def)

lemma set_handles: "set (handles t) = ms_handle ` snd ` set t"
  by (simp add: handles_def image_image case_prod_unfold)

lemma distinct_handles:
  assumes "distinct (handles t)" and "x \<in> set t" and "y \<in> set t" and "ms_handle (snd x) = ms_handle (snd y)"
  shows "x = y"
  using assms unfolding handles_def distinct_map inj_on_def by (auto simp: case_prod_unfold)

lemma handles_live:
  assumes "distinct (handles t)"
  shows "{h \<in> set (handles t). h \<notin> ms_handle ` snd ` set (filter (\<lambda>(k, m). idle now m) t)} =
    set (handles (filter (\<lambda>(k, m). \<not> idle now m) t))" (is "?l = ?r")
proof
  show "?l \<subseteq> ?r" by (force simp: set_handles)
  show "?r \<subseteq> ?l"
  proof
    fix h assume "h \<in> ?r"
    then obtain x where x: "x \<in> set t" "\<not> idle now (snd x)" "h = ms_handle (snd x)" by (auto simp: set_handles)
    have "y = x" if "y \<in> set t" "ms_handle (snd y) = h" for y using distinct_handles [OF assms] x that by metis
    with x show "h \<in> ?l" by (force simp: set_handles)
  qed
qed

lemma cleanup_inv:
  assumes "app_inv ap"
  shows "app_inv (ap\<lparr>ap_relay := cleanupIdleSockets now (ap_relay ap)\<rparr>)"
proof -
  define t where "t = us_sockets (ap_relay ap)"
  define live where "live = filter (\<lambda>(k, m). \<not> idle now m) t"
  define us where "us = cleanupIdleSockets now (ap_relay ap)"
  have i: "distinct (map fst t)" "distinct (handles t)" "set (us_open (ap_relay ap)) = set (handles t)"
    "\<forall>h \<in> set (handles t). h < us_next (ap_relay ap)" "\<forall>(k, m) \<in> set t. length (ms_lastSourceIp m) = 4"
    "length (bb_array (rd_sendBuffer (ap_redirector ap))) = 2058"
    using assms by (simp_all add: app_inv_def t_def)
  have us: "us_sockets us = live" "us_next us = us_next (ap_relay ap)"
    by (simp_all add: us_def cleanupIdleSockets_def live_def t_def)
  have "set (us_open us) = set (handles live)"
    using handles_live [OF i(2), of now] i(3) by (simp add: us_def cleanupIdleSockets_def live_def t_def)
  moreover have sub: "set live \<subseteq> set t" by (auto simp: live_def)
  then have "\<forall>h \<in> set (handles live). h < us_next us" using i(4) by (auto simp: set_handles us(2))
  moreover have "\<forall>(k, m) \<in> set live. length (ms_lastSourceIp m) = 4" using sub i(5) by blast
  moreover have "distinct (map fst live)" "distinct (handles live)"
    unfolding live_def handles_def using i(1,2) by (simp_all add: handles_def distinct_map_filter)
  ultimately show ?thesis using i(6) us unfolding app_inv_def us_def [symmetric] by simp
qed

lemma connect_buffer: "rd_sendBuffer (redirector_connect N r) = rd_sendBuffer r" "rd_sendBuffer (redirector_stop r) = rd_sendBuffer r"
  by (simp_all add: redirector_connect_def redirector_stop_def Let_def split: option.split)

lemma app_handle_inv:
  assumes "app_inv ap" and "app_event_ok e"
  shows "\<exists>ap'. app_handle A e ap = Inr ap' \<and> app_inv ap'"
proof (cases e)
  case (From_tun packet len)
  then show ?thesis using from_tun_returns [OF assms(1), of packet len A] assms(2) by (auto simp: case_prod_unfold)
next
  case (From_server buffer dgram)
  then show ?thesis using server_datagram_inv [OF assms(1), of buffer A dgram] assms(2) by simp
next
  case Watchdog
  then show ?thesis using cleanup_inv [OF assms(1)] by simp
qed

lemma reached_app_inv: "app_reached ap \<Longrightarrow> app_inv ap"
proof (induction rule: app_reached.induct)
  case (created nics addr)
  then show ?case
    by (simp add: app_inv_def new_app_def new_relay_def handles_def redirector_start_def setRelay_def new_redirector_def
        bb_allocate_def HEADER_SIZE_def)
next
  case (handled ap e A ap')
  then show ?case using app_handle_inv [OF handled.IH handled.hyps(2), of A] by simp
qed (simp_all add: app_inv_def connect_buffer)

text \<open>C8: Nothing that comes in stops the Android client. In every state that packets of the virtual interface of any content,
  datagrams of the server, the watchdog and the start and stop of the connection lead to, the handler of the next packet,
  datagram or watchdog run returns without an exception, which would end the thread it runs on; there is one socket per port, and
  the sockets that are open are exactly those of the table. After a run of the watchdog the table has just those
  entries that were used in the last 60 seconds.\<close>

theorem app_never_stops:
  assumes "app_reached ap" and "app_event_ok e"
  shows "(\<exists>ap'. app_handle A e ap = Inr ap' \<and> app_reached ap') \<and>
    distinct (map fst (us_sockets (ap_relay ap))) \<and> set (us_open (ap_relay ap)) = set (handles (us_sockets (ap_relay ap))) \<and>
    (\<exists>ap'. app_handle A Watchdog ap = Inr ap' \<and> set (us_sockets (ap_relay ap')) =
       {(k, m) \<in> set (us_sockets (ap_relay ap)). an_now A - ms_lastActivity m \<le> 60000})"
proof -
  note inv = reached_app_inv [OF assms(1)]
  obtain ap' where ap': "app_handle A e ap = Inr ap'" using app_handle_inv [OF inv assms(2)] by blast
  have "\<exists>ap'. app_handle A e ap = Inr ap' \<and> app_reached ap'"
    using ap' app_reached.handled [OF assms ap'] by blast
  moreover have "\<exists>ap'. app_handle A Watchdog ap = Inr ap' \<and> set (us_sockets (ap_relay ap')) =
       {(k, m) \<in> set (us_sockets (ap_relay ap)). an_now A - ms_lastActivity m \<le> 60000}"
    by (auto simp: cleanupIdleSockets_def idle_def IDLE_TIMEOUT_MS_def not_less)
  ultimately show ?thesis using inv by (simp add: app_inv_def)
qed

section \<open>Answers\<close>

lemma max_foldl:
  fixes f :: "'a \<Rightarrow> int"
  defines "g \<equiv> \<lambda>m y. if f m < f y then y else m"
  shows "foldl g x xs \<in> insert x (set xs) \<and> (\<forall>y \<in> insert x (set xs). f y \<le> f (foldl g x xs))"
proof (induction xs arbitrary: x)
  case (Cons z zs)
  have "g x z \<in> {x, z} \<and> f x \<le> f (g x z) \<and> f z \<le> f (g x z)" by (simp add: g_def)
  with Cons [of "g x z"] show ?case by (auto intro: order_trans)
qed simp

lemma maxBy_some:
  assumes "xs \<noteq> []"
  shows "\<exists>m \<in> set xs. maxByOrNull f xs = Some m \<and> (\<forall>y \<in> set xs. f y \<le> f m)"
proof -
  obtain x ys where "xs = x # ys" using assms by (cases xs) auto
  with max_foldl [where f = f and x = x and xs = ys] show ?thesis by auto
qed

definition fair :: "android \<Rightarrow> bool" where
  "fair A \<longleftrightarrow> (\<forall>ks. set (an_order A ks) = set ks)"

lemma set_map_filter: "set (List.map_filter f xs) = {y. \<exists>x \<in> set xs. f x = Some y}"
  by (force simp: List.map_filter_def)

lemma table_values_set:
  assumes "fair A" and "distinct (map fst t)"
  shows "set (table_values A t) = snd ` set t"
proof -
  have "set (table_values A t) = {m. \<exists>k \<in> fst ` set t. map_of t k = Some m}"
    using assms(1) by (auto simp: table_values_def fair_def set_map_filter image_iff)
  also have "\<dots> = snd ` set t"
    using assms(2) by (force simp: map_of_eq_Some_iff image_iff dest: map_of_SomeD)
  finally show ?thesis .
qed

lemma reply_entry_latest:
  assumes "fair A" and "distinct (map fst (us_sockets us))" and "us_sockets us \<noteq> []"
  shows "\<exists>k m. (k, m) \<in> set (us_sockets us) \<and> reply_entry A 0 us = Some m \<and>
    (\<forall>(k', m') \<in> set (us_sockets us). ms_lastActivity m' \<le> ms_lastActivity m)"
proof -
  note v = table_values_set [OF assms(1,2)]
  have "table_values A (us_sockets us) \<noteq> []" using v assms(3) by (metis image_is_empty set_empty)
  from maxBy_some [OF this, of ms_lastActivity] obtain k m where
    m: "(k, m) \<in> set (us_sockets us)" "maxByOrNull ms_lastActivity (table_values A (us_sockets us)) = Some m"
      "\<forall>y \<in> snd ` set (us_sockets us). ms_lastActivity y \<le> ms_lastActivity m"
    unfolding v by auto
  then have "\<forall>(k', m') \<in> set (us_sockets us). ms_lastActivity m' \<le> ms_lastActivity m" by force
  with m(1,2) show ?thesis by (auto simp: reply_entry_def)
qed

definition gateway_name :: "relay_server \<Rightarrow> string" where
  "gateway_name us = (if us_gatewayIp us \<noteq> [] then us_gatewayIp us else dotted 192 168 43 1)"

lemma server_payload_written:
  assumes "reply_entry A 0 (ap_relay ap) = Some m" and "nt_getByName (an_net A) (gateway_name (ap_relay ap)) = Some src"
    and "length src = 4" and "length (ms_lastSourceIp m) = 4" and "length buffer = RECEIVE_BUFFER" and "length payload \<le> 4086"
  shows "server_datagram A buffer (server_header n @ payload) ap =
    Inr (ap\<lparr>ap_relay := (ap_relay ap)\<lparr>us_tun := us_tun (ap_relay ap) @
      [udp_frame src (ms_localPort m) (ms_lastSourceIp m) (ms_lastSourcePort m) payload]\<rparr>\<rparr>)"
proof -
  obtain data len where r: "receive_into buffer (server_header n @ payload) = (data, len)" by fastforce
  have h: "handleServerPacket data len = Inr (Some payload)"
    using handle_server_payload [OF _ assms(6) r] assms(5) by (simp add: RECEIVE_BUFFER_def)
  have "buildRawUdpPacket src (ms_localPort m) (ms_lastSourceIp m) (ms_lastSourcePort m) payload =
      Inr (udp_frame src (ms_localPort m) (ms_lastSourceIp m) (ms_lastSourcePort m) payload)"
    using assms(6) by (intro build_packet assms(3,4)) simp
  then have "reply_packet A 0 (ap_relay ap) payload =
      Some (udp_frame src (ms_localPort m) (ms_lastSourceIp m) (ms_lastSourcePort m) payload)"
    using assms(1,2) by (simp add: reply_packet_def gateway_name_def)
  then show ?thesis by (simp add: server_datagram_def r h processFromServer_reply)
qed

text \<open>C37: An answer of the server goes to whoever sent last. In every state with an entry in the table, a datagram of the server is
  written to the interface for the entry with the latest activity, from the port of its socket to the address and port
  it last heard from; no part of the datagram has a say in it.\<close>

theorem reply_goes_to_latest:
  assumes "app_reached ap" and "fair A" and "us_sockets (ap_relay ap) \<noteq> []"
    and "nt_getByName (an_net A) (gateway_name (ap_relay ap)) = Some src" and "length src = 4"
    and "length buffer = RECEIVE_BUFFER" and "length payload \<le> 4086"
  shows "\<exists>k m ap'. (k, m) \<in> set (us_sockets (ap_relay ap)) \<and>
    (\<forall>(k', m') \<in> set (us_sockets (ap_relay ap)). ms_lastActivity m' \<le> ms_lastActivity m) \<and>
    app_handle A (From_server buffer (server_header n @ payload)) ap = Inr ap' \<and>
    us_tun (ap_relay ap') = us_tun (ap_relay ap) @ [udp_frame src (ms_localPort m) (ms_lastSourceIp m) (ms_lastSourcePort m) payload]"
proof -
  note inv = reached_app_inv [OF assms(1), unfolded app_inv_def]
  obtain k m where m: "(k, m) \<in> set (us_sockets (ap_relay ap))" "reply_entry A 0 (ap_relay ap) = Some m"
    "\<forall>(k', m') \<in> set (us_sockets (ap_relay ap)). ms_lastActivity m' \<le> ms_lastActivity m"
    using reply_entry_latest [OF assms(2) _ assms(3)] inv by blast
  have "length (ms_lastSourceIp m) = 4" using inv m(1) by blast
  from server_payload_written [OF m(2) assms(4,5) this assms(6,7)] m(1,3) show ?thesis by fastforce
qed

lemma intercepted_entry:
  assumes "app_inv ap"
    and "case map_of (us_sockets (ap_relay ap)) dstPort of Some m \<Rightarrow> ms_localPort m = dstPort | None \<Rightarrow> an_bind A dstPort = Some dstPort"
  shows "\<exists>us m. handleInterceptedPacket A srcIp srcPort dstPort payload ap =
      ap\<lparr>ap_relay := us, ap_redirector := forwardToServer (an_net A) payload (length payload) (ap_redirector ap)\<rparr> \<and>
    us_gatewayIp us = us_gatewayIp (ap_relay ap) \<and> us_tun us = us_tun (ap_relay ap) \<and> (dstPort, m) \<in> set (us_sockets us) \<and>
    ms_localPort m = dstPort \<and> ms_lastSourceIp m = srcIp \<and> ms_lastSourcePort m = srcPort \<and> ms_lastActivity m = an_now A \<and>
    (\<forall>(k, e) \<in> set (us_sockets us). e = m \<or> (k, e) \<in> set (us_sockets (ap_relay ap)))"
proof (cases "map_of (us_sockets (ap_relay ap)) dstPort")
  case (Some e)
  let ?t = "us_sockets (ap_relay ap)"
  let ?m = "e\<lparr>ms_lastSourceIp := srcIp, ms_lastSourcePort := srcPort, ms_lastActivity := an_now A\<rparr>"
  have "(dstPort, e) \<in> set ?t" using map_of_SomeD [OF Some] .
  then have "(dstPort, ?m) \<in> set (set_entry (ms_handle e) ?m ?t)" by (force simp: set_entry_def)
  moreover have "\<forall>(k, x) \<in> set (set_entry (ms_handle e) ?m ?t). x = ?m \<or> (k, x) \<in> set ?t"
    by (auto simp: set_entry_def split: if_splits)
  ultimately show ?thesis using Some assms(2)
    by (intro exI [of _ "(ap_relay ap)\<lparr>us_sockets := set_entry (ms_handle e) ?m ?t\<rparr>"] exI [of _ ?m])
      (simp add: handleInterceptedPacket_def Let_def)
next
  case None
  let ?us = "ap_relay ap"
  let ?t = "us_sockets ?us"
  let ?m = "\<lparr>ms_handle = us_next ?us, ms_localPort = dstPort, ms_lastSourceIp = srcIp, ms_lastSourcePort = srcPort,
    ms_lastActivity = an_now A\<rparr>"
  let ?t' = "set_entry (us_next ?us) ?m (?t @ [(dstPort, ?m)])"
  have "(dstPort, ?m) \<in> set ?t'" by (force simp: set_entry_def)
  moreover have "\<forall>(k, x) \<in> set ?t'. x = ?m \<or> (k, x) \<in> set ?t"
    by (auto simp: set_entry_def split: if_splits)
  ultimately show ?thesis using None assms(2)
    by (intro exI [of _ "?us\<lparr>us_sockets := ?t', us_next := us_next ?us + 1, us_open := us_open ?us @ [us_next ?us]\<rparr>"] exI [of _ ?m])
      (simp add: handleInterceptedPacket_def Let_def putIfAbsent_def)
qed

text \<open>A UDP packet of a console in the buffer of the reader: an IP header without options, the UDP header and the data.\<close>

definition console_packet :: "bytes \<Rightarrow> nat \<Rightarrow> bytes \<Rightarrow> bytes \<Rightarrow> nat \<Rightarrow> nat \<Rightarrow> bytes \<Rightarrow> bool" where
  "console_packet packet len src dst sp dp payload \<longleftrightarrow>
     length packet = TUN_BUFFER \<and> length src = 4 \<and> length dst = 4 \<and> sp < 65536 \<and> dp < 65536 \<and>
     (\<exists>h u. length h = 20 \<and> h ! 0 = 0x45 \<and> h ! 9 = 17 \<and> take 4 (drop 12 h) = src \<and> take 4 (drop 16 h) = dst \<and>
        take len packet = h @ udp_head sp dp (8 + length payload) u @ payload \<and> len = 28 + length payload)"

lemma console_packet_taken:
  assumes "console_packet packet len src dst sp dp payload" and "payload \<noteq> []"
    and "gw = dotted (unat (dst ! 0)) (unat (dst ! 1)) (unat (dst ! 2)) (unat (dst ! 3))" and "us_gatewayIp (ap_relay ap) = gw"
  shows "processFromTun A packet len ap = Inr (True, handleInterceptedPacket A src sp dp payload ap)"
proof -
  from assms(1) obtain h u where h: "length h = 20" "h ! 0 = 0x45" "h ! 9 = 17" "take 4 (drop 12 h) = src" "take 4 (drop 16 h) = dst"
    "take len packet = h @ udp_head sp dp (8 + length payload) u @ payload" "len = 28 + length payload"
    and p: "length packet = TUN_BUFFER" "sp < 65536" "dp < 65536" by (auto simp: console_packet_def)
  have "length (take len packet) = len" using h by (simp add: udp_head_def)
  then have len: "len \<le> TUN_BUFFER" using p(1) by simp
  have packet: "packet = h @ udp_head sp dp (8 + length payload) u @ payload @ drop len packet"
    using append_take_drop_id [of len packet] h(6) by simp
  have at: "packet ! k = h ! k" if "k < 20" for k using that h(1) by (subst packet) (simp add: nth_append)
  have src: "take 4 (drop 12 packet) = src" using h(1,4) by (subst packet) simp
  have "h ! 16 = dst ! 0" "h ! 17 = dst ! 1" "h ! 18 = dst ! 2" "h ! 19 = dst ! 3"
    using h(1) unfolding h(5) [symmetric] by simp_all
  then have gw: "dotted (unat (packet ! 16)) (unat (packet ! 17)) (unat (packet ! 18)) (unat (packet ! 19)) = gw"
    using assms(3) at by simp
  have ihl: "unat (packet ! 0 AND 0x0F) * 4 = 20" using at [of 0] h(2) by simp
  have udp: "packet ! 20 = hi sp" "packet ! 21 = lo sp" "packet ! 22 = hi dp" "packet ! 23 = lo dp"
    by (subst packet, simp add: nth_append h(1) udp_head_def)+
  have load: "take (len - (20 + 8)) (drop (20 + 8) packet) = payload"
    using h(1,7) by (subst packet) (simp add: udp_head_def)
  have "taken (us_gatewayIp (ap_relay ap)) packet len"
    using at [of 0] at [of 9] h(2,3,7) gw assms(2,4) ihl by (simp add: taken_def Let_def)
  then show ?thesis
    using processFromTun_eq [OF p(1) len, of A ap] ihl src load hi_lo_value [OF p(2)] hi_lo_value [OF p(3)]
    by (simp add: udp)
qed


section \<open>An example\<close>

definition example_android :: android where
  "example_android = \<lparr>an_bind = Some, an_now = 1000, an_order = rev,
     an_net = \<lparr>nt_getByName = (\<lambda>h. if h = ''lan-play.com'' then Some [10, 0, 0, 9] else if h = dotted 192 168 43 1 then Some [192, 168, 43, 1] else None),
               nt_socket = True, nt_send = True\<rparr>\<rparr>"

definition example_app :: app where
  "example_app =
     (let ap = new_app [(''wlan0'', [Inet4 192 168 43 1])] ''lan-play.com:80'' in
      ap\<lparr>ap_redirector := redirector_connect (an_net example_android) (ap_redirector ap)\<rparr>)"

definition example_packet :: bytes where
  "example_packet = (ip_head 30 0 [192, 168, 43, 7] [192, 168, 43, 1] @ udp_head 4000 9000 10 0 @ [104, 105]) @ replicate 32737 0"

lemma example_app_reached: "app_reached example_app"
  unfolding example_app_def Let_def by (intro app_reached.connected app_reached.created)

lemma example_redirector: "rd_serverIp (ap_redirector example_app) = Some [10, 0, 0, 9] \<and> rd_socket (ap_redirector example_app) \<and>
    rd_serverPort (ap_redirector example_app) = 80 \<and> rd_sent (ap_redirector example_app) = []"
  by code_simp

lemma example_relay: "us_gatewayIp (ap_relay example_app) = dotted 192 168 43 1 \<and> us_sockets (ap_relay example_app) = [] \<and>
    us_tun (ap_relay example_app) = []"
  by code_simp

lemma example_console: "console_packet example_packet 30 [192, 168, 43, 7] [192, 168, 43, 1] 4000 9000 [104, 105]"
  unfolding console_packet_def example_packet_def
  by (auto simp: TUN_BUFFER_def ip_head_def udp_head_def
      intro!: exI [of _ "ip_head 30 0 [192, 168, 43, 7] [192, 168, 43, 1]"] exI [of _ 0])

lemma dotted_not_empty: "dotted a b c d \<noteq> []"
  by (simp add: dotted_def)


theorem app_never_stops_witness:
  "(\<exists>ap'. app_handle example_android (From_tun example_packet 30) example_app = Inr ap' \<and> app_reached ap') \<and>
   set (us_open (ap_relay example_app)) = set (handles (us_sockets (ap_relay example_app)))"
  using app_never_stops [OF example_app_reached, of "From_tun example_packet 30" example_android] example_console
  by (simp add: console_packet_def TUN_BUFFER_def)

text \<open>A second console calls another port a second later; the next answer is for it, whichever console it answers.\<close>

definition example_packet2 :: bytes where
  "example_packet2 = (ip_head 29 0 [192, 168, 43, 8] [192, 168, 43, 1] @ udp_head 4001 9001 9 0 @ [7]) @ replicate 32738 0"

definition example_app1 :: app where
  "example_app1 = handleInterceptedPacket example_android [192, 168, 43, 7] 4000 9000 [104, 105] example_app"

definition example_app2 :: app where
  "example_app2 = handleInterceptedPacket (example_android\<lparr>an_now := 2000\<rparr>) [192, 168, 43, 8] 4001 9001 [7] example_app1"

lemma example_console2: "console_packet example_packet2 29 [192, 168, 43, 8] [192, 168, 43, 1] 4001 9001 [7]"
  unfolding console_packet_def example_packet2_def
  by (auto simp: TUN_BUFFER_def ip_head_def udp_head_def
      intro!: exI [of _ "ip_head 29 0 [192, 168, 43, 8] [192, 168, 43, 1]"] exI [of _ 0])

lemma example_app2_state:
  "us_gatewayIp (ap_relay example_app1) = dotted 192 168 43 1" "us_gatewayIp (ap_relay example_app2) = dotted 192 168 43 1"
  "us_sockets (ap_relay example_app2) =
     [(9000, \<lparr>ms_handle = 0, ms_localPort = 9000, ms_lastSourceIp = [192, 168, 43, 7], ms_lastSourcePort = 4000, ms_lastActivity = 1000\<rparr>),
      (9001, \<lparr>ms_handle = 1, ms_localPort = 9001, ms_lastSourceIp = [192, 168, 43, 8], ms_lastSourcePort = 4001, ms_lastActivity = 2000\<rparr>)]"
proof -
  have r: "us_sockets (ap_relay example_app) = []" "us_next (ap_relay example_app) = 0" "us_gatewayIp (ap_relay example_app) = dotted 192 168 43 1"
    using example_relay by (simp_all add: example_app_def Let_def new_app_def new_relay_def)
  show "us_gatewayIp (ap_relay example_app1) = dotted 192 168 43 1"
    by (simp add: example_app1_def handleInterceptedPacket_def Let_def putIfAbsent_def example_android_def r)
  show "us_gatewayIp (ap_relay example_app2) = dotted 192 168 43 1"
    by (simp add: example_app2_def example_app1_def handleInterceptedPacket_def Let_def putIfAbsent_def example_android_def r set_entry_def)
  show "us_sockets (ap_relay example_app2) =
     [(9000, \<lparr>ms_handle = 0, ms_localPort = 9000, ms_lastSourceIp = [192, 168, 43, 7], ms_lastSourcePort = 4000, ms_lastActivity = 1000\<rparr>),
      (9001, \<lparr>ms_handle = 1, ms_localPort = 9001, ms_lastSourceIp = [192, 168, 43, 8], ms_lastSourcePort = 4001, ms_lastActivity = 2000\<rparr>)]"
    by (simp add: example_app2_def example_app1_def handleInterceptedPacket_def Let_def putIfAbsent_def example_android_def r set_entry_def)
qed

lemma example_app2_reached: "app_reached example_app2"
proof -
  have gw: "dotted 192 168 43 1 = dotted (unat ([192, 168, 43, 1 :: u8] ! 0)) (unat ([192, 168, 43, 1 :: u8] ! 1))
      (unat ([192, 168, 43, 1 :: u8] ! 2)) (unat ([192, 168, 43, 1 :: u8] ! 3))" by code_simp
  have ok: "app_event_ok (From_tun example_packet 30)" "app_event_ok (From_tun example_packet2 29)"
    using example_console example_console2 by (simp_all add: console_packet_def TUN_BUFFER_def)
  have one: "processFromTun example_android example_packet 30 example_app = Inr (True, example_app1)"
    unfolding example_app1_def by (rule console_packet_taken [OF example_console list.distinct(2) gw]) (use example_relay in blast)
  have two: "processFromTun (example_android\<lparr>an_now := 2000\<rparr>) example_packet2 29 example_app1 = Inr (True, example_app2)"
    unfolding example_app2_def by (rule console_packet_taken [OF example_console2 list.distinct(2) gw]) (rule example_app2_state(1))
  have "app_handle example_android (From_tun example_packet 30) example_app = Inr example_app1"
    unfolding app_handle.simps one rbind_Inr prod.case ..
  from app_reached.handled [OF example_app_reached ok(1) this] have r: "app_reached example_app1" .
  have "app_handle (example_android\<lparr>an_now := 2000\<rparr>) (From_tun example_packet2 29) example_app1 = Inr example_app2"
    unfolding app_handle.simps two rbind_Inr prod.case ..
  from app_reached.handled [OF r ok(2) this] show ?thesis .
qed

theorem reply_goes_to_latest_witness:
  "\<exists>ap'. app_handle example_android (From_server (replicate 4096 0) (server_header 1 @ [42])) example_app2 = Inr ap' \<and>
     us_tun (ap_relay ap') = us_tun (ap_relay example_app2) @ [udp_frame [192, 168, 43, 1] 9001 [192, 168, 43, 8] 4001 [42]]"
proof -
  have "nt_getByName (an_net example_android) (gateway_name (ap_relay example_app2)) = Some [192, 168, 43, 1]"
    unfolding gateway_name_def example_app2_state(2) by code_simp
  moreover have "fair example_android" by (simp add: fair_def example_android_def)
  ultimately show ?thesis
    using reply_goes_to_latest [OF example_app2_reached, of example_android "[192, 168, 43, 1]" "replicate 4096 0" "[42]" 1]
    by (auto simp: example_app2_state(3) RECEIVE_BUFFER_def simp del: app_handle.simps)
qed

end
