(* ===== verification/App_Vpn.thy ===== *)
theory App_Vpn
  imports App_Service
begin

text \<open>
  The rest of the Android client that computes: the service \<open>LanPlayVpnService.kt\<close>, which creates the relay and
  the redirector and ends them, the search for a console in the ARP table of \<open>NetworkScanner.kt\<close>, and the
  log of \<open>MainViewModel.kt\<close>. A value given to \<open>postValue\<close> becomes the value of the log when the main thread
  next dispatches.
\<close>

section \<open>The service\<close>

text \<open>\<open>establish\<close> gives an interface, no interface when the user has not agreed, or throws.\<close>

datatype establish = Established | Not_prepared | Refused

record vpn_service =
  vp_running :: bool
  vp_interface :: bool
  vp_app :: "app option"

definition new_vpn :: vpn_service where
  "new_vpn = \<lparr>vp_running = False, vp_interface = False, vp_app = None\<rparr>"

text \<open>The reader's thread opens its stream outside of the \<open>try\<close>: without an interface that exception is not caught.\<close>

definition startVpn :: "establish \<Rightarrow> (string \<times> inet_address list) list \<Rightarrow> string \<Rightarrow> vpn_service \<Rightarrow> vpn_service res" where
  "startVpn E nics serverAddr v =
     (if vp_running v then Inr v
      else
        let v1 = v\<lparr>vp_running := True\<rparr> in
        case E of
          Refused \<Rightarrow> Inr v1
        | Not_prepared \<Rightarrow> Inl Uncaught_exception
        | Established \<Rightarrow> Inr (v1\<lparr>vp_interface := True, vp_app := Some (new_app nics serverAddr)\<rparr>))"

definition onStartCommand :: "establish \<Rightarrow> (string \<times> inet_address list) list \<Rightarrow> string option \<Rightarrow> vpn_service \<Rightarrow> vpn_service res" where
  "onStartCommand E nics extra v =
     startVpn E nics (case extra of Some a \<Rightarrow> a | None \<Rightarrow> ''lan-play.com:11451'') v"

definition app_stop :: "app \<Rightarrow> app" where
  "app_stop ap = ap\<lparr>ap_relay := relay_stop (ap_relay ap), ap_redirector := redirector_stop (ap_redirector ap)\<rparr>"

definition onDestroy :: "vpn_service \<Rightarrow> vpn_service" where
  "onDestroy v = v\<lparr>vp_running := False, vp_app := map_option app_stop (vp_app v), vp_interface := False\<rparr>"

lemma relay_stop_closes: "app_inv ap \<Longrightarrow> us_open (relay_stop (ap_relay ap)) = []"
  by (auto simp: relay_stop_def app_inv_def set_handles filter_empty_conv)

text \<open>C35: Ending the service closes what it opened, but for one race. From every state of the running client, \<open>onDestroy\<close> closes the
  interface and every socket of the table, ends the watchdog and closes the socket to the server. But when the receiving
  thread is still looking up the name of the server at that moment, it opens its socket afterwards, and no later stop
  closes that socket: data can still be sent on it.\<close>

theorem destroy_closes:
  assumes "app_reached ap" and "rd_running (ap_redirector ap)"
  defines "v \<equiv> onDestroy \<lparr>vp_running = True, vp_interface = True, vp_app = Some ap\<rparr>"
  shows "\<not> vp_running v \<and> \<not> vp_interface v \<and>
    (\<exists>a. vp_app v = Some a \<and> us_open (ap_relay a) = [] \<and> us_sockets (ap_relay a) = [] \<and> \<not> us_watchdogRunning (ap_relay a) \<and>
       \<not> rd_running (ap_redirector a) \<and> \<not> rd_socket (ap_redirector a)) \<and>
    (\<forall>N ip port. nt_getByName N (split_char (CHR '':'') (rd_serverAddress (ap_redirector ap)) ! 0) = Some ip \<and> nt_socket N \<and>
       (if length (split_char (CHR '':'') (rd_serverAddress (ap_redirector ap))) > 1
        then toInt (split_char (CHR '':'') (rd_serverAddress (ap_redirector ap)) ! 1) else Some DEFAULT_PORT) = Some port \<longrightarrow>
       (let late = redirector_connect N (redirector_stop (ap_redirector ap)) in
        rd_socket late \<and> \<not> rd_running late \<and> redirector_stop late = late))"
  using assms(2) relay_stop_closes [OF reached_app_inv [OF assms(1)]]
  by (auto simp: v_def onDestroy_def app_stop_def relay_stop_def redirector_stop_def redirector_connect_def Let_def)

theorem destroy_closes_witness:
  "\<exists>a. vp_app (onDestroy \<lparr>vp_running = True, vp_interface = True, vp_app = Some example_app2\<rparr>) = Some a \<and>
     us_open (ap_relay a) = [] \<and> us_sockets (ap_relay a) = [] \<and> \<not> rd_socket (ap_redirector a)"
proof -
  have "rd_running (ap_redirector example_app)" by code_simp
  then have "rd_running (ap_redirector example_app2)"
    by (simp add: example_app2_def example_app1_def handleInterceptedPacket_def Let_def forward_keeps split: option.split prod.split)
  from destroy_closes [OF example_app2_reached this] show ?thesis by blast
qed

section \<open>Looking for a console\<close>

definition nintendoOuis :: "string list" where
  "nintendoOuis =
     [''00:1e:35'', ''00:22:d7'', ''00:23:cc'', ''2c:10:c1'', ''34:af:b3'', ''40:d2:8a'', ''58:2f:40'', ''60:6b:ff'',
      ''78:a2:a0'', ''7c:bb:8a'', ''98:b6:e9'', ''98:e8:fa'', ''a4:c0:e1'', ''b8:8a:ec'', ''cc:9e:00'', ''d8:6b:f7'',
      ''e0:0c:7f'', ''e0:f6:b5'', ''e8:4e:ce'']"

text \<open>\<open>split\<close> at runs of white space: a run at the start or at the end gives an empty part.\<close>

function split_ws :: "string \<Rightarrow> string list" where
  "split_ws s =
     (let w = takeWhile (\<lambda>c. \<not> is_space c) s; r = dropWhile (\<lambda>c. \<not> is_space c) s in
      if r = [] then [w] else w # split_ws (dropWhile is_space r))"
  by auto
termination
proof (relation "measure length", goal_cases)
  case (2 s w r)
  then obtain c cs where r: "r = c # cs" by (meson neq_Nil_conv)
  with 2 have "is_space c" by (metis dropWhile_eq_Cons_conv)
  then have "length (dropWhile is_space r) \<le> length cs" using r by (simp add: length_dropWhile_le)
  moreover have "length r \<le> length s" using 2 by (simp add: length_dropWhile_le)
  ultimately show ?case using r by simp
qed simp

declare split_ws.simps [simp del]

definition arp_console :: "string \<Rightarrow> (string \<times> string) option" where
  "arp_console line =
     (let parts = split_ws line in
      if length parts \<ge> 4 then
        let mac = lowercase (parts ! 3) in
        if list_ex (\<lambda>o'. take (length o') mac = o') nintendoOuis then Some (parts ! 0, mac) else None
      else None)"

record scanner =
  sc_detectedIp :: "string option"
  sc_found :: "(string \<times> string) list"

fun scan_lines :: "string list \<Rightarrow> scanner \<Rightarrow> scanner" where
  "scan_lines [] sc = sc"
| "scan_lines (line # rest) sc =
     (case arp_console line of
        None \<Rightarrow> scan_lines rest sc
      | Some (ip, mac) \<Rightarrow>
          if sc_detectedIp sc \<noteq> Some ip then sc\<lparr>sc_detectedIp := Some ip, sc_found := sc_found sc @ [(ip, mac)]\<rparr> else sc)"

text \<open>The table without its first line; nothing happens when it cannot be read.\<close>

definition scanArpTable :: "string list option \<Rightarrow> scanner \<Rightarrow> scanner" where
  "scanArpTable arp sc = (case arp of None \<Rightarrow> sc | Some ls \<Rightarrow> scan_lines (drop 1 ls) sc)"

lemma scan_lines_first:
  "scan_lines ls sc =
     (case List.map_filter arp_console ls of
        [] \<Rightarrow> sc
      | (ip, mac) # _ \<Rightarrow>
          if sc_detectedIp sc = Some ip then sc else sc\<lparr>sc_detectedIp := Some ip, sc_found := sc_found sc @ [(ip, mac)]\<rparr>)"
  by (induction ls) (auto simp: List.map_filter_simps split: option.splits)

text \<open>A scan that finds what the last one found reports nothing again.\<close>

lemma scan_again: "scanArpTable arp (scanArpTable arp sc) = scanArpTable arp sc"
  by (auto simp: scanArpTable_def scan_lines_first split: option.splits list.splits)

section \<open>The log\<close>

record view_model =
  vm_value :: string
  vm_posted :: "string option"

abbreviation (input) NL :: char where "NL \<equiv> CHR 0x0A"
abbreviation (input) RET :: char where "RET \<equiv> CHR 0x0D"

text \<open>\<open>lines()\<close> splits at a newline, a carriage return, or both together.\<close>

fun cons_line :: "char \<Rightarrow> string list \<Rightarrow> string list" where
  "cons_line c [] = [[c]]"
| "cons_line c (l # ls) = (c # l) # ls"

fun lines_of :: "string \<Rightarrow> string list" where
  "lines_of [] = [[]]"
| "lines_of [c] = (if c = NL \<or> c = RET then [[], []] else [[c]])"
| "lines_of (c # d # s) =
     (if c = RET \<and> d = NL then [] # lines_of s
      else if c = NL \<or> c = RET then [] # lines_of (d # s)
      else cons_line c (lines_of (d # s)))"

fun join_lines :: "string list \<Rightarrow> string" where
  "join_lines [] = []"
| "join_lines [l] = l"
| "join_lines (l # ls) = l @ NL # join_lines ls"

definition last_n :: "nat \<Rightarrow> 'a list \<Rightarrow> 'a list" where
  "last_n n xs = drop (length xs - n) xs"

definition log_entry :: "string \<Rightarrow> string \<Rightarrow> string" where
  "log_entry timestamp message = ''['' @ timestamp @ ''] '' @ message @ [NL]"

definition vm_log :: "string \<Rightarrow> string \<Rightarrow> view_model \<Rightarrow> view_model" where
  "vm_log timestamp message m =
     (let newLog = vm_value m @ log_entry timestamp message;
          ls = lines_of newLog in
      m\<lparr>vm_posted := Some (if length ls > 1000 then join_lines (last_n 1000 ls) else newLog)\<rparr>)"

definition vm_dispatch :: "view_model \<Rightarrow> view_model" where
  "vm_dispatch m = (case vm_posted m of None \<Rightarrow> m | Some s \<Rightarrow> m\<lparr>vm_value := s, vm_posted := None\<rparr>)"

definition new_model :: view_model where
  "new_model = \<lparr>vm_value = [], vm_posted = None\<rparr>"

fun vm_logs :: "(string \<times> string) list \<Rightarrow> view_model \<Rightarrow> view_model" where
  "vm_logs [] m = m"
| "vm_logs ((t, s) # es) m = vm_logs es (vm_dispatch (vm_log t s m))"

definition clean :: "string \<Rightarrow> bool" where
  "clean l \<longleftrightarrow> list_all (\<lambda>c. c \<noteq> NL \<and> c \<noteq> RET) l"

definition glue :: "string list \<Rightarrow> string list \<Rightarrow> string list" where
  "glue A B = butlast A @ (last A @ hd B) # tl B"

lemma cons_line_eq: "ls \<noteq> [] \<Longrightarrow> cons_line c ls = (c # hd ls) # tl ls"
  by (cases ls) simp_all

lemma lines_not_empty [simp]: "lines_of s \<noteq> []"
  by (induction s rule: lines_of.induct) (simp_all add: cons_line_eq)

lemma lines_clean: "l \<in> set (lines_of s) \<Longrightarrow> clean l"
proof (induction s arbitrary: l rule: lines_of.induct)
  case (3 c d s)
  have "hd (lines_of (d # s)) \<in> set (lines_of (d # s))" "set (tl (lines_of (d # s))) \<subseteq> set (lines_of (d # s))"
    using lines_not_empty by (auto intro: list.set_sel(2) [OF lines_not_empty])
  with 3 show ?case by (auto simp: clean_def cons_line_eq split: if_splits)
qed (auto simp: clean_def split: if_splits)

lemma lines_clean_append: "clean l \<Longrightarrow> lines_of (l @ NL # s) = l # lines_of s"
proof (induction l)
  case Nil
  then show ?case by (cases s) simp_all
next
  case (Cons c l)
  then have l: "lines_of (l @ NL # s) = l # lines_of s" "c \<noteq> NL" "c \<noteq> RET" by (simp_all add: clean_def)
  then show ?case by (cases "l @ NL # s") simp_all
qed

lemma lines_clean_one: "clean l \<Longrightarrow> lines_of l = [l]"
proof (induction l)
  case (Cons c l)
  then show ?case by (cases l) (simp_all add: clean_def)
qed simp

lemma lines_join: "ls \<noteq> [] \<Longrightarrow> \<forall>l \<in> set ls. clean l \<Longrightarrow> lines_of (join_lines ls) = ls"
  by (induction ls rule: join_lines.induct) (simp_all add: lines_clean_one lines_clean_append)

lemma lines_glue:
  assumes "b \<noteq> []" and "hd b \<noteq> NL"
  shows "lines_of (a @ b) = glue (lines_of a) (lines_of b)"
  using assms
proof (induction a rule: lines_of.induct)
  case 1
  then show ?case by (simp add: glue_def)
next
  case (2 c)
  then obtain d s where "b = d # s" "d \<noteq> NL" by (cases b) auto
  then show ?case by (simp add: glue_def cons_line_eq)
next
  case (3 c d s)
  have ne: "lines_of (d # s) \<noteq> []" "lines_of s \<noteq> []" by simp_all
  consider "c = RET \<and> d = NL" | "\<not> (c = RET \<and> d = NL)" "c = NL \<or> c = RET" | "c \<noteq> NL" "c \<noteq> RET" by blast
  then show ?case
  proof cases
    case 3
    obtain l ls where l: "lines_of (d # s) = l # ls" using ne(1) by (meson neq_Nil_conv)
    then show ?thesis using 3 "3.IH"(3) "3.prems" by (cases ls) (simp_all add: glue_def cons_line_eq)
  qed (use 3 ne in \<open>auto simp: glue_def\<close>)
qed

lemma last_n_append: "n \<le> length B \<Longrightarrow> last_n n (A @ B) = last_n n B"
  by (simp add: last_n_def)

lemma last_n_not_empty:
  assumes "0 < n" and "A \<noteq> []"
  shows "last_n n A \<noteq> []"
proof -
  have "0 < length A" using assms(2) by simp
  then have "length A - n < length A" using assms(1) by linarith
  then show ?thesis by (simp add: last_n_def)
qed

lemma last_n_last_n:
  assumes "0 < n" and "A \<noteq> []"
  shows "last_n n (glue (last_n n A) B) = last_n n (glue A B)"
proof -
  let ?A = "drop (length A - n) A"
  have ne: "?A \<noteq> []" by (rule last_n_not_empty [OF assms, unfolded last_n_def])
  have "A = take (length A - n) A @ ?A" by simp
  then have "glue A B = take (length A - n) A @ glue ?A B"
    unfolding glue_def using ne by (metis append_assoc butlast_append last_appendR)
  moreover have "n \<le> length (glue ?A B) \<or> length A \<le> n" using assms by (auto simp: glue_def)
  ultimately show ?thesis by (auto simp: last_n_def)
qed

lemma last_n_length: "length (last_n n xs) = min n (length xs)"
  by (simp add: last_n_def)

lemma entry_start: "log_entry t s \<noteq> []" "hd (log_entry t s) \<noteq> NL"
  by (simp_all add: log_entry_def)

lemma log_step:
  "lines_of (vm_value (vm_dispatch (vm_log t s m))) = last_n 1000 (lines_of (vm_value m @ log_entry t s))"
proof -
  let ?ls = "lines_of (vm_value m @ log_entry t s)"
  have "last_n 1000 ?ls \<noteq> []" by (rule last_n_not_empty) simp_all
  moreover have "\<forall>l \<in> set (last_n 1000 ?ls). clean l" using lines_clean by (auto simp: last_n_def dest: in_set_dropD)
  ultimately have "lines_of (join_lines (last_n 1000 ?ls)) = last_n 1000 ?ls" by (rule lines_join)
  then show ?thesis by (simp add: vm_log_def vm_dispatch_def Let_def last_n_def)
qed

lemma logs_value:
  "lines_of (vm_value m) = last_n 1000 (lines_of all) \<Longrightarrow>
     lines_of (vm_value (vm_logs es m)) = last_n 1000 (lines_of (all @ concat (map (\<lambda>(t, s). log_entry t s) es)))"
proof (induction es arbitrary: m all)
  case (Cons e es)
  obtain t s where e: "e = (t, s)" by fastforce
  have "lines_of (vm_value (vm_dispatch (vm_log t s m))) = last_n 1000 (glue (last_n 1000 (lines_of all)) (lines_of (log_entry t s)))"
    by (simp add: log_step lines_glue [OF entry_start] Cons.prems)
  also have "\<dots> = last_n 1000 (lines_of (all @ log_entry t s))"
    by (simp add: last_n_last_n lines_glue [OF entry_start])
  finally have "lines_of (vm_value (vm_dispatch (vm_log t s m))) = last_n 1000 (lines_of (all @ log_entry t s))" .
  from Cons.IH [OF this] show ?case by (simp add: e)
qed simp


text \<open>A message logged before the last one was dispatched replaces it.\<close>

lemma log_burst_lost: "vm_dispatch (vm_log t' s' (vm_log t s m)) = vm_dispatch (vm_log t' s' m)"
  by (simp add: vm_log_def vm_dispatch_def Let_def)

end
