(* ===== verification/Spec2Isabelle.thy ===== *)
theory Spec2Isabelle
  imports Rpc_Ws Tcp_Bridge App_Vpn
begin

text \<open>
  A verification of the Switch LAN play client. The program lets game consoles that look for each other on a local network play over
  the Internet. Two programs share the repository. The desktop client (\<open>client-switch-lan-play\<close>, \<open>uv_lwip\<close>, \<open>base\<close>) captures the
  Ethernet frames of a console, carries its IPv4 packets over UDP to a relay server, injects what the relay sends back, answers the
  console's ARP requests and pings, and is a gateway for the console's Internet traffic, of which UDP goes through a table of
  sockets and TCP through the stack lwIP. The Android client (\<open>app\<close>) takes UDP packets from a virtual interface and exchanges them
  with a server.

  \<^bold>\<open>Conventions.\<close> \<open>Prelude\<close> has the types of the machine integers, as words of their width, the faults and the sequencing \<open>rbind\<close> of
  code that may fault. A pointer is the list of the bytes from it to the end of its object, so an access behind the end is the fault
  \<open>Out_of_bounds\<close>; a failed assertion, a read of uninitialised memory, a signed overflow, a shift by too much, an uncaught exception and
  \<open>exit\<close> are faults too. State is passed explicitly: each operation returns the changed record of its structure or class. What the
  environment answers (the clock, libuv, libpcap, the resolver, lwIP, the file system, Android) is a record of answers that the
  operations take as a parameter, and what the program hands to it (frames, datagrams, texts, callbacks) is a log in the state.
  Event handlers run one at a time, as on the loop of libuv; a run of the program is any sequence of events, and the inductive
  predicates \<open>reached\<close>, \<open>tcp_reached\<close>, \<open>bridge_reached\<close>, \<open>fake_reached\<close> and \<open>app_reached\<close> say which states it comes to.

  \<^bold>\<open>The desktop client, from the network inwards.\<close>

  \<^item> \<open>Helper\<close>: the macros of \<open>helper.h\<close> and \<open>byteorder.h\<close>. \<open>Pcaploop\<close> and \<open>Pcap_Open\<close>: \<open>pcaploop.cpp\<close>, the table of devices, learning of
    the device of an address, sending, and the choice, opening and filter of the devices.
  \<^item> \<open>State\<close>: \<open>struct lan_play\<close> and what it holds, with the environment. \<open>Packet\<close>, \<open>Arp\<close>, \<open>Checksum\<close>, \<open>Ipv4\<close>: \<open>packet.c\<close>, \<open>arp.c\<close> and
    \<open>ipv4/*.c\<close>. Shown: the headers and checksums of what is sent are valid, a ping is answered, \<open>calc_checksum\<close> is the sum of RFC
    1071 on even lengths, and the ARP cache refines a finite map.
  \<^item> \<open>Lan_Client\<close>, \<open>Relay\<close>, \<open>Sha1\<close>: \<open>lan-client.c\<close> and \<open>sha1.c\<close>, the protocol with the relay. Shown: fragments in any order and with
    repetitions give the packet back once, the login answers the challenge, broadcasts are limited, and the incremental hash is the
    digest of FIPS 180-4.
  \<^item> \<open>Proxy\<close>, \<open>Socks5\<close>, \<open>Gateway\<close>: \<open>proxy_common.hpp\<close>, the UDP classes of \<open>proxy_direct.cpp\<close> and \<open>proxy_socks5.cpp\<close>, and \<open>gateway.cpp\<close>. The
    locale \<open>proxy_item\<close> is the contract of a session in the table; both classes interpret it. Shown: an inner endpoint keeps its
    socket while it is used, no two share one, the handshake of SOCKS5 is ready exactly when it was granted.
  \<^item> \<open>Uvl\<close>, \<open>Tcp_Bridge\<close>: the sockets of \<open>uv_lwip.c\<close>, the C++ classes of \<open>uv_lwip.hpp\<close>, the connections of \<open>gateway.cpp\<close> and the TCP classes
    of the proxies. Shown, for every order of events: a socket reports each write once and in order and keeps the streams, all
    writes are reported when the peer acknowledges, and a bridge passes the bytes of both directions on unchanged.
  \<^item> \<open>Process\<close>, \<open>Main_Loop\<close>: the dispatch of frames and the events of the loop. Shown: no event faults in any state the program reaches, and
    a frame goes from one console to another, through two clients and the relay.
  \<^item> \<open>Addr\<close>, \<open>Cli\<close>, \<open>Lifecycle\<close>: \<open>helper.c\<close>, \<open>main.c\<close> and \<open>lan-play.c\<close>, the start and the end of the program. Shown: which command lines are
    accepted with which options, which state \<open>main\<close> starts the loop in, that this state satisfies what \<open>Main_Loop\<close> needs, and which
    handles are left open at the end.
  \<^item> \<open>Read_Line\<close>, \<open>Base64\<close>, \<open>Rpc_Server\<close>, \<open>Rpc_Tcp\<close>, \<open>Rpc_Ws\<close>: the remote control in \<open>rpc/\<close>, its commands, the line protocol and the
    websocket. Shown: lines are read back from any segments, no command runs before the token, the answer to an upgrade, that no
    file outside \<open>http_root\<close> is opened, and the decoding of frames.

  \<^bold>\<open>The Android client.\<close> \<open>App_Protocol\<close>, \<open>App_Redirector\<close>, \<open>App_Relay\<close>, \<open>App_Service\<close> and \<open>App_Vpn\<close> are the classes of \<open>app/\<close>, in the order in
  which they use each other; the calls of its threads are interleaved steps. Shown: data go to the server and answers back to the
  console that called, no call throws out of its thread, and what \<open>onDestroy\<close> closes.

  \<^bold>\<open>Loops.\<close> Every loop is a total function: by structural recursion, or with a measure (the unread text of \<open>feed_loop\<close>, the bytes in the
  queue for \<open>ws_loop\<close>, the unsent bytes for \<open>write_buf_loop\<close>, the value of the sum for \<open>fold_sum\<close>). No fuel is used. That the writes of a
  socket end is proved with a bound on the number of rounds.

  \<^bold>\<open>Errors of the program.\<close> Several theorems state what the code does where it does not do what it means to: a fragment of the relay that
  writes out of bounds, data lost at the end of a stream, a websocket frame that ends with its segment, a UDP checksum that leaves the
  payload out, an answer that goes to the wrong console, handles and sockets that stay open.

  \<^bold>\<open>Assumptions.\<close> The theorems on TCP assume that lwIP accepts a write or asks to try again, and that \<open>uv_async_send\<close> succeeds. Callbacks
  of \<open>uv_lwip.c\<close> are run behind the call that makes them, which agrees with the nested calls of the source but for a failed write,
  which \<open>failed_write_uses_freed\<close> treats. Texts passed to a socket's write are taken as copied at the call. Integers are little endian, as
  in the builds for the usual machines.

  \<^bold>\<open>Not modelled.\<close> The stack \<open>lwip/\<close> is a third-party library that the sources only call; its answers are parameters. libuv, uvw, libpcap and
  the Android framework are not part of the sources. \<open>MainActivity.kt\<close> only calls the user interface. Logging and printing (\<open>llog.c\<close>,
  \<open>print_hex\<close>, \<open>ip2str\<close>, the help texts) only write text. The branches of \<open>helper.c\<close> and \<open>pcaploop.cpp\<close> for Windows and macOS are left out, but
  for \<open>compare_guid\<close>. Memory is not freed in the model: leaks are visible only as handles or objects that stay in the state.
\<close>

end
